(* ===== verification/Prelude.thy ===== *)
theory Prelude
  imports Main
begin

text \<open>
  Shared vocabulary of the development: computations that read and write a state and may
  throw (the shape of every JavaScript handler modelled here), ordered association lists
  (the shape of a JavaScript object), and the hint collections the component theories use.
\<close>

named_theorems comp_simps \<open>unfolding of stateful computations\<close>
named_theorems alist_simps \<open>lookup after update in ordered association lists\<close>
named_theorems wf_intros \<open>preservation of well-formedness\<close>

section \<open>Thrown values\<close>

text \<open>
  What the modelled code can throw: a \<open>TypeError\<close> of the language (property of
  undefined, call of a non-function), the \<open>SyntaxError\<close> of \<open>JSON.parse\<close>, the
  \<open>DataCloneError\<close> of \<open>postMessage\<close>, and \<open>new Error(msg)\<close> of the program.
\<close>

datatype js_error =
    TypeError string
  | SyntaxError
  | DataCloneError
  | ErrorMsg string

section \<open>Computations over a state that may throw\<close>

text \<open>
  A computation maps a state to a result (\<open>Inl\<close> a thrown value, \<open>Inr\<close> a returned
  one) and the state afterwards. A throw keeps the effects made before it, as in JavaScript.
\<close>

type_synonym ('s, 'a) comp = "'s \<Rightarrow> (js_error + 'a) \<times> 's"

definition ret :: "'a \<Rightarrow> ('s, 'a) comp" where
  "ret x s = (Inr x, s)"

definition throw :: "js_error \<Rightarrow> ('s, 'a) comp" where
  "throw e s = (Inl e, s)"

definition bindM :: "('s, 'a) comp \<Rightarrow> ('a \<Rightarrow> ('s, 'b) comp) \<Rightarrow> ('s, 'b) comp" where
  "bindM m f s = (case m s of (Inl e, t) \<Rightarrow> (Inl e, t) | (Inr x, t) \<Rightarrow> f x t)"

definition seqM :: "('s, 'a) comp \<Rightarrow> ('s, 'b) comp \<Rightarrow> ('s, 'b) comp" where
  "seqM m n = bindM m (\<lambda>_. n)"

definition getS :: "('s \<Rightarrow> 'a) \<Rightarrow> ('s, 'a) comp" where
  "getS f s = (Inr (f s), s)"

definition modS :: "('s \<Rightarrow> 's) \<Rightarrow> ('s, unit) comp" where
  "modS f s = (Inr (), f s)"

definition liftE :: "js_error + 'a \<Rightarrow> ('s, 'a) comp" where
  "liftE r s = (r, s)"

fun forM :: "'x list \<Rightarrow> ('x \<Rightarrow> ('s, unit) comp) \<Rightarrow> ('s, unit) comp" where
  "forM [] f = ret ()"
| "forM (x # xs) f = seqM (f x) (forM xs f)"

lemmas comp_defs [comp_simps] =
  ret_def throw_def bindM_def seqM_def getS_def modS_def liftE_def

lemma bindM_Inl [simp]: "m s = (Inl e, t) \<Longrightarrow> bindM m f s = (Inl e, t)"
  by (simp add: bindM_def)

lemma bindM_Inr [simp]: "m s = (Inr x, t) \<Longrightarrow> bindM m f s = f x t"
  by (simp add: bindM_def)

lemma seqM_Inr: "m s = (Inr x, t) \<Longrightarrow> seqM m n s = n t"
  by (simp add: seqM_def)

lemma bind_pure [simp]:
  "bindM (ret x) f s = f x s"
  "bindM (throw e) f s = (Inl e, s)"
  "bindM (liftE (Inr x)) f s = f x s"
  "bindM (liftE (Inl e)) f s = (Inl e, s)"
  "bindM (getS g) f s = f (g s) s"
  "bindM (modS h) k s = k () (h s)"
  by (simp_all add: comp_simps)

lemma forM_append:
  "forM (xs @ ys) f s = seqM (forM xs f) (forM ys f) s"
  by (induction xs arbitrary: s) (auto simp: comp_simps split: prod.splits sum.splits)

lemma forM_ok:
  assumes "\<And>x s. x \<in> set xs \<Longrightarrow> f x s = (Inr (), g x s)"
  shows "forM xs f s = (Inr (), fold g xs s)"
  using assms by (induction xs arbitrary: s) (auto simp: comp_simps)

text \<open>
  A computation keeps a predicate of the state when no run of it, returning or throwing,
  leaves the predicate. The rules follow the shape of the computation.
\<close>

definition keeps :: "('s \<Rightarrow> bool) \<Rightarrow> ('s, 'a) comp \<Rightarrow> bool" where
  "keeps P m \<longleftrightarrow> (\<forall>s. P s \<longrightarrow> P (snd (m s)))"

named_theorems keeps_rules \<open>computations that keep an invariant\<close>

lemma keepsI: "(\<And>s. P s \<Longrightarrow> P (snd (m s))) \<Longrightarrow> keeps P m"
  by (simp add: keeps_def)

lemma keepsD: "keeps P m \<Longrightarrow> P s \<Longrightarrow> P (snd (m s))"
  by (simp add: keeps_def)

lemma keeps_pure [keeps_rules]:
  "keeps P (ret x)" "keeps P (throw e)" "keeps P (liftE r)" "keeps P (getS f)"
  by (simp_all add: keeps_def comp_simps)

lemma keeps_modS: "(\<And>s. P s \<Longrightarrow> P (f s)) \<Longrightarrow> keeps P (modS f)"
  by (simp add: keeps_def comp_simps)

lemma keeps_bind [keeps_rules]:
  assumes "keeps P m" "\<And>x. keeps P (f x)"
  shows "keeps P (bindM m f)"
proof (rule keepsI)
  fix s assume "P s"
  obtain r t where m: "m s = (r, t)" by (cases "m s")
  with assms(1) \<open>P s\<close> have "P t" by (metis keepsD snd_conv)
  with assms(2) m show "P (snd (bindM m f s))"
    by (cases r) (auto simp: bindM_def keeps_def)
qed

lemma keeps_seq [keeps_rules]: "keeps P m \<Longrightarrow> keeps P n \<Longrightarrow> keeps P (seqM m n)"
  by (simp add: seqM_def keeps_bind)

lemma keeps_if [keeps_rules]: "keeps P m \<Longrightarrow> keeps P n \<Longrightarrow> keeps P (if b then m else n)"
  by simp

lemma keeps_option [keeps_rules]:
  "keeps P m \<Longrightarrow> (\<And>x. keeps P (f x)) \<Longrightarrow> keeps P (case x of None \<Rightarrow> m | Some x \<Rightarrow> f x)"
  by (cases x) auto

lemma keeps_Let [keeps_rules]: "(\<And>x. keeps P (f x)) \<Longrightarrow> keeps P (Let x f)"
  by simp

lemma keeps_forM [keeps_rules]: "(\<And>x. x \<in> set xs \<Longrightarrow> keeps P (f x)) \<Longrightarrow> keeps P (forM xs f)"
  by (induction xs) (auto intro: keeps_rules)

section \<open>Ordered association lists: the own properties of an object\<close>

text \<open>
  An object's own properties, in the order they were created. Assigning an existing
  property keeps its place, a new one goes to the end.
\<close>

fun aput :: "'k \<Rightarrow> 'v \<Rightarrow> ('k \<times> 'v) list \<Rightarrow> ('k \<times> 'v) list" where
  "aput k v [] = [(k, v)]"
| "aput k v ((k', v') # ps) = (if k = k' then (k, v) # ps else (k', v') # aput k v ps)"

definition akeys :: "('k \<times> 'v) list \<Rightarrow> 'k list" where
  "akeys ps = map fst ps"

definition adel :: "'k \<Rightarrow> ('k \<times> 'v) list \<Rightarrow> ('k \<times> 'v) list" where
  "adel k ps = filter (\<lambda>p. fst p \<noteq> k) ps"

lemma akeys_simps [simp]: "akeys [] = []" "akeys (p # ps) = fst p # akeys ps"
  by (simp_all add: akeys_def)

lemma map_of_aput [simp, alist_simps]: "map_of (aput k v ps) = (map_of ps)(k \<mapsto> v)"
  by (induction ps) (auto simp: fun_eq_iff)

lemma set_akeys_aput [simp, alist_simps]: "set (akeys (aput k v ps)) = insert k (set (akeys ps))"
  by (simp add: akeys_def flip: dom_map_of_conv_image_fst)

lemma distinct_aput [simp, wf_intros]: "distinct (akeys ps) \<Longrightarrow> distinct (akeys (aput k v ps))"
proof (induction ps)
  case (Cons p ps)
  then show ?case
    by (cases p) (use set_akeys_aput [of k v ps] in \<open>auto simp: akeys_def\<close>)
qed (simp add: akeys_def)

lemma aput_new: "k \<notin> set (akeys ps) \<Longrightarrow> aput k v ps = ps @ [(k, v)]"
  by (induction ps) (auto simp: akeys_def)

lemma aput_same: "map_of ps k = Some v \<Longrightarrow> distinct (akeys ps) \<Longrightarrow> aput k v ps = ps"
  by (induction ps) (auto simp: akeys_def split: if_splits)

lemma map_of_adel [simp, alist_simps]: "map_of (adel k ps) = (map_of ps)(k := None)"
  by (induction ps) (auto simp: adel_def fun_eq_iff)

lemma distinct_adel [simp, wf_intros]: "distinct (akeys ps) \<Longrightarrow> distinct (akeys (adel k ps))"
  by (induction ps) (auto simp: akeys_def adel_def)

lemma map_of_akeys: "map_of ps k = None \<longleftrightarrow> k \<notin> set (akeys ps)"
  by (simp add: akeys_def map_of_eq_None_iff)

lemma map_of_in_set: "map_of ps k = Some v \<Longrightarrow> (k, v) \<in> set ps"
  by (rule map_of_SomeD)

lemma map_of_distinct_iff:
  "distinct (akeys ps) \<Longrightarrow> map_of ps k = Some v \<longleftrightarrow> (k, v) \<in> set ps"
  by (simp add: akeys_def)

text \<open>Filtering by a predicate on the message and its worker, used for the queues.\<close>

definition sent_to :: "'w \<Rightarrow> ('w \<times> 'm) list \<Rightarrow> 'm list" where
  "sent_to w l = map snd (filter (\<lambda>p. fst p = w) l)"

lemma sent_to_Nil [simp]: "sent_to w [] = []"
  by (simp add: sent_to_def)

lemma sent_to_append [simp]: "sent_to w (xs @ ys) = sent_to w xs @ sent_to w ys"
  by (simp add: sent_to_def)

lemma sent_to_single [simp]: "sent_to w [(w', m)] = (if w = w' then [m] else [])"
  by (simp add: sent_to_def)

lemma sent_to_empty: "(\<And>p. p \<in> set l \<Longrightarrow> fst p \<noteq> w) \<Longrightarrow> sent_to w l = []"
  by (auto simp: sent_to_def filter_empty_conv)

section \<open>Cells of a list\<close>

text \<open>Reading a list after one of its cells was written, whether or not the cell exists.\<close>

lemma nth_update: "xs[i := x] ! j = (if i = j \<and> i < length xs then x else xs ! j)"
  by (cases "i < length xs") (auto simp: list_update_beyond not_less)

end
