(* ===== verification/JsValue.thy ===== *)
theory JsValue
  imports Prelude
begin

text \<open>
  The JavaScript values the client code passes around (message objects, agent identifiers,
  observers' arguments, agent states) and the operations of the language the code applies
  to them: property access, assignment, truthiness, \<open>typeof\<close>, \<open>===\<close>, conversion to
  string, the structured clone of \<open>postMessage\<close>, and \<open>for ... in\<close>.

  Values are trees: everything that crosses a worker, a socket or the server is a fresh
  copy. Numbers are integers (the code computes with the integer literals of its opcodes
  and counters only), strings are lists of 8-bit characters, and a function value carries
  its source text.
\<close>

datatype js =
    JUndef
  | JNull
  | JBool bool
  | JNum int
  | JStr string
  | JArr "js list"
  | JObj "(string \<times> js) list"
  | JFun string

section \<open>Decimal numerals\<close>

definition digit_char :: "nat \<Rightarrow> char" where
  "digit_char n = char_of (48 + n)"

fun nat_str :: "nat \<Rightarrow> string" where
  "nat_str n = (if n < 10 then [digit_char n] else nat_str (n div 10) @ [digit_char (n mod 10)])"

declare nat_str.simps [simp del]

definition int_str :: "int \<Rightarrow> string" where
  "int_str i = (if i < 0 then CHR ''-'' # nat_str (nat (- i)) else nat_str (nat i))"

definition is_digit :: "char \<Rightarrow> bool" where
  "is_digit c \<longleftrightarrow> 48 \<le> (of_char c :: nat) \<and> (of_char c :: nat) \<le> 57"

definition digit_val :: "char \<Rightarrow> nat" where
  "digit_val c = of_char c - 48"

definition digits_val :: "string \<Rightarrow> nat" where
  "digits_val s = foldl (\<lambda>n c. 10 * n + digit_val c) 0 s"

lemma of_char_digit [simp]: "n < 10 \<Longrightarrow> (of_char (digit_char n) :: nat) = 48 + n"
  by (simp add: digit_char_def)

lemma is_digit_digit_char [simp]: "n < 10 \<Longrightarrow> is_digit (digit_char n)"
  by (simp add: is_digit_def)

lemma digit_val_digit_char [simp]: "n < 10 \<Longrightarrow> digit_val (digit_char n) = n"
  by (simp add: digit_val_def)

lemma nat_str_digits: "c \<in> set (nat_str n) \<Longrightarrow> is_digit c"
proof (induction n rule: nat_str.induct)
  case (1 n)
  show ?case
  proof (cases "n < 10")
    case True
    with "1.prems" show ?thesis by (simp add: nat_str.simps [of n])
  next
    case False
    with "1" show ?thesis by (auto simp: nat_str.simps [of n])
  qed
qed

lemma nat_str_nonempty [simp]: "nat_str n \<noteq> []"
  by (simp add: nat_str.simps [of n])

lemma digits_val_snoc: "digits_val (s @ [c]) = 10 * digits_val s + digit_val c"
  by (simp add: digits_val_def)

lemma digits_val_nat_str [simp]: "digits_val (nat_str n) = n"
proof (induction n rule: nat_str.induct)
  case (1 n)
  show ?case
  proof (cases "n < 10")
    case True
    then show ?thesis by (simp add: nat_str.simps [of n] digits_val_def)
  next
    case False
    with "1" show ?thesis by (simp add: nat_str.simps [of n] digits_val_snoc)
  qed
qed

lemma nat_str_inj: "nat_str m = nat_str n \<Longrightarrow> m = n"
  by (metis digits_val_nat_str)

lemma hd_nat_str: "n \<noteq> 0 \<Longrightarrow> hd (nat_str n) \<noteq> CHR ''0''"
proof (induction n rule: nat_str.induct)
  case (1 n)
  show ?case
  proof (cases "n < 10")
    case True
    have "digit_char n = CHR ''0'' \<Longrightarrow> n = 0"
      using of_char_digit [OF True] by simp
    with True "1.prems" show ?thesis by (auto simp: nat_str.simps [of n])
  next
    case False
    with "1.IH" show ?thesis by (simp add: nat_str.simps [of n])
  qed
qed

lemma nat_str_0 [simp]: "nat_str 0 = ''0''"
  by code_simp

section \<open>Operations of the language\<close>

fun truthy :: "js \<Rightarrow> bool" where
  "truthy JUndef = False"
| "truthy JNull = False"
| "truthy (JBool b) = b"
| "truthy (JNum i) = (i \<noteq> 0)"
| "truthy (JStr s) = (s \<noteq> [])"
| "truthy _ = True"

fun js_typeof :: "js \<Rightarrow> string" where
  "js_typeof JUndef = ''undefined''"
| "js_typeof (JBool _) = ''boolean''"
| "js_typeof (JNum _) = ''number''"
| "js_typeof (JStr _) = ''string''"
| "js_typeof (JFun _) = ''function''"
| "js_typeof _ = ''object''"

fun join :: "string \<Rightarrow> string list \<Rightarrow> string" where
  "join sep [] = []"
| "join sep [x] = x"
| "join sep (x # y # xs) = x @ sep @ join sep (y # xs)"

text \<open>\<open>ToString\<close>: an array joins its elements, where null and undefined are empty.\<close>

fun to_str :: "js \<Rightarrow> string" and arr_strs :: "js list \<Rightarrow> string list" where
  "to_str JUndef = ''undefined''"
| "to_str JNull = ''null''"
| "to_str (JBool b) = (if b then ''true'' else ''false'')"
| "to_str (JNum i) = int_str i"
| "to_str (JStr s) = s"
| "to_str (JArr xs) = join '','' (arr_strs xs)"
| "to_str (JObj ps) = ''[object Object]''"
| "to_str (JFun src) = src"
| "arr_strs [] = []"
| "arr_strs (x # xs) = (if x = JUndef \<or> x = JNull then [] else to_str x) # arr_strs xs"

text \<open>
  Property read \<open>v.k\<close>: undefined and null have no properties (a \<open>TypeError\<close>), a missing
  property is undefined.
\<close>

fun js_get :: "js \<Rightarrow> string \<Rightarrow> js_error + js" where
  "js_get JUndef k = Inl (TypeError k)"
| "js_get JNull k = Inl (TypeError k)"
| "js_get (JObj ps) k = Inr (case map_of ps k of None \<Rightarrow> JUndef | Some v \<Rightarrow> v)"
| "js_get (JArr xs) k = Inr (if k = ''length'' then JNum (int (length xs)) else JUndef)"
| "js_get (JStr s) k = Inr (if k = ''length'' then JNum (int (length s)) else JUndef)"
| "js_get _ k = Inr JUndef"

text \<open>
  Property write \<open>v.k = x\<close> in strict code on an object; on a primitive it throws. (The code
  writes named properties of plain objects only.)
\<close>

fun js_set :: "js \<Rightarrow> string \<Rightarrow> js \<Rightarrow> js_error + js" where
  "js_set (JObj ps) k x = Inr (JObj (aput k x ps))"
| "js_set _ k x = Inl (TypeError k)"

text \<open>
  The elements a loop \<open>for (i = 0, len = v.length; i < len; i++) ... v[i]\<close> visits. An object
  with no numeric \<open>length\<close> is not iterated (\<open>0 < undefined\<close> is false).
\<close>

fun js_items :: "js \<Rightarrow> js_error + js list" where
  "js_items JUndef = Inl (TypeError ''length'')"
| "js_items JNull = Inl (TypeError ''length'')"
| "js_items (JArr xs) = Inr xs"
| "js_items (JStr s) = Inr (map (\<lambda>c. JStr [c]) s)"
| "js_items (JObj ps) = Inr (case map_of ps ''length'' of
     Some (JNum n) \<Rightarrow> map (\<lambda>i. case map_of ps (nat_str i) of None \<Rightarrow> JUndef | Some v \<Rightarrow> v) [0..<nat n]
   | _ \<Rightarrow> [])"
| "js_items _ = Inr []"

text \<open>
  Strict equality. Values with identity (objects, arrays, functions) that come from two
  different places are never identical; the code compares a received copy with a
  local value only.
\<close>

fun strict_eq :: "js \<Rightarrow> js \<Rightarrow> bool" where
  "strict_eq JUndef JUndef = True"
| "strict_eq JNull JNull = True"
| "strict_eq (JBool a) (JBool b) = (a = b)"
| "strict_eq (JNum a) (JNum b) = (a = b)"
| "strict_eq (JStr a) (JStr b) = (a = b)"
| "strict_eq _ _ = False"

definition is_primitive :: "js \<Rightarrow> bool" where
  "is_primitive v = (case v of JArr _ \<Rightarrow> False | JObj _ \<Rightarrow> False | JFun _ \<Rightarrow> False | _ \<Rightarrow> True)"

lemma strict_eq_iff: "strict_eq a b \<longleftrightarrow> a = b \<and> is_primitive a"
  by (cases a; cases b) (auto simp: is_primitive_def)

text \<open>The enumerable own properties a \<open>for (k in v)\<close> visits, with their values.\<close>

fun js_own :: "js \<Rightarrow> (string \<times> js) list" where
  "js_own (JObj ps) = ps"
| "js_own (JArr xs) = map (\<lambda>i. (nat_str i, xs ! i)) [0..<length xs]"
| "js_own (JStr s) = map (\<lambda>i. (nat_str i, JStr [s ! i])) [0..<length s]"
| "js_own _ = []"

text \<open>A value \<open>postMessage\<close> can clone: no function anywhere inside.\<close>

fun cloneable :: "js \<Rightarrow> bool" and cloneables :: "js list \<Rightarrow> bool"
  and cloneable_props :: "(string \<times> js) list \<Rightarrow> bool" where
  "cloneable (JFun _) = False"
| "cloneable (JArr xs) = cloneables xs"
| "cloneable (JObj ps) = cloneable_props ps"
| "cloneable _ = True"
| "cloneables [] = True"
| "cloneables (x # xs) = (cloneable x \<and> cloneables xs)"
| "cloneable_props [] = True"
| "cloneable_props ((k, v) # ps) = (cloneable v \<and> cloneable_props ps)"

definition clone :: "js \<Rightarrow> js_error + js" where
  "clone v = (if cloneable v then Inr v else Inl DataCloneError)"

lemma cloneable_props_iff: "cloneable_props ps \<longleftrightarrow> (\<forall>p \<in> set ps. cloneable (snd p))"
  by (induction ps) auto

lemma cloneables_iff: "cloneables xs \<longleftrightarrow> (\<forall>x \<in> set xs. cloneable x)"
  by (induction xs) auto

lemma cloneable_props_aput:
  "cloneable_props ps \<Longrightarrow> cloneable v \<Longrightarrow> cloneable_props (aput k v ps)"
proof (induction ps)
  case (Cons p ps)
  then show ?case by (cases p) auto
qed simp

lemma js_get_obj: "map_of ps k = Some v \<Longrightarrow> js_get (JObj ps) k = Inr v"
  by simp

lemma js_get_set: "js_set v k x = Inr w \<Longrightarrow> js_get w k = Inr x"
  by (cases v) auto

lemma js_get_set_other: "js_set v k x = Inr w \<Longrightarrow> j \<noteq> k \<Longrightarrow> js_get w j = js_get v j"
  by (cases v) auto

end
