(* ===== verification/Json.thy ===== *)
theory Json
  imports JsValue
begin

text \<open>
  \<open>JSON.stringify\<close> and \<open>JSON.parse\<close>, which the client uses on every boundary with the
  server and for the state of a migrating agent. The printer leaves out undefined and
  functions in objects and prints them as null in arrays; the parser accepts white space
  between tokens. Numbers are integers and characters are 8 bits wide, so a fraction, an
  exponent or a \<open>\u\<close> escape above 255 is outside the model (it is refused).
\<close>

section \<open>Printing\<close>

definition hex_char :: "nat \<Rightarrow> char" where
  "hex_char n = (if n < 10 then char_of (48 + n) else char_of (87 + n))"

definition esc_char :: "char \<Rightarrow> string" where
  "esc_char c =
     (if c = CHR 0x22 \<or> c = CHR 0x5C then [CHR 0x5C, c]
      else if c = CHR 0x08 then [CHR 0x5C, CHR ''b'']
      else if c = CHR 0x0C then [CHR 0x5C, CHR ''f'']
      else if c = CHR 0x0A then [CHR 0x5C, CHR ''n'']
      else if c = CHR 0x0D then [CHR 0x5C, CHR ''r'']
      else if c = CHR 0x09 then [CHR 0x5C, CHR ''t'']
      else if (of_char c :: nat) < 32 then
        [CHR 0x5C, CHR ''u'', CHR ''0'', CHR ''0'',
         hex_char (of_char c div 16), hex_char (of_char c mod 16)]
      else [c])"

definition quote :: "string \<Rightarrow> string" where
  "quote s = CHR 0x22 # concat (map esc_char s) @ [CHR 0x22]"

definition jsonable :: "js \<Rightarrow> bool" where
  "jsonable v = (case v of JUndef \<Rightarrow> False | JFun _ \<Rightarrow> False | _ \<Rightarrow> True)"

fun render :: "js \<Rightarrow> string" and elems :: "js list \<Rightarrow> string list"
  and members :: "(string \<times> js) list \<Rightarrow> string list" where
  "render JUndef = ''null''"
| "render JNull = ''null''"
| "render (JBool b) = (if b then ''true'' else ''false'')"
| "render (JNum i) = int_str i"
| "render (JStr s) = quote s"
| "render (JFun _) = ''null''"
| "render (JArr xs) = ''['' @ join '','' (elems xs) @ '']''"
| "render (JObj ps) = ''{'' @ join '','' (members ps) @ ''}''"
| "elems [] = []"
| "elems (x # xs) = render x # elems xs"
| "members [] = []"
| "members ((k, v) # ps) =
     (if jsonable v then (quote k @ '':'' @ render v) # members ps else members ps)"

text \<open>\<open>JSON.stringify(undefined)\<close> is undefined, and so is that of a function.\<close>

definition json_stringify :: "js \<Rightarrow> js" where
  "json_stringify v = (if jsonable v then JStr (render v) else JUndef)"

section \<open>Parsing\<close>

definition is_ws :: "char \<Rightarrow> bool" where
  "is_ws c \<longleftrightarrow> c = CHR '' '' \<or> c = CHR 0x09 \<or> c = CHR 0x0A \<or> c = CHR 0x0D"

definition skip_ws :: "string \<Rightarrow> string" where
  "skip_ws s = dropWhile is_ws s"

definition hex_val :: "char \<Rightarrow> nat option" where
  "hex_val c =
     (let n = of_char c :: nat in
      if 48 \<le> n \<and> n \<le> 57 then Some (n - 48)
      else if 97 \<le> n \<and> n \<le> 102 then Some (n - 87)
      else if 65 \<le> n \<and> n \<le> 70 then Some (n - 55)
      else None)"

definition unesc_hex :: "char \<Rightarrow> char \<Rightarrow> char \<Rightarrow> char \<Rightarrow> char option" where
  "unesc_hex a b c d =
     (case (hex_val a, hex_val b, hex_val c, hex_val d) of
        (Some p, Some q, Some r, Some s) \<Rightarrow>
          (if p = 0 \<and> q = 0 then Some (char_of (16 * r + s)) else None)
      | _ \<Rightarrow> None)"

definition unesc :: "char \<Rightarrow> char option" where
  "unesc e =
     (if e = CHR 0x22 \<or> e = CHR 0x5C \<or> e = CHR ''/'' then Some e
      else if e = CHR ''b'' then Some (CHR 0x08)
      else if e = CHR ''f'' then Some (CHR 0x0C)
      else if e = CHR ''n'' then Some (CHR 0x0A)
      else if e = CHR ''r'' then Some (CHR 0x0D)
      else if e = CHR ''t'' then Some (CHR 0x09)
      else None)"

definition prepend :: "char option \<Rightarrow> (string \<times> string) option \<Rightarrow> (string \<times> string) option" where
  "prepend c r = (case (c, r) of (Some x, Some (s, t)) \<Rightarrow> Some (x # s, t) | _ \<Rightarrow> None)"

text \<open>The characters of a string literal after its opening quote.\<close>

fun pstr :: "string \<Rightarrow> (string \<times> string) option" where
  "pstr [] = None"
| "pstr (c # cs) =
     (if c = CHR 0x22 then Some ([], cs)
      else if c = CHR 0x5C then
        (case cs of
           [] \<Rightarrow> None
         | e # es \<Rightarrow>
             (if e = CHR ''u'' then
                (case es of
                   h1 # h2 # h3 # h4 # rest \<Rightarrow> prepend (unesc_hex h1 h2 h3 h4) (pstr rest)
                 | _ \<Rightarrow> None)
              else prepend (unesc e) (pstr es)))
      else if (of_char c :: nat) < 32 then None
      else prepend (Some c) (pstr cs))"

definition pnat :: "string \<Rightarrow> (nat \<times> string) option" where
  "pnat s =
     (let ds = takeWhile is_digit s; rest = dropWhile is_digit s in
      if ds = [] \<or> (hd ds = CHR ''0'' \<and> length ds > 1) then None
      else if rest \<noteq> [] \<and> hd rest \<in> {CHR ''.'', CHR ''e'', CHR ''E''} then None
      else Some (digits_val ds, rest))"

definition pnum :: "string \<Rightarrow> (js \<times> string) option" where
  "pnum s =
     (case s of
        [] \<Rightarrow> None
      | c # cs \<Rightarrow>
          (if c = CHR ''-'' then map_option (\<lambda>(n, r). (JNum (- int n), r)) (pnat cs)
           else map_option (\<lambda>(n, r). (JNum (int n), r)) (pnat s)))"

definition strip :: "string \<Rightarrow> string \<Rightarrow> string option" where
  "strip p s = (if take (length p) s = p then Some (drop (length p) s) else None)"

definition of_raw :: "(string \<times> js) list \<Rightarrow> (string \<times> js) list" where
  "of_raw ps = fold (\<lambda>(k, v) m. aput k v m) ps []"

text \<open>
  The first argument bounds the nesting: every nested call gets one unit less, and the
  length of the text is always enough.
\<close>

fun pval :: "nat \<Rightarrow> string \<Rightarrow> (js \<times> string) option"
  and parr :: "nat \<Rightarrow> string \<Rightarrow> (js list \<times> string) option"
  and pobj :: "nat \<Rightarrow> string \<Rightarrow> ((string \<times> js) list \<times> string) option" where
  "pval 0 s = None"
| "pval (Suc n) s =
     (case skip_ws s of
        [] \<Rightarrow> None
      | c # cs \<Rightarrow>
          (if c = CHR 0x22 then map_option (\<lambda>(x, r). (JStr x, r)) (pstr cs)
           else if c = CHR ''['' then
             (case skip_ws cs of
                [] \<Rightarrow> None
              | d # ds \<Rightarrow> (if d = CHR '']'' then Some (JArr [], ds)
                           else map_option (\<lambda>(x, r). (JArr x, r)) (parr n (d # ds))))
           else if c = CHR ''{'' then
             (case skip_ws cs of
                [] \<Rightarrow> None
              | d # ds \<Rightarrow> (if d = CHR ''}'' then Some (JObj [], ds)
                           else map_option (\<lambda>(x, r). (JObj (of_raw x), r)) (pobj n (d # ds))))
           else (case strip ''null'' (c # cs) of
                   Some r \<Rightarrow> Some (JNull, r)
                 | None \<Rightarrow>
                     (case strip ''true'' (c # cs) of
                        Some r \<Rightarrow> Some (JBool True, r)
                      | None \<Rightarrow>
                          (case strip ''false'' (c # cs) of
                             Some r \<Rightarrow> Some (JBool False, r)
                           | None \<Rightarrow> pnum (c # cs))))))"
| "parr 0 s = None"
| "parr (Suc n) s =
     (case pval n s of
        None \<Rightarrow> None
      | Some (v, r) \<Rightarrow>
          (case skip_ws r of
             [] \<Rightarrow> None
           | c # cs \<Rightarrow>
               (if c = CHR '']'' then Some ([v], cs)
                else if c = CHR '','' then map_option (\<lambda>(vs, q). (v # vs, q)) (parr n cs)
                else None)))"
| "pobj 0 s = None"
| "pobj (Suc n) s =
     (case skip_ws s of
        [] \<Rightarrow> None
      | b # bs \<Rightarrow>
          (if b \<noteq> CHR 0x22 then None
           else (case pstr bs of
              None \<Rightarrow> None
            | Some (k, r0) \<Rightarrow>
                (case skip_ws r0 of
                   [] \<Rightarrow> None
                 | co # r1 \<Rightarrow>
                     (if co \<noteq> CHR '':'' then None
                      else (case pval n r1 of
                         None \<Rightarrow> None
                       | Some (v, r) \<Rightarrow>
                           (case skip_ws r of
                              [] \<Rightarrow> None
                            | c # cs \<Rightarrow>
                                (if c = CHR ''}'' then Some ([(k, v)], cs)
                                 else if c = CHR '','' then
                                   map_option (\<lambda>(ps, q). ((k, v) # ps, q)) (pobj n cs)
                                 else None))))))))"

definition json_parse :: "string \<Rightarrow> js_error + js" where
  "json_parse s =
     (case pval (Suc (length s)) s of
        Some (v, r) \<Rightarrow> (if skip_ws r = [] then Inr v else Inl SyntaxError)
      | None \<Rightarrow> Inl SyntaxError)"


section \<open>Printing then parsing\<close>

text \<open>A value JSON can carry: no undefined or function inside, and no repeated key.\<close>

fun json_value :: "js \<Rightarrow> bool" and json_values :: "js list \<Rightarrow> bool"
  and json_props :: "(string \<times> js) list \<Rightarrow> bool" where
  "json_value JUndef = False"
| "json_value (JFun _) = False"
| "json_value (JArr xs) = json_values xs"
| "json_value (JObj ps) = (json_props ps \<and> distinct (akeys ps))"
| "json_value _ = True"
| "json_values [] = True"
| "json_values (x # xs) = (json_value x \<and> json_values xs)"
| "json_props [] = True"
| "json_props ((k, v) # ps) = (json_value v \<and> json_props ps)"

definition ends_value :: "string \<Rightarrow> bool" where
  "ends_value rest \<longleftrightarrow> rest = [] \<or> hd rest \<in> {CHR '','', CHR '']'', CHR ''}''}"

lemma hex_val_hex_char: "n < 16 \<Longrightarrow> hex_val (hex_char n) = Some n"
  by (auto simp: hex_val_def hex_char_def Let_def)

lemma unesc_hex_esc:
  assumes "(of_char c :: nat) < 32"
  shows "unesc_hex (CHR ''0'') (CHR ''0'') (hex_char (of_char c div 16)) (hex_char (of_char c mod 16))
    = Some c"
proof -
  have "hex_val (CHR ''0'') = Some 0" by code_simp
  moreover have "(of_char c :: nat) div 16 < 16" using assms by simp
  ultimately show ?thesis
    by (simp add: unesc_hex_def hex_val_hex_char)
qed

lemma pstr_esc_char: "pstr (esc_char c @ t) = prepend (Some c) (pstr t)"
proof (cases "c \<in> {CHR 0x22, CHR 0x5C, CHR 0x08, CHR 0x0C, CHR 0x0A, CHR 0x0D, CHR 0x09}")
  case True
  then show ?thesis by (auto simp: esc_char_def unesc_def)
next
  case False
  show ?thesis
  proof (cases "(of_char c :: nat) < 32")
    case True
    with False show ?thesis by (simp add: esc_char_def unesc_hex_esc)
  next
    case False
    with \<open>c \<notin> _\<close> show ?thesis by (simp add: esc_char_def)
  qed
qed

lemma pstr_quote: "pstr (concat (map esc_char s) @ CHR 0x22 # rest) = Some (s, rest)"
  by (induction s) (simp_all add: pstr_esc_char prepend_def)

lemma pnat_nat_str:
  assumes "ends_value rest"
  shows "pnat (nat_str n @ rest) = Some (n, rest)"
proof -
  have dig: "\<forall>c \<in> set (nat_str n). is_digit c" by (simp add: nat_str_digits)
  have stop: "rest = [] \<or> \<not> is_digit (hd rest)"
    using assms by (auto simp: ends_value_def is_digit_def)
  from dig stop have "takeWhile is_digit (nat_str n @ rest) = nat_str n"
    by (cases rest) (auto simp: takeWhile_append2)
  moreover from dig stop have "dropWhile is_digit (nat_str n @ rest) = rest"
    by (cases rest) (auto simp: dropWhile_append2)
  moreover have "\<not> (hd (nat_str n) = CHR ''0'' \<and> length (nat_str n) > 1)"
    by (cases "n = 0") (auto simp: hd_nat_str)
  ultimately show ?thesis
    using assms by (auto simp: pnat_def Let_def ends_value_def)
qed

lemma hd_nat_str_digit: "is_digit (hd (nat_str n))"
  by (rule nat_str_digits [OF hd_in_set]) simp

text \<open>The first character of a number's text starts no other kind of value.\<close>

lemma num_start_not:
  assumes "c = CHR ''-'' \<or> is_digit c"
  shows "c \<noteq> CHR 0x22 \<and> c \<noteq> CHR ''['' \<and> c \<noteq> CHR ''{'' \<and> c \<noteq> CHR ''n'' \<and> c \<noteq> CHR ''t''
    \<and> c \<noteq> CHR ''f'' \<and> \<not> is_ws c"
  using assms by (elim disjE) (simp add: is_ws_def, force simp: is_digit_def is_ws_def)

lemma digit_not_minus: "is_digit c \<Longrightarrow> c \<noteq> CHR ''-''"
  by (auto simp: is_digit_def)

lemma strip_differs: "p \<noteq> [] \<Longrightarrow> c \<noteq> hd p \<Longrightarrow> strip p (c # cs) = None"
  by (cases p) (auto simp: strip_def)

lemma pnum_int_str:
  assumes "ends_value rest"
  shows "pnum (int_str i @ rest) = Some (JNum i, rest)"
proof (cases "i < 0")
  case True
  then show ?thesis using assms by (simp add: pnum_def int_str_def pnat_nat_str)
next
  case False
  obtain c cs where c: "nat_str (nat i) = c # cs" by (cases "nat_str (nat i)") auto
  with hd_nat_str_digit [of "nat i"] have "c \<noteq> CHR ''-''" by (auto dest: digit_not_minus)
  with False c assms pnat_nat_str [OF assms, of "nat i"] show ?thesis
    by (simp add: pnum_def int_str_def)
qed

lemma pval_int_str:
  assumes "ends_value rest"
  shows "pval (Suc n) (int_str i @ rest) = Some (JNum i, rest)"
proof -
  obtain c cs where c: "int_str i = c # cs"
    by (cases "int_str i") (auto simp: int_str_def split: if_splits)
  have "c = CHR ''-'' \<or> is_digit c"
  proof (cases "i < 0")
    case True
    with c show ?thesis by (simp add: int_str_def)
  next
    case False
    with c have "nat_str (nat i) = c # cs" by (simp add: int_str_def)
    with hd_nat_str_digit [of "nat i"] show ?thesis by simp
  qed
  note start = num_start_not [OF this]
  have "pnum (c # cs @ rest) = Some (JNum i, rest)"
    using pnum_int_str [OF assms, of i] c by simp
  with c start show ?thesis
    by (simp add: skip_ws_def strip_differs)
qed

lemma of_raw_snoc: "of_raw (ps @ [(k, v)]) = aput k v (of_raw ps)"
  by (simp add: of_raw_def)

lemma of_raw_distinct: "distinct (akeys ps) \<Longrightarrow> of_raw ps = ps"
proof (induction ps rule: rev_induct)
  case (snoc p ps)
  obtain k v where p: "p = (k, v)" by (cases p)
  with snoc show ?case by (auto simp: of_raw_snoc akeys_def intro!: aput_new)
qed (simp add: of_raw_def)

lemma skip_ws_solid: "s \<noteq> [] \<Longrightarrow> \<not> is_ws (hd s) \<Longrightarrow> skip_ws (s @ t) = s @ t"
  by (cases s) (auto simp: skip_ws_def)

lemma render_solid: "render v \<noteq> [] \<and> \<not> is_ws (hd (render v)) \<and> hd (render v) \<noteq> CHR '']''"
proof (cases v)
  case (JNum i)
  have "is_digit (hd (nat_str (nat i)))" by (rule hd_nat_str_digit)
  then have "\<not> is_ws (hd (nat_str (nat i))) \<and> hd (nat_str (nat i)) \<noteq> CHR '']''"
    by (auto simp: is_digit_def is_ws_def)
  with JNum show ?thesis by (auto simp: int_str_def is_ws_def)
qed (auto simp: is_ws_def quote_def)

lemma members_props: "json_props ps \<Longrightarrow>
    members ps = map (\<lambda>(k, v). quote k @ '':'' @ render v) ps"
proof (induction ps)
  case (Cons p ps)
  obtain k v where p: "p = (k, v)" by (cases p)
  with Cons.prems have "jsonable v" by (cases v) (auto simp: jsonable_def)
  with Cons p show ?case by simp
qed simp

lemma json_value_jsonable: "json_value v \<Longrightarrow> jsonable v"
  by (cases v) (auto simp: jsonable_def)

lemma ends_value_comma [simp]: "ends_value (CHR '','' # t)" "ends_value (CHR '']'' # t)"
  "ends_value (CHR ''}'' # t)" "ends_value []"
  by (simp_all add: ends_value_def)

lemma skip_ws_punct [simp]: "skip_ws (CHR '','' # t) = CHR '','' # t"
  "skip_ws (CHR '']'' # t) = CHR '']'' # t" "skip_ws (CHR ''}'' # t) = CHR ''}'' # t"
  "skip_ws (CHR '':'' # t) = CHR '':'' # t" "skip_ws (CHR 0x22 # t) = CHR 0x22 # t"
  "skip_ws (CHR ''['' # t) = CHR ''['' # t" "skip_ws (CHR ''{'' # t) = CHR ''{'' # t"
  by (simp_all add: skip_ws_def is_ws_def)

lemma join_Cons: "join sep (x # xs) = (if xs = [] then x else x @ sep @ join sep xs)"
  by (cases xs) auto

lemma elems_Nil [simp]: "elems xs = [] \<longleftrightarrow> xs = []"
  by (cases xs) auto

lemma members_Nil: "json_props ps \<Longrightarrow> members ps = [] \<longleftrightarrow> ps = []"
  by (simp add: members_props)

lemma elems_start:
  assumes "xs \<noteq> []"
  obtains d ds where "join '','' (elems xs) @ t = d # ds" "d \<noteq> CHR '']''"
    "skip_ws (d # ds) = d # ds"
proof -
  from assms obtain x ys where xs: "xs = x # ys" by (cases xs) auto
  obtain d ds where d: "render x = d # ds" "d \<noteq> CHR '']''" "\<not> is_ws d"
    using render_solid [of x] by (cases "render x") auto
  show thesis
  proof (rule that)
    show "join '','' (elems xs) @ t =
        d # (ds @ (if ys = [] then [] else '','' @ join '','' (elems ys)) @ t)"
      by (simp add: xs d join_Cons)
    show "skip_ws (d # ds @ (if ys = [] then [] else '','' @ join '','' (elems ys)) @ t)
      = d # ds @ (if ys = [] then [] else '','' @ join '','' (elems ys)) @ t"
      using d by (simp add: skip_ws_def)
  qed (fact d)
qed

lemma members_start:
  assumes "json_props ps" "ps \<noteq> []"
  obtains ds where "join '','' (members ps) @ t = CHR 0x22 # ds"
proof -
  from assms obtain k v qs where ps: "ps = (k, v) # qs" by (cases ps) auto
  with assms have "members ps = (CHR 0x22 # concat (map esc_char k) @ CHR 0x22 # '':'' @ render v) # members qs"
    by (simp add: members_props quote_def json_value_jsonable)
  then have "\<exists>ds. join '','' (members ps) @ t = CHR 0x22 # ds"
    by (simp add: join_Cons)
  with that show thesis by blast
qed

lemma pval_render_aux:
  "\<lbrakk>json_value v; length (render v) \<le> n; ends_value rest\<rbrakk> \<Longrightarrow>
     pval n (render v @ rest) = Some (v, rest)"
  "\<lbrakk>json_values xs; xs \<noteq> []; length (join '','' (elems xs)) < n\<rbrakk> \<Longrightarrow>
     parr n (join '','' (elems xs) @ CHR '']'' # rest) = Some (xs, rest)"
  "\<lbrakk>json_props ps; ps \<noteq> []; length (join '','' (members ps)) < n\<rbrakk> \<Longrightarrow>
     pobj n (join '','' (members ps) @ CHR ''}'' # rest) = Some (ps, rest)"
proof (induction v and xs and ps arbitrary: n rest and n rest and n rest rule: render_elems_members.induct)
  case (7 xs)
  then obtain m where m: "n = Suc m" by (cases n) auto
  show ?case
  proof (cases "xs = []")
    case True
    with m show ?thesis by simp
  next
    case False
    obtain d ds where d: "join '','' (elems xs) @ CHR '']'' # rest = d # ds" "d \<noteq> CHR '']''"
      "skip_ws (d # ds) = d # ds" by (rule elems_start [OF False])
    have "parr m (join '','' (elems xs) @ CHR '']'' # rest) = Some (xs, rest)"
      using 7 False m by simp
    with d m show ?thesis by simp
  qed
next
  case (8 ps)
  then obtain m where m: "n = Suc m" by (cases n) auto
  show ?case
  proof (cases "ps = []")
    case True
    with m show ?thesis by simp
  next
    case False
    have "json_props ps" using "8.prems" by simp
    then obtain ds where d: "join '','' (members ps) @ CHR ''}'' # rest = CHR 0x22 # ds"
      by (rule members_start [OF _ False])
    have "pobj m (join '','' (members ps) @ CHR ''}'' # rest) = Some (ps, rest)"
      using 8 False m by simp
    with d m 8 show ?thesis by (simp add: of_raw_distinct)
  qed
next
  case (10 x xs)
  then obtain m where m: "n = Suc m" by (cases n) auto
  show ?case
  proof (cases "xs = []")
    case True
    with 10 m show ?thesis by simp
  next
    case False
    with 10 m show ?thesis by (simp add: join_Cons)
  qed
next
  case (12 k v ps)
  then obtain m where m: "n = Suc m" by (cases n) auto
  have j: "jsonable v" using "12.prems" by (simp add: json_value_jsonable)
  show ?case
  proof (cases "ps = []")
    case True
    with 12 m j show ?thesis by (simp add: quote_def pstr_quote)
  next
    case False
    with 12 m j show ?thesis by (simp add: join_Cons members_Nil quote_def pstr_quote)
  qed
next
  case (5 s)
  then obtain m where "n = Suc m" by (cases n) (auto simp: quote_def)
  then show ?case by (simp add: quote_def pstr_quote)
next
  case (4 i)
  then obtain m where "n = Suc m" by (cases n) (auto simp: int_str_def split: if_splits)
  then show ?case using 4 pval_int_str [of rest _ i] by (simp del: pval.simps)
next
  case 2
  then obtain m where "n = Suc m" by (cases n) auto
  then show ?case by (simp add: strip_def skip_ws_def is_ws_def)
next
  case (3 b)
  then obtain m where "n = Suc m" by (cases n) (auto split: if_splits)
  then show ?case by (simp add: strip_def skip_ws_def is_ws_def)
qed simp_all

lemma json_parse_render: "json_value v \<Longrightarrow> json_parse (render v) = Inr v"
  using pval_render_aux(1) [of v "Suc (length (render v))" "[]"]
  by (simp add: json_parse_def skip_ws_def)
text \<open>What \<open>JSON.stringify\<close> prints, \<open>JSON.parse\<close> reads back.\<close>

lemma json_roundtrip:
  assumes "json_value v"
  shows "json_stringify v = JStr (render v) \<and> json_parse (render v) = Inr v"
  using assms by (simp add: json_stringify_def json_value_jsonable json_parse_render)

end
