(* ===== verification/Messages.thy ===== *)
theory Messages
  imports JsValue
begin

text \<open>
  The vocabulary of the agents: the three constant tables of
  \<open>app/shared/radigost/constants\<close>, agent identifiers (\<open>aid.service.js\<close>), ACL messages
  (\<open>acl-message.service.js\<close>) and observers (\<open>agent-observer.service.js\<close>). The
  performatives the server accepts (\<open>interaction/Performative.java\<close>) are listed beside
  the client's table.
\<close>

section \<open>Constants\<close>

definition aclPerformative :: "(string \<times> string) list" where
  "aclPerformative =
    [(''ACCEPT_PROPOSALL'', ''ACCEPT_PROPOSAL''),
     (''AGREE'', ''AGREE''),
     (''CANCEL'', ''CANCEL''),
     (''CFP'', ''CFP''),
     (''CONFIRM'', ''CONFIRM''),
     (''DISCONFIRM'', ''DISCONFIRM''),
     (''FAILURE'', ''FAILURE''),
     (''INFORM'', ''INFORM''),
     (''INFORM_IF'', ''INFORM_IF''),
     (''INFORM_REF'', ''INFORM_REF''),
     (''NOT_UNDERSTOOD'', ''NOT_UNDERSTOOD''),
     (''PROPOSE'', ''PROPOSE''),
     (''QUERY_IF'', ''QUERY_IF''),
     (''QUERY_REF'', ''QUERY_REF''),
     (''REFUSE'', ''REFUSE''),
     (''REJECT_PROPOSAL'', ''REJECT_PROPOSAL''),
     (''REQUEST'', ''REQUEST''),
     (''REQUEST_WHEN'', ''REQUEST_WHEN''),
     (''REQUEST_WHENEVER'', ''REQUEST_WHENEVER''),
     (''SUBSCRIBE'', ''SUBSCRIBE''),
     (''PROXY'', ''PROXY''),
     (''PROPAGATE'', ''PROPAGATE''),
     (''UNKNOWN'', ''UNKNOWN'')]"

text \<open>Reading \<open>aclPerformative.K\<close>; a missing name is undefined.\<close>

definition performative :: "string \<Rightarrow> js" where
  "performative k = (case map_of aclPerformative k of None \<Rightarrow> JUndef | Some v \<Rightarrow> JStr v)"

definition Performative :: "string list" where
  "Performative =
    [''ACCEPT_PROPOSAL'', ''AGREE'', ''CANCEL'', ''CALL_FOR_PROPOSAL'', ''CONFIRM'',
     ''DISCONFIRM'', ''FAILURE'', ''INFORM'', ''INFORM_IF'', ''INFORM_REF'',
     ''NOT_UNDERSTOOD'', ''PROPAGATE'', ''PROPOSE'', ''PROXY'', ''QUERY_IF'', ''QUERY_REF'',
     ''REFUSE'', ''REJECT_PROPOSAL'', ''REQUEST'', ''REQUEST_WHEN'', ''REQUEST_WHENEVER'',
     ''SUBSCRIBE'']"

text \<open>\<open>opCode\<close>: what a worker tells the page, and the page a worker.\<close>

definition op_INIT :: js where
  "op_INIT = JNum 1"

definition op_STEP :: js where
  "op_STEP = JNum 2"

definition op_MOVE_TO_SERVER :: js where
  "op_MOVE_TO_SERVER = JNum 3"

lemmas op_defs = op_INIT_def op_STEP_def op_MOVE_TO_SERVER_def

text \<open>\<open>webClientOpCode\<close>: the first letter of a text sent to the server's web socket.\<close>

definition ws_REGISTER :: string where
  "ws_REGISTER = ''r''"

definition ws_DEREGISTER :: string where
  "ws_DEREGISTER = ''d''"

definition ws_NEW_AGENT :: string where
  "ws_NEW_AGENT = ''a''"

section \<open>Agent identifiers and messages\<close>

definition createAid :: "js \<Rightarrow> js \<Rightarrow> js" where
  "createAid name host = JObj
    [(''name'', name),
     (''host'', host),
     (''radigost'', JBool True),
     (''str'', JStr (to_str name @ ''@'' @ to_str host))]"

definition createACLMessage :: "js \<Rightarrow> js" where
  "createACLMessage perf = JObj
    [(''performative'', perf),
     (''receivers'', JArr [])]"

section \<open>Observers\<close>

text \<open>
  A callback slot of an observer: undefined or null, the empty function that
  \<open>createAgentObserver\<close> fills in, or a function of the caller, named by a value of \<open>'cb\<close>.
\<close>

datatype 'cb callback = CbUndef | CbNull | CbNoop | CbFn 'cb

record 'cb observer =
  onStep :: "'cb callback"
  onStart :: "'cb callback"
  onStop :: "'cb callback"

definition cb_given :: "'cb callback \<Rightarrow> bool" where
  "cb_given c = (case c of CbUndef \<Rightarrow> False | CbNull \<Rightarrow> False | _ \<Rightarrow> True)"

definition createAgentObserver ::
  "'cb callback \<Rightarrow> 'cb callback \<Rightarrow> 'cb callback \<Rightarrow> 'cb observer" where
  "createAgentObserver step start stop =
    (let ob = \<lparr>onStep = step, onStart = start, onStop = stop\<rparr>;
         ob = (if \<not> cb_given start then ob\<lparr>onStart := CbNoop\<rparr> else ob)
     in if \<not> cb_given stop then ob\<lparr>onStop := CbNoop\<rparr> else ob)"

section \<open>Lemmas\<close>

lemma performative_keys_distinct: "distinct (map fst aclPerformative)"
  by (simp add: aclPerformative_def)

lemma createAid_str [simp]:
  "js_get (createAid n h) ''str'' = Inr (JStr (to_str n @ ''@'' @ to_str h))"
  by (simp add: createAid_def)

lemma createAid_radigost [simp]: "js_get (createAid n h) ''radigost'' = Inr (JBool True)"
  by (simp add: createAid_def)

lemma createAid_cloneable [simp]: "cloneable (createAid n h) = (cloneable n \<and> cloneable h)"
  by (simp add: createAid_def)

text \<open>
  Two identifiers of the same host are told apart by their text exactly when the names'
  texts differ, so a platform's table of agents never mixes two names up.
\<close>

lemma createAid_str_inj:
  "js_get (createAid n h) ''str'' = js_get (createAid n' h) ''str'' \<longleftrightarrow> to_str n = to_str n'"
  by simp

lemma observer_start_callable: "cb_given (onStart (createAgentObserver a b c))"
  by (auto simp: createAgentObserver_def cb_given_def Let_def split: callback.splits)

lemma observer_stop_callable: "cb_given (onStop (createAgentObserver a b c))"
  by (auto simp: createAgentObserver_def cb_given_def Let_def split: callback.splits)

lemma observer_step_kept: "onStep (createAgentObserver a b c) = a"
  by (simp add: createAgentObserver_def Let_def)

text \<open>
  The client's table against the server's enumeration: two values no server class
  accepts, one performative of the server the client cannot name, and one key that differs
  from its value.
\<close>

lemma performatives_unknown_to_server:
  "filter (\<lambda>v. v \<notin> set Performative) (map snd aclPerformative) = [''CFP'', ''UNKNOWN'']"
  by (simp add: aclPerformative_def Performative_def)

lemma performatives_not_named:
  "filter (\<lambda>v. v \<notin> snd ` set aclPerformative) Performative = [''CALL_FOR_PROPOSAL'']"
  by (simp add: aclPerformative_def Performative_def)

lemma performative_misspelt:
  "filter (\<lambda>p. fst p \<noteq> snd p) aclPerformative = [(''ACCEPT_PROPOSALL'', ''ACCEPT_PROPOSAL'')]"
  by (simp add: aclPerformative_def)

end
