(* ===== verification/Xjaf.thy ===== *)
theory Xjaf
  imports Json Messages
begin

text \<open>
  The client's access to the server, \<open>app/shared/radigost/xjaf.service.js\<close>. Each operation
  builds one HTTP request; \<open>$http\<close> (a service of Angular) sends it, so an operation is
  modelled by the request it hands over, or the error it throws while building it. The
  service also keeps the list of running agents that the console and the agent runner
  show, filled once from the answer to \<open>getRunning\<close>.
\<close>

record http_request =
  verb :: string
  target :: string
  content_type :: "string option"
  body :: "js option"

definition agentManagerUrl :: string where
  "agentManagerUrl = ''/siebog/rest/agents''"

definition messageManagerUrl :: string where
  "messageManagerUrl = ''/siebog/rest/messages''"

definition webclientUrl :: string where
  "webclientUrl = ''/siebog/rest/webclient''"

definition form_type :: string where
  "form_type = ''application/x-www-form-urlencoded''"

section \<open>Operations\<close>

definition http_get :: "string \<Rightarrow> http_request" where
  "http_get url = \<lparr>verb = ''GET'', target = url, content_type = None, body = None\<rparr>"

definition getAgentClasses :: http_request where
  "getAgentClasses = http_get (agentManagerUrl @ ''/classes'')"

definition getRunning :: http_request where
  "getRunning = http_get (agentManagerUrl @ ''/running'')"

definition getPerformatives :: http_request where
  "getPerformatives = http_get messageManagerUrl"

text \<open>
  \<open>startAgent(agent, initArgs)\<close>: the class of the agent goes into the address, so an agent
  without \<open>agClass\<close> throws before anything is sent.
\<close>

definition startAgent :: "js \<Rightarrow> js \<Rightarrow> js_error + http_request" where
  "startAgent agent initArgs =
    (case js_get agent ''agClass'' of
       Inl e \<Rightarrow> Inl e
     | Inr c \<Rightarrow>
        (case js_get c ''module'' of
           Inl e \<Rightarrow> Inl e
         | Inr m \<Rightarrow>
            (case js_get c ''ejbName'' of
               Inl e \<Rightarrow> Inl e
             | Inr ejb \<Rightarrow>
                (case js_get agent ''name'' of
                   Inl e \<Rightarrow> Inl e
                 | Inr n \<Rightarrow> Inr
                    \<lparr>verb = ''PUT'',
                     target = agentManagerUrl @ ''/running/'' @ to_str m @ ''$'' @ to_str ejb
                       @ ''/'' @ to_str n,
                     content_type = Some form_type,
                     body = Some (if initArgs = JUndef then JObj [] else initArgs)\<rparr>))))"

definition sendMessage :: "js \<Rightarrow> http_request" where
  "sendMessage request =
    \<lparr>verb = ''POST'', target = messageManagerUrl, content_type = Some form_type,
     body = Some (JStr (''acl='' @ to_str (json_stringify request)))\<rparr>"

definition accept :: "js \<Rightarrow> js \<Rightarrow> js \<Rightarrow> http_request" where
  "accept url aid state =
    \<lparr>verb = ''PUT'', target = webclientUrl,
     content_type = Some (form_type @ ''; charset=UTF-8''),
     body = Some (JStr (''url='' @ to_str url @ ''&aid='' @ to_str (json_stringify aid)
       @ ''&state='' @ to_str state))\<rparr>"

text \<open>
  The public operations of the service object, by name. Calling any other name is a
  \<open>TypeError\<close>: this is what \<open>radigost.post\<close> runs into with \<open>xjaf.post\<close>.
\<close>

definition xjaf_operations :: "string list" where
  "xjaf_operations =
    [''getAgentClasses'', ''getRunning'', ''startAgent'', ''getPerformatives'', ''sendMessage'',
     ''accept'']"

section \<open>The list of running agents\<close>

text \<open>Loose comparison \<open>v == ''\<close>: false, 0, and an array that prints as nothing equal it.\<close>

definition loosely_empty :: "js \<Rightarrow> bool" where
  "loosely_empty v =
    (case v of
       JStr s \<Rightarrow> s = []
     | JNum n \<Rightarrow> n = 0
     | JBool b \<Rightarrow> \<not> b
     | JArr xs \<Rightarrow> to_str v = []
     | JFun src \<Rightarrow> src = []
     | _ \<Rightarrow> False)"

text \<open>The answer to \<open>getRunning\<close> replaces the list; an empty answer empties it.\<close>

definition running_response :: "js \<Rightarrow> js" where
  "running_response data = (if \<not> loosely_empty data then data else JArr [])"

section \<open>Lemmas\<close>

lemma running_response_list: "\<exists>ys. running_response (JArr xs) = JArr ys"
  by (simp add: running_response_def)

lemma running_response_kept: "to_str (JArr xs) \<noteq> [] \<Longrightarrow> running_response (JArr xs) = JArr xs"
  by (simp add: running_response_def loosely_empty_def)

text \<open>
  The answer is a list of objects (or empty): then nothing is lost, since an object never
  prints as nothing.
\<close>

lemma running_response_objects:
  assumes "\<forall>x \<in> set xs. \<exists>ps. x = JObj ps"
  shows "running_response (JArr xs) = JArr xs"
proof (cases xs)
  case Nil
  then show ?thesis by (simp add: running_response_def)
next
  case (Cons x ys)
  with assms obtain ps where "x = JObj ps" by auto
  with Cons have "to_str (JArr xs) \<noteq> []" by (cases ys) auto
  then show ?thesis by (rule running_response_kept)
qed

text \<open>The fields of a form body: the text up to each ampersand.\<close>

fun form_fields :: "string \<Rightarrow> string list" where
  "form_fields [] = [[]]"
| "form_fields (c # cs) =
    (if c = CHR ''&'' then [] # form_fields cs
     else (case form_fields cs of [] \<Rightarrow> [[c]] | f # fs \<Rightarrow> (c # f) # fs))"

lemma form_fields_nonempty [simp]: "form_fields s \<noteq> []"
  by (cases s) (auto split: list.splits)

lemma length_form_fields: "length (form_fields s) = Suc (count_list s (CHR ''&''))"
  by (induction s) (auto split: list.splits)

lemma form_fields_single: "CHR ''&'' \<notin> set s \<Longrightarrow> form_fields s = [s]"
  by (induction s) auto

lemma form_fields_amp:
  "CHR ''&'' \<notin> set s \<Longrightarrow> form_fields (s @ CHR ''&'' # t) = s # form_fields t"
  by (induction s) auto

end
