(* ===== verification/Interfaces.thy ===== *)
theory Interfaces
  imports Prelude
begin

text \<open>
  The contracts between components, as locales: a keyed store (what the platform relies on
  for its table of agents, and what Angular's hash map and caches promise), a codec (what
  every text boundary relies on), and a transition system with an invariant (how the
  reachable states of the platform, a page and a scope tree are reasoned about).
\<close>

section \<open>Keyed stores\<close>

locale keyed_store =
  fixes empty_store :: 's
    and put :: "'k \<Rightarrow> 'v \<Rightarrow> 's \<Rightarrow> 's"
    and get :: "'s \<Rightarrow> 'k \<Rightarrow> 'v option"
    and ok :: "'s \<Rightarrow> bool"
  assumes ok_empty: "ok empty_store"
    and ok_put: "ok s \<Longrightarrow> ok (put k v s)"
    and get_empty: "get empty_store k = None"
    and get_put: "ok s \<Longrightarrow> get (put k v s) j = (if j = k then Some v else get s j)"
begin

lemma get_put_same: "ok s \<Longrightarrow> get (put k v s) k = Some v"
  by (simp add: get_put)

lemma get_put_frame: "ok s \<Longrightarrow> j \<noteq> k \<Longrightarrow> get (put k v s) j = get s j"
  by (simp add: get_put)

lemma ok_puts: "ok s \<Longrightarrow> ok (fold (\<lambda>(k, v). put k v) kvs s)"
  by (induction kvs arbitrary: s) (auto simp: ok_put)

text \<open>After a run of insertions a key has the value it was given last.\<close>

lemma get_puts:
  "ok s \<Longrightarrow> get (fold (\<lambda>(k, v). put k v) kvs s) j =
     (case map_of (rev kvs) j of Some v \<Rightarrow> Some v | None \<Rightarrow> get s j)"
proof (induction kvs arbitrary: s)
  case (Cons p kvs)
  obtain k v where p: "p = (k, v)" by (cases p)
  from Cons.prems have "ok (put k v s)" by (rule ok_put)
  then show ?case
    using Cons.prems p by (simp add: Cons.IH get_put map_add_def split: option.splits)
qed simp

end

text \<open>A store entries can be removed from.\<close>

locale removable_store = keyed_store +
  fixes del :: "'b \<Rightarrow> 'a \<Rightarrow> 'a"
  assumes ok_del: "ok s \<Longrightarrow> ok (del k s)"
    and get_del: "ok s \<Longrightarrow> get (del k s) j = (if j = k then None else get s j)"
begin

lemma del_put_gone: "ok s \<Longrightarrow> get (del k (put k v s)) j = (if j = k then None else get s j)"
  by (simp add: get_del get_put ok_put)

lemma put_del_put: "ok s \<Longrightarrow> get (put k v (del k s)) j = get (put k v s) j"
  by (simp add: get_del get_put ok_del)

end

section \<open>Codecs\<close>

locale codec =
  fixes encode :: "'v \<Rightarrow> 't"
    and decode :: "'t \<Rightarrow> 'e + 'v"
    and encodable :: "'v \<Rightarrow> bool"
  assumes decode_encode: "encodable v \<Longrightarrow> decode (encode v) = Inr v"
begin

lemma encode_inj: "encodable v \<Longrightarrow> encodable w \<Longrightarrow> encode v = encode w \<Longrightarrow> v = w"
  by (metis decode_encode sum.inject(2))

end

section \<open>Transition systems with an invariant\<close>

inductive reachable :: "('s \<Rightarrow> bool) \<Rightarrow> ('s \<Rightarrow> 's \<Rightarrow> bool) \<Rightarrow> 's \<Rightarrow> bool"
  for init :: "'s \<Rightarrow> bool" and step :: "'s \<Rightarrow> 's \<Rightarrow> bool" where
  reachable_init: "init s \<Longrightarrow> reachable init step s"
| reachable_step: "reachable init step s \<Longrightarrow> step s t \<Longrightarrow> reachable init step t"

locale invariant_system =
  fixes init :: "'s \<Rightarrow> bool"
    and step :: "'s \<Rightarrow> 's \<Rightarrow> bool"
    and inv :: "'s \<Rightarrow> bool"
  assumes inv_init: "init s \<Longrightarrow> inv s"
    and inv_step: "inv s \<Longrightarrow> step s t \<Longrightarrow> inv t"
begin

lemma reachable_inv: "reachable init step s \<Longrightarrow> inv s"
  by (induction rule: reachable.induct) (auto intro: inv_init inv_step)

end

section \<open>Association lists are keyed stores\<close>

interpretation alist_store: removable_store
  "[]" aput map_of "\<lambda>ps. distinct (akeys ps)" adel
  by unfold_locales auto

end
