(* ===== verification/Radigost.thy ===== *)
theory Radigost
  imports Xjaf Interfaces
begin

text \<open>
  The agent platform of a page, \<open>app/shared/radigost/radigost.service.js\<close>: it starts an
  agent in a web worker of its own, keeps the table of running agents by identifier, and
  routes messages between agents of the page, agents on the server and the server's web
  socket. The state is the platform object together with what the browser has recorded of
  its effects: the workers created, the messages posted to them, the requests, the texts
  sent to the socket, the observers' callbacks and the console.
\<close>

datatype 'cb observer_slot = ObsUndef | ObsNull | Obs "'cb observer"

record 'cb running_agent =
  ag_url :: js
  ag_observer :: "'cb observer_slot"
  ag_worker :: "nat option"

record 'cb radigost =
  rhost :: js
  running :: "(string \<times> 'cb running_agent) list"
  autoCreateStubs :: js
  workers :: "js list"
  posted :: "(nat \<times> js) list"
  requests :: "http_request list"
  ws_sent :: "string list"
  calls :: "('cb \<times> js list) list"
  console :: "string list"

definition createRadigost :: "js \<Rightarrow> js \<Rightarrow> 'cb radigost" where
  "createRadigost host autoStubs =
    \<lparr>rhost = host, running = [], autoCreateStubs = autoStubs, workers = [], posted = [],
     requests = [], ws_sent = [], calls = [], console = []\<rparr>"

section \<open>Effects on the browser\<close>

definition newWorker :: "js \<Rightarrow> ('cb radigost, nat) comp" where
  "newWorker url s = (Inr (length (workers s)), s\<lparr>workers := workers s @ [url]\<rparr>)"

definition postMessage :: "nat \<Rightarrow> js \<Rightarrow> ('cb radigost, unit) comp" where
  "postMessage w m = bindM (liftE (clone m)) (\<lambda>c. modS (\<lambda>s. s\<lparr>posted := posted s @ [(w, c)]\<rparr>))"

definition send_request :: "js_error + http_request \<Rightarrow> ('cb radigost, unit) comp" where
  "send_request r = bindM (liftE r) (\<lambda>q. modS (\<lambda>s. s\<lparr>requests := requests s @ [q]\<rparr>))"

definition call_callback :: "'cb callback \<Rightarrow> js list \<Rightarrow> ('cb radigost, unit) comp" where
  "call_callback c args =
    (case c of
       CbUndef \<Rightarrow> throw (TypeError ''callback'')
     | CbNull \<Rightarrow> throw (TypeError ''callback'')
     | CbNoop \<Rightarrow> ret ()
     | CbFn f \<Rightarrow> modS (\<lambda>s. s\<lparr>calls := calls s @ [(f, args)]\<rparr>))"

section \<open>The table of running agents\<close>

definition getAgent :: "js \<Rightarrow> ('cb radigost, 'cb running_agent option) comp" where
  "getAgent aid = bindM (liftE (js_get aid ''str''))
    (\<lambda>k. getS (\<lambda>s. map_of (running s) (to_str k)))"

definition putAgent :: "js \<Rightarrow> 'cb running_agent \<Rightarrow> ('cb radigost, unit) comp" where
  "putAgent aid agent = bindM (liftE (js_get aid ''str''))
    (\<lambda>k. modS (\<lambda>s. s\<lparr>running := aput (to_str k) agent (running s)\<rparr>))"

section \<open>Starting an agent\<close>

definition init_message :: "js \<Rightarrow> js \<Rightarrow> js" where
  "init_message aid args = JObj [(''opcode'', op_INIT), (''aid'', aid), (''args'', args)]"

definition stub_agent :: "js \<Rightarrow> js \<Rightarrow> js" where
  "stub_agent name host = JObj
    [(''agClass'', JObj
       [(''ejbName'', JStr ''RadigostStub''),
        (''module'', JStr ''siebog''),
        (''path'', JStr ''/siebog/agents/xjaf'')]),
     (''name'', name),
     (''host'', host)]"

definition start ::
  "js \<Rightarrow> js \<Rightarrow> 'cb observer_slot \<Rightarrow> js \<Rightarrow> js \<Rightarrow> ('cb radigost, js) comp" where
  "start url name agentObserver agentInitArgs recreate =
    bindM (getS rhost) (\<lambda>host.
    let newAid = createAid name host in
    bindM (newWorker url) (\<lambda>w.
    seqM (putAgent newAid \<lparr>ag_url = url, ag_observer = agentObserver, ag_worker = Some w\<rparr>)
    (seqM (postMessage w (init_message newAid agentInitArgs))
    (seqM (bindM (getS autoCreateStubs) (\<lambda>auto.
             if truthy auto \<and> \<not> truthy recreate
             then send_request (startAgent (stub_agent name host) JUndef)
             else ret ()))
    (ret newAid)))))"

section \<open>Routing\<close>

definition deliver :: "'cb running_agent option \<Rightarrow> js \<Rightarrow> ('cb radigost, unit) comp" where
  "deliver agent message =
    (case agent of
       None \<Rightarrow> ret ()
     | Some a \<Rightarrow> (case ag_worker a of None \<Rightarrow> ret () | Some w \<Rightarrow> postMessage w message))"

definition receivers_of :: "js \<Rightarrow> js_error + js list" where
  "receivers_of message =
    (case js_get message ''receivers'' of Inl e \<Rightarrow> Inl e | Inr r \<Rightarrow> js_items r)"

definition postToServer :: "js \<Rightarrow> ('cb radigost, unit) comp" where
  "postToServer message = send_request (Inr (sendMessage message))"

definition postToClient :: "js \<Rightarrow> ('cb radigost, unit) comp" where
  "postToClient message = bindM (liftE (receivers_of message))
    (\<lambda>rs. forM rs (\<lambda>r. bindM (getAgent r) (\<lambda>agent. deliver agent message)))"

text \<open>
  The loop of \<open>post\<close>: a receiver whose \<open>radigost\<close> flag is set is served on the page, any
  other goes to the list returned.
\<close>

fun post_loop :: "js \<Rightarrow> js list \<Rightarrow> js list \<Rightarrow> ('cb radigost, js list) comp" where
  "post_loop message [] server = ret server"
| "post_loop message (aid # rs) server =
    bindM (liftE (js_get aid ''radigost'')) (\<lambda>flag.
      if truthy flag then
        bindM (getAgent aid) (\<lambda>agent.
          seqM (deliver agent message) (post_loop message rs server))
      else post_loop message rs (server @ [aid]))"

text \<open>\<open>xjaf.post(message)\<close>: a call of a name the service does not define.\<close>

definition xjaf_post :: "js \<Rightarrow> ('cb radigost, unit) comp" where
  "xjaf_post message =
    (if ''post'' \<in> set xjaf_operations then send_request (Inr (sendMessage message))
     else throw (TypeError ''xjaf.post''))"

text \<open>
  \<open>post(message)\<close>. The result is what it returned or threw, the message object afterwards
  (its \<open>receivers\<close> are overwritten before the server is called), and the platform.
\<close>

definition post :: "js \<Rightarrow> 'cb radigost \<Rightarrow> (js_error + unit) \<times> js \<times> 'cb radigost" where
  "post message s =
    (case receivers_of message of
       Inl e \<Rightarrow> (Inl e, message, s)
     | Inr rs \<Rightarrow>
        (case post_loop message rs [] s of
           (Inl e, t) \<Rightarrow> (Inl e, message, t)
         | (Inr server, t) \<Rightarrow>
            (if server \<noteq> [] then
               (case js_set message ''receivers'' (JArr server) of
                  Inl e \<Rightarrow> (Inl e, message, t)
                | Inr message' \<Rightarrow>
                    (case xjaf_post message' t of (r, u) \<Rightarrow> (r, message', u)))
             else (Inr (), message, t))))"

definition post_comp :: "js \<Rightarrow> ('cb radigost, unit) comp" where
  "post_comp message s = (case post message s of (r, _, t) \<Rightarrow> (r, t))"

section \<open>Messages from the workers\<close>

definition observer_call ::
  "('cb observer \<Rightarrow> 'cb callback) \<Rightarrow> 'cb running_agent option \<Rightarrow> js list
    \<Rightarrow> ('cb radigost, unit) comp" where
  "observer_call slot agent args =
    (case agent of
       None \<Rightarrow> ret ()
     | Some a \<Rightarrow>
        (case ag_observer a of
           ObsNull \<Rightarrow> ret ()
         | ObsUndef \<Rightarrow> throw (TypeError ''observer'')
         | Obs ob \<Rightarrow> call_callback (slot ob) args))"

definition onWorkerMessage :: "js \<Rightarrow> ('cb radigost, unit) comp" where
  "onWorkerMessage msg =
    bindM (liftE (js_get msg ''opcode'')) (\<lambda>opcode.
      if opcode = JUndef then post_comp msg
      else if strict_eq opcode op_INIT then
        bindM (liftE (js_get msg ''aid'')) (\<lambda>aid.
        bindM (getAgent aid) (\<lambda>ag. observer_call onStart ag [aid]))
      else if strict_eq opcode op_STEP then
        bindM (liftE (js_get msg ''aid'')) (\<lambda>aid.
        bindM (getAgent aid) (\<lambda>ag.
        bindM (liftE (js_get msg ''info'')) (\<lambda>info. observer_call onStep ag [aid, info])))
      else if strict_eq opcode op_MOVE_TO_SERVER then
        bindM (liftE (js_get msg ''aid'')) (\<lambda>aid.
        bindM (getAgent aid) (\<lambda>ag.
          case ag of
            None \<Rightarrow> ret ()
          | Some a \<Rightarrow>
              if ag_url a \<noteq> JNull then
                bindM (liftE (js_get msg ''state'')) (\<lambda>state.
                  send_request (Inr (accept (ag_url a) aid state)))
              else ret ()))
      else throw (ErrorMsg (''Unrecognized OpCode: '' @ to_str (json_stringify msg))))"

section \<open>The web socket\<close>

text \<open>A field that arrived as text is replaced by the value the text denotes.\<close>

definition decode_text :: "js \<Rightarrow> js_error + js" where
  "decode_text v = (case v of JStr t \<Rightarrow> json_parse t | _ \<Rightarrow> Inr v)"

definition decode_field :: "string \<Rightarrow> js \<Rightarrow> js_error + js" where
  "decode_field k msg =
    (case js_get msg k of
       Inl e \<Rightarrow> Inl e
     | Inr (JStr t) \<Rightarrow> (case json_parse t of Inl e \<Rightarrow> Inl e | Inr v \<Rightarrow> js_set msg k v)
     | Inr _ \<Rightarrow> Inr msg)"

fun decode_list :: "js list \<Rightarrow> js_error + js list" where
  "decode_list [] = Inr []"
| "decode_list (x # xs) =
    (case decode_text x of
       Inl e \<Rightarrow> Inl e
     | Inr y \<Rightarrow> (case decode_list xs of Inl e \<Rightarrow> Inl e | Inr ys \<Rightarrow> Inr (y # ys)))"

text \<open>
  The loop over \<open>msg.receivers\<close>. A text there fails: its first character is no identifier,
  or cannot be assigned. Any other non-array is left alone (an array-like object, which no
  sender produces, is not decoded in the model).
\<close>

definition decode_receivers :: "js \<Rightarrow> js_error + js" where
  "decode_receivers msg =
    (case js_get msg ''receivers'' of
       Inl e \<Rightarrow> Inl e
     | Inr (JArr xs) \<Rightarrow>
        (case decode_list xs of Inl e \<Rightarrow> Inl e | Inr ys \<Rightarrow> js_set msg ''receivers'' (JArr ys))
     | Inr (JStr t) \<Rightarrow>
        (case t of
           [] \<Rightarrow> Inr msg
         | c # _ \<Rightarrow> (case json_parse [c] of Inl e \<Rightarrow> Inl e | Inr _ \<Rightarrow> Inl (TypeError ''0'')))
     | Inr JUndef \<Rightarrow> Inl (TypeError ''length'')
     | Inr JNull \<Rightarrow> Inl (TypeError ''length'')
     | Inr _ \<Rightarrow> Inr msg)"

definition socket_onMessage :: "string \<Rightarrow> ('cb radigost, unit) comp" where
  "socket_onMessage text_in =
    bindM (liftE (json_parse text_in)) (\<lambda>m0.
    bindM (liftE (decode_field ''sender'' m0)) (\<lambda>m1.
    bindM (liftE (decode_field ''replyTo'' m1)) (\<lambda>m2.
    bindM (liftE (decode_receivers m2)) (\<lambda>msg.
    postToClient msg))))"

definition socket_onOpen :: "('cb radigost, unit) comp" where
  "socket_onOpen =
    bindM (getS rhost) (\<lambda>h. modS (\<lambda>s. s\<lparr>ws_sent := ws_sent s @ [ws_REGISTER @ to_str h]\<rparr>))"

definition socket_onClose :: "('cb radigost, unit) comp" where
  "socket_onClose = modS (\<lambda>s. s\<lparr>console := console s @ [''WebSocket connection closed.'']\<rparr>)"

definition socket_onError :: "js \<Rightarrow> ('cb radigost, unit) comp" where
  "socket_onError e =
    bindM (liftE (js_get e ''data'')) (\<lambda>d.
      modS (\<lambda>s. s\<lparr>console := console s @ [''WebSocket connection error: '' @ to_str d]\<rparr>))"

end
