(* ===== verification/RadigostProps.thy ===== *)
theory RadigostProps
  imports Radigost
begin

text \<open>
  What the platform of \<open>Radigost\<close> guarantees: the table and the workers stay consistent
  under every operation, every worker is initialised before it is sent anything else, and
  the routing functions deliver exactly to the addressed agents.
\<close>

section \<open>The operations a page can trigger\<close>

datatype 'cb api =
    Start js js "'cb observer_slot" js js
  | Post js
  | PostToServer js
  | PostToClient js
  | WorkerMsg js
  | SocketMsg string
  | SocketOpen
  | SocketClose
  | SocketError js

fun api_call :: "'cb api \<Rightarrow> ('cb radigost, unit) comp" where
  "api_call (Start url name ob args recreate) =
     bindM (start url name ob args recreate) (\<lambda>_. ret ())"
| "api_call (Post m) = post_comp m"
| "api_call (PostToServer m) = postToServer m"
| "api_call (PostToClient m) = postToClient m"
| "api_call (WorkerMsg m) = onWorkerMessage m"
| "api_call (SocketMsg t) = socket_onMessage t"
| "api_call SocketOpen = socket_onOpen"
| "api_call SocketClose = socket_onClose"
| "api_call (SocketError e) = socket_onError e"

definition api_step :: "'cb api \<Rightarrow> 'cb radigost \<Rightarrow> 'cb radigost" where
  "api_step e s = snd (api_call e s)"

text \<open>
  The arguments \<open>start\<close> posts to the worker can be cloned. Without this \<open>start\<close> throws
  after it has entered the agent into the table.
\<close>

fun proper :: "'cb api \<Rightarrow> bool" where
  "proper (Start url name ob args recreate) = (cloneable name \<and> cloneable args)"
| "proper _ = True"

section \<open>The invariant\<close>

definition table_ok :: "'cb radigost \<Rightarrow> bool" where
  "table_ok s \<longleftrightarrow> distinct (akeys (running s)) \<and>
     (\<forall>p \<in> set (running s). \<exists>w. ag_worker (snd p) = Some w \<and> w < length (workers s))"

definition queues_ok :: "'cb radigost \<Rightarrow> bool" where
  "queues_ok s \<longleftrightarrow> (\<forall>p \<in> set (posted s). fst p < length (workers s))"

definition init_first :: "'cb radigost \<Rightarrow> bool" where
  "init_first s \<longleftrightarrow>
     (\<forall>w < length (workers s). \<exists>name args rest.
        sent_to w (posted s) = init_message (createAid name (rhost s)) args # rest)"

definition platform_inv :: "'cb radigost \<Rightarrow> bool" where
  "platform_inv s \<longleftrightarrow> cloneable (rhost s) \<and> table_ok s \<and> queues_ok s \<and> init_first s"

lemma platform_inv_frame:
  assumes "platform_inv s" "rhost t = rhost s" "running t = running s" "workers t = workers s"
    "posted t = posted s"
  shows "platform_inv t"
  using assms by (simp add: platform_inv_def table_ok_def queues_ok_def init_first_def)

lemma platform_inv_createRadigost: "cloneable host \<Longrightarrow> platform_inv (createRadigost host auto)"
  by (simp add: platform_inv_def table_ok_def queues_ok_def init_first_def createRadigost_def)

lemma postMessage_cases:
  "postMessage w m s =
     (if cloneable m then (Inr (), s\<lparr>posted := posted s @ [(w, m)]\<rparr>) else (Inl DataCloneError, s))"
  by (simp add: postMessage_def clone_def comp_simps)

lemma inv_postMessage:
  assumes "platform_inv s" "w < length (workers s)"
  shows "platform_inv (snd (postMessage w m s))"
proof -
  have "\<exists>name args rest. sent_to v (posted s @ [(w, m)])
      = init_message (createAid name (rhost s)) args # rest" if "v < length (workers s)" for v
    using assms that by (fastforce simp: platform_inv_def init_first_def)
  with assms show ?thesis
    by (auto simp: postMessage_cases platform_inv_def table_ok_def queues_ok_def init_first_def)
qed

lemma getAgent_cases:
  "getAgent r s = (case js_get r ''str'' of
     Inl e \<Rightarrow> (Inl e, s) | Inr k \<Rightarrow> (Inr (map_of (running s) (to_str k)), s))"
  by (simp add: getAgent_def comp_simps split: sum.splits)

lemma keeps_getAgent [keeps_rules]: "keeps P (getAgent r)"
  by (rule keepsI) (simp add: getAgent_cases split: sum.splits)

text \<open>The one step whose safety rests on the table: deliver to the agent just looked up.\<close>

lemma keeps_lookup_deliver [keeps_rules]:
  "keeps platform_inv (bindM (getAgent r) (\<lambda>agent. deliver agent m))"
proof (rule keepsI)
  fix s :: "'a radigost" assume inv: "platform_inv s"
  show "platform_inv (snd (bindM (getAgent r) (\<lambda>agent. deliver agent m) s))"
  proof (cases "js_get r ''str''")
    case (Inl e)
    with inv show ?thesis by (simp add: bindM_def getAgent_cases)
  next
    case (Inr k)
    show ?thesis
    proof (cases "map_of (running s) (to_str k)")
      case None
      with inv Inr show ?thesis by (simp add: bindM_def getAgent_cases deliver_def ret_def)
    next
      case (Some a)
      then have "(to_str k, a) \<in> set (running s)" by (rule map_of_in_set)
      with inv obtain w where "ag_worker a = Some w" "w < length (workers s)"
        by (fastforce simp: platform_inv_def table_ok_def)
      with inv Inr Some inv_postMessage [of s w m] show ?thesis
        by (simp add: bindM_def getAgent_cases deliver_def)
    qed
  qed
qed

lemma keeps_request [keeps_rules]: "keeps platform_inv (send_request r)"
  unfolding send_request_def by (intro keeps_rules keeps_modS) (auto intro: platform_inv_frame)

lemma keeps_callback [keeps_rules]: "keeps platform_inv (call_callback c xs)"
  unfolding call_callback_def
  by (cases c) (auto intro!: keeps_rules keeps_modS intro: platform_inv_frame)

lemma keeps_observer [keeps_rules]: "keeps platform_inv (observer_call slot a xs)"
  unfolding observer_call_def
  by (auto intro!: keeps_rules split: option.split observer_slot.split)

lemma keeps_postToClient [keeps_rules]: "keeps platform_inv (postToClient m)"
  unfolding postToClient_def by (intro keeps_rules)

lemma seqM_assoc_bind:
  "bindM m (\<lambda>x. seqM (f x) n) = seqM (bindM m f) n"
  by (auto simp: comp_simps fun_eq_iff split: prod.splits sum.splits)

lemma keeps_post_loop [keeps_rules]: "keeps platform_inv (post_loop m rs server)"
proof (induction rs arbitrary: server)
  case (Cons r rs)
  note step = keeps_seq [OF keeps_lookup_deliver Cons.IH, folded seqM_assoc_bind]
  show ?case by (auto intro!: keeps_bind [OF keeps_pure(3)] keeps_if step Cons.IH)
qed (simp add: keeps_pure)

lemma keeps_xjaf_post [keeps_rules]: "keeps platform_inv (xjaf_post m)"
  unfolding xjaf_post_def by (intro keeps_rules)

lemma keeps_post_comp [keeps_rules]: "keeps platform_inv (post_comp m)"
proof (rule keepsI)
  fix s :: "'a radigost" assume "platform_inv s"
  then have loop: "platform_inv (snd (post_loop m rs [] s))" for rs
    by (rule keepsD [OF keeps_post_loop])
  have call: "platform_inv (snd (xjaf_post m' t))" if "platform_inv t" for m' and t :: "'a radigost"
    using that by (rule keepsD [OF keeps_xjaf_post])
  show "platform_inv (snd (post_comp m s))"
    using \<open>platform_inv s\<close> loop call
    by (auto simp: post_comp_def post_def split: sum.splits prod.splits) (metis snd_conv)+
qed

lemma keeps_onWorkerMessage [keeps_rules]: "keeps platform_inv (onWorkerMessage m)"
  unfolding onWorkerMessage_def by (intro keeps_rules)

lemma keeps_socket [keeps_rules]:
  "keeps platform_inv (socket_onMessage t)" "keeps platform_inv socket_onOpen"
  "keeps platform_inv socket_onClose" "keeps platform_inv (socket_onError e)"
  unfolding socket_onMessage_def socket_onOpen_def socket_onClose_def socket_onError_def
  by (intro keeps_rules keeps_modS; auto intro: platform_inv_frame)+

section \<open>Starting an agent\<close>

text \<open>What \<open>start\<close> does when its arguments can be cloned, written out.\<close>

definition started :: "js \<Rightarrow> js \<Rightarrow> 'cb observer_slot \<Rightarrow> js \<Rightarrow> js \<Rightarrow> 'cb radigost \<Rightarrow> 'cb radigost" where
  "started url name ob args recreate s =
    (let w = length (workers s); newAid = createAid name (rhost s) in
     s\<lparr>workers := workers s @ [url],
       running := aput (to_str name @ ''@'' @ to_str (rhost s))
         \<lparr>ag_url = url, ag_observer = ob, ag_worker = Some w\<rparr> (running s),
       posted := posted s @ [(w, init_message newAid args)],
       requests := requests s @
         (if truthy (autoCreateStubs s) \<and> \<not> truthy recreate
          then [\<lparr>verb = ''PUT'',
                 target = ''/siebog/rest/agents/running/siebog$RadigostStub/'' @ to_str name,
                 content_type = Some form_type, body = Some (JObj [])\<rparr>]
          else [])\<rparr>)"

lemma startAgent_stub:
  "startAgent (stub_agent name host) JUndef =
    Inr \<lparr>verb = ''PUT'',
      target = ''/siebog/rest/agents/running/siebog$RadigostStub/'' @ to_str name,
      content_type = Some form_type, body = Some (JObj [])\<rparr>"
  by (simp add: startAgent_def stub_agent_def agentManagerUrl_def)

lemma start_ok:
  assumes "cloneable name" "cloneable args" "cloneable (rhost s)"
  shows "start url name ob args recreate s =
    (Inr (createAid name (rhost s)), started url name ob args recreate s)"
  using assms
  by (auto simp: start_def comp_simps newWorker_def putAgent_def postMessage_cases
      init_message_def op_defs send_request_def startAgent_stub started_def Let_def)

lemma start_uncloneable:
  assumes "\<not> (cloneable name \<and> cloneable args \<and> cloneable (rhost s))"
  shows "start url name ob args recreate s = (Inl DataCloneError,
    s\<lparr>workers := workers s @ [url],
      running := aput (to_str name @ ''@'' @ to_str (rhost s))
         \<lparr>ag_url = url, ag_observer = ob, ag_worker = Some (length (workers s))\<rparr> (running s)\<rparr>)"
  using assms
  by (auto simp: start_def comp_simps newWorker_def putAgent_def postMessage_cases
      init_message_def op_defs Let_def)

lemma set_aput: "p \<in> set (aput k v ps) \<Longrightarrow> p = (k, v) \<or> p \<in> set ps"
  by (induction ps) (auto split: if_splits)

lemma inv_started:
  assumes "platform_inv s"
  shows "platform_inv (started url name ob args recreate s)"
proof -
  let ?w = "length (workers s)"
  have q: "sent_to ?w (posted s) = []"
    using assms by (intro sent_to_empty) (auto simp: platform_inv_def queues_ok_def)
  have "\<exists>n a rest. sent_to v (posted s @ [(?w, init_message (createAid name (rhost s)) args)])
      = init_message (createAid n (rhost s)) a # rest" if "v < Suc ?w" for v
  proof (cases "v = ?w")
    case True
    with q show ?thesis by auto
  next
    case False
    with that assms show ?thesis by (auto simp: platform_inv_def init_first_def)
  qed
  moreover have "table_ok (started url name ob args recreate s)"
    using assms
    by (auto simp: platform_inv_def table_ok_def started_def Let_def less_Suc_eq
        intro: distinct_aput dest!: set_aput)
  ultimately show ?thesis
    using assms
    by (auto simp: platform_inv_def queues_ok_def init_first_def started_def Let_def)
qed

lemma inv_api_step:
  assumes "platform_inv s" "proper e"
  shows "platform_inv (api_step e s)"
proof (cases "\<exists>url name ob args recreate. e = Start url name ob args recreate")
  case True
  with assms show ?thesis
    by (auto simp: api_step_def start_ok bindM_def ret_def inv_started platform_inv_def [of s])
next
  case False
  then have "keeps platform_inv (api_call e)"
    by (cases e) (auto simp: postToServer_def intro!: keeps_rules)
  with assms(1) show ?thesis by (simp add: api_step_def keepsD)
qed

section \<open>Reachable platforms\<close>

definition fresh_platform :: "'cb radigost \<Rightarrow> bool" where
  "fresh_platform s \<longleftrightarrow> (\<exists>host auto. cloneable host \<and> s = createRadigost host auto)"

lemma fresh_createRadigost: "cloneable host \<Longrightarrow> fresh_platform (createRadigost host auto)"
  by (auto simp: fresh_platform_def)

inductive platform_step :: "'cb radigost \<Rightarrow> 'cb radigost \<Rightarrow> bool" where
  "proper e \<Longrightarrow> platform_step s (api_step e s)"

inductive_cases platform_stepE: "platform_step s t"

interpretation platform: invariant_system fresh_platform platform_step platform_inv
  by unfold_locales
    (auto simp: fresh_platform_def intro: platform_inv_createRadigost inv_api_step elim: platform_stepE)


text \<open>
  C1. In every state a page can bring its platform to (by starting agents with cloneable
  arguments, posting, and receiving worker and socket messages in any order), every worker
  the platform created has been sent an INIT message first, with the identifier of an agent
  of this host, before any other message.
\<close>

theorem agents_initialised_first:
  assumes "reachable fresh_platform platform_step s" and "w < length (workers s)"
  shows "\<exists>name args rest.
    sent_to w (posted s) = init_message (createAid name (rhost s)) args # rest"
  using platform.reachable_inv [OF assms(1)] assms(2)
  by (simp add: platform_inv_def init_first_def)

lemma example_platform:
  "reachable fresh_platform platform_step
    (api_step (Start (JStr ''a.js'') (JStr ''A'') ObsNull JNull JUndef)
      (createRadigost (JStr ''h'') JUndef :: nat radigost))"
proof (rule reachable_step)
  show "reachable fresh_platform platform_step (createRadigost (JStr ''h'') JUndef :: nat radigost)"
    by (intro reachable_init fresh_createRadigost) simp
  show "platform_step (createRadigost (JStr ''h'') JUndef :: nat radigost)
    (api_step (Start (JStr ''a.js'') (JStr ''A'') ObsNull JNull JUndef) (createRadigost (JStr ''h'') JUndef))"
    by (rule platform_step.intros) simp
qed

theorem agents_initialised_first_witness:
  "\<exists>name args rest.
    sent_to 0 (posted (api_step (Start (JStr ''a.js'') (JStr ''A'') ObsNull JNull JUndef)
      (createRadigost (JStr ''h'') JUndef :: nat radigost)))
    = init_message (createAid name (rhost (api_step (Start (JStr ''a.js'') (JStr ''A'') ObsNull JNull JUndef)
      (createRadigost (JStr ''h'') JUndef :: nat radigost)))) args # rest"
  by (rule agents_initialised_first [OF example_platform])
    (simp add: api_step_def start_ok createRadigost_def started_def bindM_def ret_def Let_def)

text \<open>
  C7. Starting an agent (with cloneable arguments) returns its identifier; from then on
  that identifier, and only it, leads to the new worker, every other entry of the table is
  unchanged, and the worker's queue holds exactly its INIT message.
\<close>

theorem start_registers:
  assumes inv: "platform_inv s" and args: "cloneable name" "cloneable args"
    and st: "start url name ob args recreate s = (r, t)"
  shows "r = Inr (createAid name (rhost s)) \<and>
    (\<forall>aid. getAgent aid t =
       (case js_get aid ''str'' of
          Inl e \<Rightarrow> (Inl e, t)
        | Inr k \<Rightarrow>
           (Inr (if to_str k = to_str name @ ''@'' @ to_str (rhost s)
                 then Some \<lparr>ag_url = url, ag_observer = ob, ag_worker = Some (length (workers s))\<rparr>
                 else map_of (running s) (to_str k)), t))) \<and>
    sent_to (length (workers s)) (posted t) = [init_message (createAid name (rhost s)) args] \<and>
    (\<forall>w. w \<noteq> length (workers s) \<longrightarrow> sent_to w (posted t) = sent_to w (posted s))"
proof -
  have "cloneable (rhost s)" using inv by (simp add: platform_inv_def)
  with args st have r: "r = Inr (createAid name (rhost s))"
    and t: "t = started url name ob args recreate s"
    by (simp_all add: start_ok)
  have "sent_to (length (workers s)) (posted s) = []"
    using inv by (intro sent_to_empty) (auto simp: platform_inv_def queues_ok_def)
  with r t show ?thesis
    by (auto simp: getAgent_cases started_def Let_def split: sum.splits)
qed

theorem start_registers_witness:
  "fst (start (JStr ''a.js'') (JStr ''A'') ObsNull JNull JUndef
      (createRadigost (JStr ''h'') JUndef :: nat radigost)) = Inr (createAid (JStr ''A'') (JStr ''h''))"
  using start_registers [of "createRadigost (JStr ''h'') JUndef :: nat radigost" "JStr ''A''" JNull
      "JStr ''a.js''" ObsNull JUndef _ _, OF platform_inv_createRadigost _ _ prod.collapse [symmetric]]
  by (simp add: createRadigost_def)

section \<open>Routing\<close>

definition worker_of :: "'cb radigost \<Rightarrow> js \<Rightarrow> nat option" where
  "worker_of s r =
    (case js_get r ''str'' of
       Inl e \<Rightarrow> None
     | Inr k \<Rightarrow> (case map_of (running s) (to_str k) of None \<Rightarrow> None | Some a \<Rightarrow> ag_worker a))"

definition is_object :: "js \<Rightarrow> bool" where
  "is_object r = (case r of JObj _ \<Rightarrow> True | _ \<Rightarrow> False)"

definition on_page :: "js \<Rightarrow> bool" where
  "on_page r = (case js_get r ''radigost'' of Inl e \<Rightarrow> False | Inr v \<Rightarrow> truthy v)"

definition deliveries :: "'cb radigost \<Rightarrow> js \<Rightarrow> js list \<Rightarrow> (nat \<times> js) list" where
  "deliveries s m rs = concat (map (\<lambda>r. case worker_of s r of None \<Rightarrow> [] | Some w \<Rightarrow> [(w, m)]) rs)"

lemma worker_of_posted [simp]: "worker_of (s\<lparr>posted := l\<rparr>) r = worker_of s r"
  by (simp add: worker_of_def split: sum.split)

lemma deliveries_posted [simp]: "deliveries (s\<lparr>posted := l\<rparr>) m rs = deliveries s m rs"
  by (simp add: deliveries_def)

lemma deliveries_simps [simp]:
  "deliveries s m [] = []"
  "deliveries s m (r # rs) =
    (case worker_of s r of None \<Rightarrow> [] | Some w \<Rightarrow> [(w, m)]) @ deliveries s m rs"
  by (simp_all add: deliveries_def)

lemma lookup_deliver:
  assumes "is_object r" "cloneable m"
  shows "bindM (getAgent r) (\<lambda>agent. deliver agent m) s =
    (Inr (), s\<lparr>posted := posted s @ (case worker_of s r of None \<Rightarrow> [] | Some w \<Rightarrow> [(w, m)])\<rparr>)"
  using assms
  by (cases r) (auto simp: is_object_def bindM_def getAgent_cases worker_of_def deliver_def
      ret_def postMessage_cases split: option.splits)

lemma forM_lookup_deliver:
  assumes "\<forall>r \<in> set rs. is_object r" "cloneable m"
  shows "forM rs (\<lambda>r. bindM (getAgent r) (\<lambda>agent. deliver agent m)) s =
    (Inr (), s\<lparr>posted := posted s @ deliveries s m rs\<rparr>)"
  using assms
proof (induction rs arbitrary: s)
  case (Cons r rs)
  then show ?case by (simp add: seqM_def bindM_Inr [OF lookup_deliver])
qed (simp add: ret_def)

lemma post_loop_routes:
  assumes "\<forall>r \<in> set rs. is_object r" "cloneable m"
  shows "post_loop m rs server s =
    (Inr (server @ filter (\<lambda>r. \<not> on_page r) rs),
     s\<lparr>posted := posted s @ deliveries s m (filter on_page rs)\<rparr>)"
  using assms
proof (induction rs arbitrary: s server)
  case (Cons r rs)
  then obtain ps where r: "r = JObj ps" by (auto simp: is_object_def split: js.splits)
  define v where "v = (case map_of ps ''radigost'' of None \<Rightarrow> JUndef | Some v \<Rightarrow> v)"
  have get: "js_get r ''radigost'' = Inr v" by (simp add: r v_def)
  have page: "on_page r = truthy v" by (simp add: on_page_def get)
  have del: "bindM (getAgent r) (\<lambda>agent. deliver agent m) s =
    (Inr (), s\<lparr>posted := posted s @ (case worker_of s r of None \<Rightarrow> [] | Some w \<Rightarrow> [(w, m)])\<rparr>)"
    using Cons.prems by (intro lookup_deliver) auto
  show ?case
    using Cons.prems
    by (simp add: get page seqM_assoc_bind)
      (simp add: seqM_def bindM_def [of "bindM (getAgent r) (\<lambda>agent. deliver agent m)"] del Cons.IH)
qed (simp add: ret_def)

text \<open>
  C5. Posting a message whose receivers are identifiers: each receiver on the page that is
  running gets the whole message, in the order of the list; if any receiver is on the
  server, the message's receivers are cut down to those and the call then fails, because
  the platform calls \<open>xjaf.post\<close>, which the service does not have (its operation is
  \<open>sendMessage\<close>). No request is ever made.
\<close>

theorem post_routes:
  assumes "map_of ps ''receivers'' = Some (JArr rs)" and "\<forall>r \<in> set rs. is_object r"
    and "cloneable (JObj ps)"
  shows "post (JObj ps) s =
    (let t = s\<lparr>posted := posted s @ deliveries s (JObj ps) (filter on_page rs)\<rparr>;
         server = filter (\<lambda>r. \<not> on_page r) rs
     in if server = [] then (Inr (), JObj ps, t)
        else (Inl (TypeError ''xjaf.post''), JObj (aput ''receivers'' (JArr server) ps), t))"
  using assms
  by (simp add: post_def receivers_of_def post_loop_routes xjaf_post_def xjaf_operations_def
      throw_def Let_def)

theorem post_routes_witness:
  "post (JObj [(''receivers'', JArr [JObj [(''str'', JStr ''p@xjaf'')]])])
      (createRadigost (JStr ''h'') JUndef :: nat radigost)
   = (Inl (TypeError ''xjaf.post''), JObj [(''receivers'', JArr [JObj [(''str'', JStr ''p@xjaf'')]])],
      createRadigost (JStr ''h'') JUndef)"
  by (subst post_routes [where rs = "[JObj [(''str'', JStr ''p@xjaf'')]]"])
    (simp_all add: is_object_def on_page_def createRadigost_def)

lemma postToClient_routes:
  assumes "map_of ps ''receivers'' = Some (JArr rs)" "\<forall>r \<in> set rs. is_object r"
    "cloneable (JObj ps)"
  shows "postToClient (JObj ps) s = (Inr (), s\<lparr>posted := posted s @ deliveries s (JObj ps) rs\<rparr>)"
  using assms forM_lookup_deliver [of rs "JObj ps" s]
  by (simp add: postToClient_def receivers_of_def)


section \<open>Messages from the server\<close>

text \<open>
  JSON text is a codec: this is what the server and the page rely on when they put
  identifiers into messages as text.
\<close>

interpretation json: codec render json_parse json_value
  by unfold_locales (rule json_parse_render)

text \<open>How a sender puts a message on the socket: identifiers become JSON texts.\<close>

definition enc_at :: "string \<Rightarrow> (js \<Rightarrow> js) \<Rightarrow> (string \<times> js) list \<Rightarrow> (string \<times> js) list" where
  "enc_at k f ps = map (\<lambda>(j, v). (j, if j = k then f v else v)) ps"

definition enc_text :: "js \<Rightarrow> js" where
  "enc_text v = JStr (render v)"

definition enc_list :: "js \<Rightarrow> js" where
  "enc_list v = (case v of JArr rs \<Rightarrow> JArr (map enc_text rs) | _ \<Rightarrow> v)"

definition to_wire :: "(string \<times> js) list \<Rightarrow> js" where
  "to_wire ps = JObj (enc_at ''sender'' enc_text (enc_at ''replyTo'' enc_text
    (enc_at ''receivers'' enc_list ps)))"

lemma enc_at_keys [simp]: "akeys (enc_at k f ps) = akeys ps"
  by (induction ps) (auto simp: enc_at_def)

lemma map_of_enc_at:
  "map_of (enc_at k f ps) j = map_option (\<lambda>v. if j = k then f v else v) (map_of ps j)"
  by (induction ps) (auto simp: enc_at_def)

lemma enc_at_absent: "map_of ps k = None \<Longrightarrow> enc_at k f ps = ps"
  by (induction ps) (auto simp: enc_at_def split: if_splits)

lemma aput_enc_at: "distinct (akeys ps) \<Longrightarrow> map_of ps k = Some v \<Longrightarrow> aput k v (enc_at k f ps) = ps"
proof (induction ps)
  case (Cons p ps)
  obtain j w where p: "p = (j, w)" by (cases p)
  show ?case
  proof (cases "j = k")
    case True
    with Cons.prems p have "enc_at k f ps = ps"
      by (intro enc_at_absent) (simp add: map_of_akeys)
    with True Cons.prems p show ?thesis by (simp add: enc_at_def)
  next
    case False
    with Cons p show ?thesis by (simp add: enc_at_def)
  qed
qed simp

lemma decode_field_enc:
  assumes "distinct (akeys ps)" "\<And>v. map_of ps k = Some v \<Longrightarrow> json_value v"
  shows "decode_field k (JObj (enc_at k enc_text ps)) = Inr (JObj ps)"
proof (cases "map_of ps k")
  case None
  then show ?thesis by (simp add: decode_field_def enc_at_absent)
next
  case (Some v)
  with assms show ?thesis
    by (simp add: decode_field_def map_of_enc_at enc_text_def json.decode_encode
        aput_enc_at [unfolded enc_text_def])
qed

lemma decode_list_enc: "json_values rs \<Longrightarrow> decode_list (map enc_text rs) = Inr rs"
  by (induction rs) (auto simp: decode_text_def enc_text_def json.decode_encode)

lemma json_props_map_of: "json_props ps \<Longrightarrow> map_of ps k = Some v \<Longrightarrow> json_value v"
  by (induction ps) (auto split: if_splits)

lemma json_values_enc_text: "json_values (map enc_text rs)"
  by (induction rs) (auto simp: enc_text_def)

lemma json_value_enc: "json_value v \<Longrightarrow> json_value (enc_text v) \<and> json_value (enc_list v)"
  by (cases v) (auto simp: enc_text_def enc_list_def json_values_enc_text)

lemma json_props_enc_at:
  "json_props ps \<Longrightarrow> (\<And>v. json_value v \<Longrightarrow> json_value (f v)) \<Longrightarrow> json_props (enc_at k f ps)"
  by (induction ps) (auto simp: enc_at_def)

lemma json_value_to_wire: "json_value (JObj ps) \<Longrightarrow> json_value (to_wire ps)"
  by (auto simp: to_wire_def json_value_enc intro!: json_props_enc_at)

text \<open>
  C6. A message the server sends over the socket, with its sender, reply-to and receivers
  as JSON texts, is delivered exactly as the original message is by \<open>postToClient\<close>: to
  every running agent it names, with the identifiers decoded, and to nobody else.
\<close>

theorem socket_delivers:
  assumes msg: "json_value (JObj ps)" and rs: "map_of ps ''receivers'' = Some (JArr rs)"
    and obj: "\<forall>r \<in> set rs. is_object r" and cl: "cloneable (JObj ps)"
  shows "socket_onMessage (render (to_wire ps)) s =
    (Inr (), s\<lparr>posted := posted s @ deliveries s (JObj ps) rs\<rparr>)"
proof -
  let ?r = "enc_at ''receivers'' enc_list ps" and ?t = "enc_at ''replyTo'' enc_text"
  from msg have d: "distinct (akeys ps)" and jp: "json_props ps" by simp_all
  have jr: "json_props ?r" by (rule json_props_enc_at [OF jp]) (simp add: json_value_enc)
  have jt: "json_props (?t ?r)" by (rule json_props_enc_at [OF jr]) (simp add: json_value_enc)
  have 1: "decode_field ''sender'' (to_wire ps) = Inr (JObj (?t ?r))"
    unfolding to_wire_def using d jt by (intro decode_field_enc) (auto intro: json_props_map_of)
  have 2: "decode_field ''replyTo'' (JObj (?t ?r)) = Inr (JObj ?r)"
    using d jr by (intro decode_field_enc) (auto intro: json_props_map_of)
  have "json_values rs" using json_props_map_of [OF jp rs] by simp
  then have 3: "decode_receivers (JObj ?r) = Inr (JObj ps)"
    using d rs by (simp add: decode_receivers_def map_of_enc_at enc_list_def decode_list_enc
        aput_enc_at [unfolded enc_list_def])
  have "json_parse (render (to_wire ps)) = Inr (to_wire ps)"
    using msg by (intro json.decode_encode json_value_to_wire)
  with 1 2 3 postToClient_routes [OF rs obj cl, of s] show ?thesis
    by (simp add: socket_onMessage_def)
qed

theorem socket_delivers_witness:
  "socket_onMessage (render (to_wire [(''receivers'', JArr [createAid (JStr ''A'') (JStr ''h'')])]))
     (createRadigost (JStr ''h'') JUndef :: nat radigost)
   = (Inr (), createRadigost (JStr ''h'') JUndef)"
  by (subst socket_delivers [where rs = "[createAid (JStr ''A'') (JStr ''h'')]"])
    (auto simp: createAid_def is_object_def worker_of_def createRadigost_def)

section \<open>Messages from the workers\<close>

text \<open>An observer's callback is recorded, and nothing else changes.\<close>

lemma keeps_observer_frame [keeps_rules]:
  "keeps (\<lambda>t. running t = tab \<and> workers t = ws \<and> posted t = ms \<and> requests t = qs)
     (observer_call slot a xs)"
  unfolding observer_call_def call_callback_def
  by (auto intro!: keeps_rules keeps_modS split: option.split observer_slot.split callback.split)

lemma observe_branch:
  fixes s :: "'cb radigost"
  defines "P \<equiv> \<lambda>t :: 'cb radigost. running t = running s \<and> workers t = workers s \<and>
    posted t = posted s \<and> requests t = requests s"
  assumes "map_of ps ''opcode'' = Some opcode" "opcode \<in> {op_INIT, op_STEP}"
  shows "P (snd (onWorkerMessage (JObj ps) s))"
proof -
  have "keeps P (bindM (liftE (js_get (JObj ps) ''aid'')) (\<lambda>aid.
      bindM (getAgent aid) (\<lambda>ag. observer_call onStart ag [aid])))"
    unfolding P_def by (intro keeps_rules)
  moreover have "keeps P (bindM (liftE (js_get (JObj ps) ''aid'')) (\<lambda>aid.
      bindM (getAgent aid) (\<lambda>ag.
      bindM (liftE (js_get (JObj ps) ''info'')) (\<lambda>info. observer_call onStep ag [aid, info]))))"
    unfolding P_def by (intro keeps_rules)
  moreover have "P s" by (simp add: P_def)
  ultimately show ?thesis
    using assms(2,3) by (auto simp: onWorkerMessage_def op_defs dest!: keepsD)
qed

text \<open>A migrating agent: its own address, identifier and state go to the server.\<close>

lemma move_branch:
  assumes "map_of ps ''opcode'' = Some op_MOVE_TO_SERVER" "js_get (JObj ps) ''aid'' = Inr aid"
    "js_get (JObj ps) ''state'' = Inr state"
  shows "onWorkerMessage (JObj ps) s =
    (case js_get aid ''str'' of
       Inl e \<Rightarrow> (Inl e, s)
     | Inr k \<Rightarrow>
        (case map_of (running s) (to_str k) of
           None \<Rightarrow> (Inr (), s)
         | Some a \<Rightarrow>
            (Inr (), if ag_url a = JNull then s
                     else s\<lparr>requests := requests s @ [accept (ag_url a) aid state]\<rparr>)))"
proof -
  have "js_get (JObj ps) ''opcode'' = Inr op_MOVE_TO_SERVER" using assms(1) by simp
  with assms(2,3) show ?thesis
    unfolding onWorkerMessage_def
    by (cases "js_get aid ''str''")
      (auto simp del: js_get.simps simp: op_defs bindM_def getAgent_cases send_request_def ret_def
        modS_def liftE_def split: option.split)
qed

text \<open>
  C11. What a worker can make the platform do: a message that is an object with an unknown
  opcode is refused by an error and changes nothing; INIT and STEP never touch the table,
  the queues or the requests, and MOVE_TO_SERVER makes at most one request; so only a
  message without opcode reaches other agents.
\<close>

theorem onWorkerMessage_effects:
  assumes "onWorkerMessage (JObj ps) s = (r, t)"
    and "map_of ps ''opcode'' = Some opcode" and "opcode \<noteq> JUndef"
  shows "running t = running s \<and> workers t = workers s \<and> posted t = posted s \<and>
    (opcode \<notin> {op_INIT, op_STEP, op_MOVE_TO_SERVER} \<longrightarrow>
       t = s \<and> r = Inl (ErrorMsg (''Unrecognized OpCode: '' @ to_str (json_stringify (JObj ps))))) \<and>
    (opcode \<in> {op_INIT, op_STEP} \<longrightarrow> requests t = requests s) \<and>
    (opcode = op_MOVE_TO_SERVER \<longrightarrow> calls t = calls s \<and>
       (requests t = requests s \<or> (\<exists>q. requests t = requests s @ [q])))"
proof -
  consider "opcode \<in> {op_INIT, op_STEP}" | "opcode = op_MOVE_TO_SERVER"
    | "opcode \<notin> {op_INIT, op_STEP, op_MOVE_TO_SERVER}" by blast
  then show ?thesis
  proof cases
    case 1
    with observe_branch [OF assms(2) 1, of s] assms(1) show ?thesis by (auto simp: op_defs)
  next
    case 2
    with assms(2) have "map_of ps ''opcode'' = Some op_MOVE_TO_SERVER" by simp
    moreover obtain aid where "js_get (JObj ps) ''aid'' = Inr aid" by simp
    moreover obtain state where "js_get (JObj ps) ''state'' = Inr state" by simp
    ultimately show ?thesis
      using move_branch [of ps aid state s] assms(1) 2
      by (simp add: op_defs split: sum.splits option.splits if_splits)
  next
    case 3
    with assms show ?thesis
      by (auto simp: onWorkerMessage_def strict_eq_iff throw_def)
  qed
qed

theorem onWorkerMessage_effects_witness:
  "posted (snd (onWorkerMessage (JObj [(''opcode'', JNum 9)]) (createRadigost (JStr ''h'') JUndef :: nat radigost))) = []"
  using onWorkerMessage_effects [OF prod.collapse [symmetric], where ps = "[(''opcode'', JNum 9)]"
      and s = "createRadigost (JStr ''h'') JUndef :: nat radigost" and opcode = "JNum 9"]
  by (simp add: createRadigost_def)

end
