(* ===== verification/AgentWorker.thy ===== *)
theory AgentWorker
  imports Json Messages Interfaces
begin

text \<open>
  The worker side of an agent, \<open>js/agents/agent.js\<close>, and the three agents that come with
  the client (\<open>helloWorld.js\<close>, \<open>mobileAgent.js\<close>, \<open>remoteAgent.js\<close>). The state is the
  agent object (its own properties and the data properties of its prototype, which is an
  \<open>Agent\<close>), whether it has been registered as \<open>self.agentInstance\<close>, and what the worker
  has put out: messages posted to the page, console lines, and lines printed on the server.
\<close>

record worker =
  registered :: bool
  own :: "(string \<times> js) list"
  proto :: "(string \<times> js) list"
  out :: "js list"
  wconsole :: "string list"
  printed :: "string list"

section \<open>The agent object\<close>

text \<open>The properties \<open>Agent()\<close> sets on the object every agent has as its prototype.\<close>

definition Agent :: "(string \<times> js) list" where
  "Agent = [(''aid'', JNull), (''radigostHelper'', JNull)]"

definition this_get :: "string \<Rightarrow> worker \<Rightarrow> js" where
  "this_get k s =
    (case map_of (own s) k of
       Some v \<Rightarrow> v
     | None \<Rightarrow> (case map_of (proto s) k of Some v \<Rightarrow> v | None \<Rightarrow> JUndef))"

definition this_set :: "string \<Rightarrow> js \<Rightarrow> (worker, unit) comp" where
  "this_set k v = modS (\<lambda>s. s\<lparr>own := aput k v (own s)\<rparr>)"

text \<open>\<open>Agent.prototype.post\<close> and the worker's global \<open>postMessage\<close> are the same channel.\<close>

definition agent_post :: "js \<Rightarrow> (worker, unit) comp" where
  "agent_post msg = bindM (liftE (clone msg)) (\<lambda>c. modS (\<lambda>s. s\<lparr>out := out s @ [c]\<rparr>))"

definition agent_onStep :: "js \<Rightarrow> (worker, unit) comp" where
  "agent_onStep step = bindM (getS (this_get ''aid''))
    (\<lambda>aid. agent_post (JObj [(''opcode'', op_STEP), (''aid'', aid), (''info'', step)]))"

definition is_data :: "js \<Rightarrow> bool" where
  "is_data v = (js_typeof v \<noteq> ''function'')"

text \<open>
  \<open>getState\<close>: \<open>for (prop in this)\<close> visits the own properties and then those of the
  prototype that are not shadowed; functions are left out.
\<close>

definition state_props :: "worker \<Rightarrow> (string \<times> js) list" where
  "state_props s =
    filter (\<lambda>p. is_data (snd p))
      (own s @ filter (\<lambda>p. fst p \<notin> set (akeys (own s))) (proto s))"

definition getState :: "worker \<Rightarrow> js" where
  "getState s = JObj (fold (\<lambda>(k, v) st. aput k v st) (state_props s) [])"

definition setState :: "js \<Rightarrow> (worker, unit) comp" where
  "setState state =
    bindM (liftE (case state of JStr t \<Rightarrow> json_parse t | _ \<Rightarrow> Inr state)) (\<lambda>st.
      forM (js_own st) (\<lambda>(k, v). this_set k v))"

definition moveToServer :: "(worker, unit) comp" where
  "moveToServer =
    bindM (getS getState) (\<lambda>agState.
    bindM (getS (this_get ''aid'')) (\<lambda>aid.
      agent_post (JObj [(''opcode'', op_MOVE_TO_SERVER), (''aid'', aid),
        (''state'', json_stringify agState)])))"

section \<open>Behaviours\<close>

text \<open>The overridable methods of an agent; \<open>Agent\<close>'s own do nothing.\<close>

record behaviour =
  onInit :: "js \<Rightarrow> (worker, unit) comp"
  onMessage :: "js \<Rightarrow> (worker, unit) comp"
  onArrived :: "js \<Rightarrow> js \<Rightarrow> (worker, unit) comp"

definition agent_behaviour :: behaviour where
  "agent_behaviour = \<lparr>onInit = (\<lambda>args. ret ()), onMessage = (\<lambda>msg. ret ()),
     onArrived = (\<lambda>host isServer. ret ())\<rparr>"

section \<open>Interceptors\<close>

text \<open>A method call on \<open>self.agentInstance\<close>, which is null until an agent registers.\<close>

definition on_instance :: "(worker, unit) comp \<Rightarrow> (worker, unit) comp" where
  "on_instance m = bindM (getS registered)
    (\<lambda>r. if r then m else throw (TypeError ''agentInstance''))"

definition console_log :: "string \<Rightarrow> (worker, unit) comp" where
  "console_log t = modS (\<lambda>s. s\<lparr>wconsole := wconsole s @ [t]\<rparr>)"

fun assert_props :: "(string \<times> js) list \<Rightarrow> (worker, unit) comp" where
  "assert_props [] = ret ()"
| "assert_props ((key, v) # ps) =
    on_instance (bindM (getS (\<lambda>s. map_of (own s) key)) (\<lambda>a.
      case a of
        None \<Rightarrow> throw (ErrorMsg (''Property '' @ key @ '' not found.''))
      | Some actual \<Rightarrow>
          if \<not> strict_eq v actual then
            throw (ErrorMsg (''Mismatched property '' @ key @ '', expected:'' @ to_str v
              @ '', actual:'' @ to_str actual @ ''.''))
          else assert_props ps))"

definition assertState :: "js \<Rightarrow> (worker, unit) comp" where
  "assertState expected = assert_props (js_own expected)"

definition checkPreconditions :: "js \<Rightarrow> (worker, unit) comp" where
  "checkPreconditions interceptor =
    (if interceptor = JUndef then ret ()
     else bindM (liftE (js_get interceptor ''preconditions'')) (\<lambda>pre.
       if pre = JUndef then ret ()
       else seqM (assertState pre)
         (console_log ''Pre-conditions for the agent satisfied.'')))"

definition checkPostconditions :: "js \<Rightarrow> (worker, unit) comp" where
  "checkPostconditions interceptor =
    (if interceptor = JUndef then ret ()
     else bindM (liftE (js_get interceptor ''postconditions'')) (\<lambda>post.
       if post = JUndef then throw (ErrorMsg ''Interceptors must include post-conditions.'')
       else seqM (assertState post)
         (console_log ''Post-conditions for the agent satisfied.'')))"

section \<open>The worker's message handler\<close>

definition worker_onmessage :: "behaviour \<Rightarrow> js \<Rightarrow> (worker, unit) comp" where
  "worker_onmessage b msg =
    bindM (liftE (js_get msg ''opcode'')) (\<lambda>opcode.
      if strict_eq opcode op_INIT then
        bindM (liftE (js_get msg ''aid'')) (\<lambda>aid.
        bindM (liftE (js_get msg ''args'')) (\<lambda>args.
        seqM (on_instance (this_set ''aid'' aid))
        (seqM (on_instance (onInit b args))
        (agent_post (JObj [(''opcode'', op_INIT), (''aid'', aid)])))))
      else
        bindM (liftE (js_get msg ''interceptor'')) (\<lambda>interceptor.
        seqM (checkPreconditions interceptor)
        (seqM (on_instance (onMessage b msg))
        (checkPostconditions interceptor))))"

section \<open>The bundled agents\<close>

definition load_agent :: "(string \<times> js) list \<Rightarrow> worker" where
  "load_agent props0 = \<lparr>registered = True, own = props0, proto = Agent, out = [], wconsole = [],
     printed = []\<rparr>"

definition print_line :: "string \<Rightarrow> (worker, unit) comp" where
  "print_line t = modS (\<lambda>s. s\<lparr>printed := printed s @ [t]\<rparr>)"

definition HelloWorld :: "(string \<times> js) list" where
  "HelloWorld = [(''messageProcessed'', JBool False)]"

definition HelloWorld_onMessage :: "js \<Rightarrow> (worker, unit) comp" where
  "HelloWorld_onMessage msg =
    seqM (this_set ''messageProcessed'' (JBool True))
    (bindM (getS (this_get ''aid'')) (\<lambda>aid.
     bindM (liftE (js_get aid ''str'')) (\<lambda>str.
     agent_onStep (JStr (''Hello from '' @ to_str str @ ''!'')))))"

definition helloWorld_behaviour :: behaviour where
  "helloWorld_behaviour = agent_behaviour\<lparr>onMessage := HelloWorld_onMessage\<rparr>"

definition MobileAgent :: "(string \<times> js) list" where
  "MobileAgent = [(''num'', JNum 42)]"

definition MobileAgent_onInit :: "js \<Rightarrow> (worker, unit) comp" where
  "MobileAgent_onInit args = moveToServer"

definition MobileAgent_onArrived :: "js \<Rightarrow> js \<Rightarrow> (worker, unit) comp" where
  "MobileAgent_onArrived host isServer =
    (if truthy isServer then
       seqM (this_set ''isServer'' (JBool True))
       (bindM (getS (this_get ''num'')) (\<lambda>num.
        print_line ([CHR ''I'', CHR 0x27, CHR ''m''] @ '' at '' @ to_str host
          @ '' and the number is '' @ to_str num)))
     else ret ())"

definition MobileAgent_onMessage :: "js \<Rightarrow> (worker, unit) comp" where
  "MobileAgent_onMessage msg =
    bindM (getS (this_get ''isServer'')) (\<lambda>srv.
      if truthy srv then
        print_line ([CHR ''I'', CHR 0x27, CHR ''m'']
          @ '' on the server and I received the following message:'' @ [CHR 0x0A] @ to_str msg)
      else ret ())"

definition mobileAgent_behaviour :: behaviour where
  "mobileAgent_behaviour = \<lparr>onInit = MobileAgent_onInit, onMessage = MobileAgent_onMessage,
     onArrived = MobileAgent_onArrived\<rparr>"

definition RemoteAgent :: "(string \<times> js) list" where
  "RemoteAgent = []"

definition RemoteAgent_onMessage :: "js \<Rightarrow> (worker, unit) comp" where
  "RemoteAgent_onMessage msg = bindM (liftE (js_get msg ''content'')) agent_onStep"

definition remoteAgent_behaviour :: behaviour where
  "remoteAgent_behaviour = agent_behaviour\<lparr>onMessage := RemoteAgent_onMessage\<rparr>"

text \<open>The scripts of the client, by address: the agent's fields and its behaviour.\<close>

definition script :: "string \<Rightarrow> ((string \<times> js) list \<times> behaviour) option" where
  "script url =
    (if url = ''/siebog/js/agents/helloWorld.js'' then Some (HelloWorld, helloWorld_behaviour)
     else if url = ''/siebog/js/agents/mobileAgent.js'' then Some (MobileAgent, mobileAgent_behaviour)
     else if url = ''/siebog/js/agents/remoteAgent.js'' then Some (RemoteAgent, remoteAgent_behaviour)
     else None)"


section \<open>Interceptors: what an accepted message has been through\<close>

text \<open>The state satisfies a list of expected properties: own, and strictly equal.\<close>

definition satisfies :: "worker \<Rightarrow> js \<Rightarrow> bool" where
  "satisfies s expected \<longleftrightarrow>
     (\<forall>p \<in> set (js_own expected). \<exists>a. map_of (own s) (fst p) = Some a \<and> strict_eq (snd p) a)"

lemma assert_props_state: "snd (assert_props ps s) = s"
  by (induction ps) (auto simp: comp_simps on_instance_def split: option.splits)

lemma assert_props_ok:
  assumes "registered s"
  shows "fst (assert_props ps s) = Inr () \<longleftrightarrow>
    (\<forall>p \<in> set ps. \<exists>a. map_of (own s) (fst p) = Some a \<and> strict_eq (snd p) a)"
proof (induction ps)
  case (Cons p ps)
  obtain k v where p: "p = (k, v)" by (cases p)
  show ?case
    using assms Cons.IH p
    by (cases "map_of (own s) k") (simp_all add: on_instance_def throw_def)
qed (simp add: ret_def)

lemma assertState_cases:
  assumes "registered s"
  shows "(assertState e s = (Inr (), s) \<and> satisfies s e) \<or>
    (\<exists>msg. assertState e s = (Inl msg, s) \<and> \<not> satisfies s e)"
proof -
  obtain r t where a: "assertState e s = (r, t)" by (cases "assertState e s")
  then have t: "t = s" using assert_props_state [of "js_own e" s] by (simp add: assertState_def)
  have "r = Inr () \<longleftrightarrow> satisfies s e"
    using a assert_props_ok [OF assms, of "js_own e"] by (simp add: assertState_def satisfies_def)
  with a t show ?thesis by (cases r) auto
qed

lemma assertState_true: "registered s \<Longrightarrow> satisfies s e \<Longrightarrow> assertState e s = (Inr (), s)"
  using assertState_cases by blast

lemma assertState_false:
  assumes "registered s" "\<not> satisfies s e"
  obtains msg where "assertState e s = (Inl msg, s)"
  using assertState_cases [OF assms(1)] assms(2) by blast

lemma satisfies_console [simp]: "satisfies (s\<lparr>wconsole := l\<rparr>) e = satisfies s e"
  by (simp add: satisfies_def)

lemma checkPre_holds:
  assumes "registered s" "js_get i ''preconditions'' = Inr pre" "pre \<noteq> JUndef"
  shows "satisfies s pre \<Longrightarrow> checkPreconditions i s =
      (Inr (), s\<lparr>wconsole := wconsole s @ [''Pre-conditions for the agent satisfied.'']\<rparr>)"
    and "\<not> satisfies s pre \<Longrightarrow> \<exists>e. checkPreconditions i s = (Inl e, s)"
proof -
  have i: "i \<noteq> JUndef" using assms(2) by auto
  { assume "satisfies s pre"
    with assms i show "checkPreconditions i s =
      (Inr (), s\<lparr>wconsole := wconsole s @ [''Pre-conditions for the agent satisfied.'']\<rparr>)"
      by (simp add: checkPreconditions_def seqM_def bindM_def assertState_true liftE_def
          console_log_def modS_def) }
  { assume "\<not> satisfies s pre"
    then obtain e where "assertState pre s = (Inl e, s)" by (rule assertState_false [OF assms(1)])
    with assms i show "\<exists>e. checkPreconditions i s = (Inl e, s)"
      by (simp add: checkPreconditions_def seqM_def bindM_def liftE_def) }
qed

lemma checkPost_holds:
  assumes "registered s" "js_get i ''postconditions'' = Inr post" "post \<noteq> JUndef"
  shows "satisfies s post \<Longrightarrow> checkPostconditions i s =
      (Inr (), s\<lparr>wconsole := wconsole s @ [''Post-conditions for the agent satisfied.'']\<rparr>)"
    and "\<not> satisfies s post \<Longrightarrow> \<exists>e. checkPostconditions i s = (Inl e, s)"
proof -
  have i: "i \<noteq> JUndef" using assms(2) by auto
  { assume "satisfies s post"
    with assms i show "checkPostconditions i s =
      (Inr (), s\<lparr>wconsole := wconsole s @ [''Post-conditions for the agent satisfied.'']\<rparr>)"
      by (simp add: checkPostconditions_def seqM_def bindM_def assertState_true liftE_def
          console_log_def modS_def) }
  { assume "\<not> satisfies s post"
    then obtain e where "assertState post s = (Inl e, s)" by (rule assertState_false [OF assms(1)])
    with assms i show "\<exists>e. checkPostconditions i s = (Inl e, s)"
      by (simp add: checkPostconditions_def seqM_def bindM_def liftE_def) }
qed

text \<open>
  C9. A message with an interceptor is processed by a contract: if the agent's state does
  not meet the preconditions the handler never runs and the agent is unchanged; otherwise
  the handler runs, and the processing succeeds exactly when the handler does and the state
  it leaves meets the postconditions. The handler's effects stay even when they do not.
\<close>

theorem interceptor_contract:
  assumes reg: "registered s"
    and msg: "js_get msg ''opcode'' = Inr JUndef" "js_get msg ''interceptor'' = Inr i"
    and pre: "js_get i ''preconditions'' = Inr pre" "pre \<noteq> JUndef"
    and post: "js_get i ''postconditions'' = Inr post" "post \<noteq> JUndef"
    and hnd: "onMessage b msg (s\<lparr>wconsole := wconsole s
        @ [''Pre-conditions for the agent satisfied.'']\<rparr>) = (r, t)" "registered t"
    and run: "worker_onmessage b msg s = (r', t')"
  shows "if \<not> satisfies s pre then (\<exists>e. r' = Inl e) \<and> t' = s
    else own t' = own t \<and> out t' = out t \<and> (r' = Inr () \<longleftrightarrow> r = Inr () \<and> satisfies t post)"
proof (cases "satisfies s pre")
  case False
  with checkPre_holds(2) [OF reg pre] obtain e where "checkPreconditions i s = (Inl e, s)" by blast
  with msg run False show ?thesis
    by (auto simp: worker_onmessage_def op_defs seqM_def bindM_def liftE_def)
next
  case True
  let ?s = "s\<lparr>wconsole := wconsole s @ [''Pre-conditions for the agent satisfied.'']\<rparr>"
  have c: "checkPreconditions i s = (Inr (), ?s)" by (rule checkPre_holds(1) [OF reg pre True])
  have h: "on_instance (onMessage b msg) ?s = (r, t)"
    using hnd(1) reg by (simp add: on_instance_def)
  have w: "worker_onmessage b msg s =
      (case r of Inl e \<Rightarrow> (Inl e, t) | Inr _ \<Rightarrow> checkPostconditions i t)"
    using msg c h by (simp add: worker_onmessage_def op_defs seqM_def bindM_def liftE_def)
  show ?thesis
    using True w run checkPost_holds [OF hnd(2) post]
    by (cases r; cases "satisfies t post") auto
qed

theorem interceptor_contract_witness:
  "let i = JObj [(''preconditions'', JObj [(''messageProcessed'', JBool False)]),
                 (''postconditions'', JObj [(''messageProcessed'', JBool True)])];
       s = load_agent (aput ''aid'' (createAid (JStr ''A'') (JStr ''h'')) HelloWorld);
       (r, t) = worker_onmessage helloWorld_behaviour (JObj [(''interceptor'', i)]) s
   in r = Inr () \<and> own t = aput ''messageProcessed'' (JBool True) (own s)"
proof -
  let ?i = "JObj [(''preconditions'', JObj [(''messageProcessed'', JBool False)]),
                 (''postconditions'', JObj [(''messageProcessed'', JBool True)])]"
  let ?m = "JObj [(''interceptor'', ?i)]"
  let ?s = "load_agent (aput ''aid'' (createAid (JStr ''A'') (JStr ''h'')) HelloWorld)"
  let ?c = "?s\<lparr>wconsole := wconsole ?s @ [''Pre-conditions for the agent satisfied.'']\<rparr>"
  have h: "onMessage helloWorld_behaviour ?m ?c = (Inr (),
      ?c\<lparr>own := aput ''messageProcessed'' (JBool True) (own ?s),
         out := [JObj [(''opcode'', op_STEP), (''aid'', createAid (JStr ''A'') (JStr ''h'')),
           (''info'', JStr ''Hello from A@h!'')]]\<rparr>)"
    by (simp add: helloWorld_behaviour_def agent_behaviour_def HelloWorld_onMessage_def HelloWorld_def
        load_agent_def this_set_def seqM_def this_get_def agent_onStep_def agent_post_def clone_def
        createAid_def op_defs modS_def)
  show ?thesis
    using interceptor_contract [OF _ _ _ _ _ _ _ h _ prod.collapse [symmetric], of ?i
        "JObj [(''messageProcessed'', JBool False)]" "JObj [(''messageProcessed'', JBool True)]"]
    by (auto simp: Let_def case_prod_unfold load_agent_def satisfies_def HelloWorld_def)
qed


section \<open>Migration\<close>

text \<open>
  An agent that can travel: registered, an instance of an agent script, with no property
  recorded twice, whose data JSON can carry, and with its two base properties not
  overwritten by functions. (It may hold functions otherwise; they stay behind.)
\<close>

definition travels :: "worker \<Rightarrow> bool" where
  "travels s \<longleftrightarrow> registered s \<and> proto s = Agent \<and> distinct (akeys (own s)) \<and>
     (\<forall>p \<in> set (own s). is_data (snd p) \<longrightarrow> json_value (snd p)) \<and>
     (\<forall>p \<in> set (own s). fst p \<in> {''aid'', ''radigostHelper''} \<longrightarrow> is_data (snd p))"

lemma map_of_rev_distinct: "distinct (akeys ps) \<Longrightarrow> map_of (rev ps) = map_of ps"
  by (metis akeys_def distinct_rev map_of_inject_set rev_map set_rev)

lemma fold_aput_map_of:
  assumes "distinct (akeys ps)" "distinct (akeys m)"
  shows "map_of (fold (\<lambda>(k, v). aput k v) ps m) = map_of m ++ map_of ps"
  using assms
  by (auto simp: fun_eq_iff alist_store.get_puts map_of_rev_distinct map_add_def split: option.split)

lemma distinct_akeys_filter: "distinct (akeys ps) \<Longrightarrow> distinct (akeys (filter P ps))"
  by (simp add: akeys_def distinct_map_filter)

lemma in_akeys: "(k, v) \<in> set ps \<Longrightarrow> k \<in> set (akeys ps)"
  by (force simp: akeys_def)

lemma distinct_state_props:
  assumes "travels s"
  shows "distinct (akeys (state_props s))"
proof -
  have "distinct (akeys (own s @ filter (\<lambda>p. fst p \<notin> set (akeys (own s))) (proto s)))"
    using assms by (auto simp: travels_def Agent_def akeys_def)
  then show ?thesis unfolding state_props_def by (rule distinct_akeys_filter)
qed

lemma fold_aput_self:
  fixes ps :: "(string \<times> js) list"
  shows "distinct (akeys ps) \<Longrightarrow> fold (\<lambda>(k, v) st. aput k v st) ps [] = ps"
  by (rule of_raw_distinct [unfolded of_raw_def])

lemma getState_props: "travels s \<Longrightarrow> getState s = JObj (state_props s)"
  by (simp add: getState_def fold_aput_self distinct_state_props)

lemma json_props_iff: "json_props ps \<longleftrightarrow> (\<forall>p \<in> set ps. json_value (snd p))"
  by (induction ps) auto

lemma json_state: "travels s \<Longrightarrow> json_value (getState s)"
  using distinct_state_props
  by (auto simp: getState_props json_props_iff state_props_def travels_def Agent_def)

lemma state_props_data: "p \<in> set (state_props s) \<Longrightarrow> is_data (snd p)"
  by (auto simp: state_props_def)

lemma base_in_state:
  assumes "travels s" "k \<in> {''aid'', ''radigostHelper''}"
  shows "k \<in> set (akeys (state_props s))"
proof (cases "k \<in> set (akeys (own s))")
  case True
  then obtain v where v: "(k, v) \<in> set (own s)" by (auto simp: akeys_def)
  with assms have "is_data v" by (auto simp: travels_def)
  with v have "(k, v) \<in> set (state_props s)" by (simp add: state_props_def)
  then show ?thesis by (rule in_akeys)
next
  case False
  with assms have "(k, JNull) \<in> set (state_props s)"
    by (auto simp: travels_def state_props_def Agent_def is_data_def)
  then show ?thesis by (rule in_akeys)
qed

lemma setState_parsed:
  assumes "json_parse t = Inr (JObj ps)"
  shows "setState (JStr t) s = (Inr (), s\<lparr>own := fold (\<lambda>(k, v). aput k v) ps (own s)\<rparr>)"
proof -
  have "forM ps (\<lambda>(k, v). this_set k v) s
      = (Inr (), fold (\<lambda>(k, v) s. s\<lparr>own := aput k v (own s)\<rparr>) ps s)"
    by (rule forM_ok) (auto simp: this_set_def modS_def)
  moreover have "fold (\<lambda>(k, v) s. s\<lparr>own := aput k v (own s)\<rparr>) ps s
      = s\<lparr>own := fold (\<lambda>(k, v). aput k v) ps (own s)\<rparr>"
    by (induction ps arbitrary: s) auto
  ultimately show ?thesis using assms by (simp add: setState_def)
qed

text \<open>A property of the state is what the agent reads under its name.\<close>

lemma this_get_state:
  assumes "travels s" and "map_of (state_props s) k = Some v"
  shows "this_get k s = v"
proof -
  from assms(2) have "(k, v) \<in> set (state_props s)" by (rule map_of_in_set)
  then consider "(k, v) \<in> set (own s)" | "(k, v) \<in> set (proto s)" "k \<notin> set (akeys (own s))"
    by (auto simp: state_props_def)
  then show ?thesis
  proof cases
    case 1
    with assms(1) have "map_of (own s) k = Some v" by (simp add: travels_def map_of_distinct_iff)
    then show ?thesis by (simp add: this_get_def)
  next
    case 2
    with assms(1) have "map_of (own s) k = None" "map_of (proto s) k = Some v"
      by (auto simp: travels_def map_of_akeys Agent_def)
    then show ?thesis by (simp add: this_get_def)
  qed
qed

text \<open>
  C10. Migration keeps the agent's state: the text an agent puts into its MOVE_TO_SERVER
  message, given to \<open>setState\<close> on a newly loaded agent of the same script, yields an agent
  with the same value for every data property, so with the same state to travel on with.
\<close>

theorem migration_roundtrip:
  assumes old: "travels s" and new: "travels s0" "\<forall>p \<in> set (own s0). is_data (snd p)"
    and same: "set (akeys (own s0)) \<subseteq> set (akeys (state_props s))"
    and sent: "json_stringify (getState s) = JStr t" and arrived: "setState (JStr t) s0 = (r, s1)"
  shows "r = Inr () \<and> map_of (state_props s1) = map_of (state_props s) \<and>
    (\<forall>k v. map_of (state_props s) k = Some v \<longrightarrow> this_get k s = v \<and> this_get k s1 = v)"
proof -
  let ?sp = "state_props s"
  have d: "distinct (akeys ?sp)" using old by (rule distinct_state_props)
  have "json_parse t = Inr (JObj ?sp)"
    using json_state [OF old] sent
    by (simp add: json_stringify_def json_value_jsonable getState_props [OF old] flip: json_parse_render)
  from setState_parsed [OF this, of s0] arrived have r: "r = Inr ()"
    and s1: "s1 = s0\<lparr>own := fold (\<lambda>(k, v). aput k v) ?sp (own s0)\<rparr>" by auto
  have "distinct (akeys (own s0))" using new(1) by (simp add: travels_def)
  with d s1 have "map_of (own s1) = map_of (own s0) ++ map_of ?sp" by (simp add: fold_aput_map_of)
  also have "\<dots> = map_of ?sp"
    using same
    by (auto simp: fun_eq_iff map_add_def split: option.split) (metis map_of_akeys subsetD)
  finally have m: "map_of (own s1) = map_of ?sp" .
  have dom: "set (akeys (own s1)) = set (akeys ?sp)"
    using m by (metis akeys_def dom_map_of_conv_image_fst set_map)
  have data: "\<forall>p \<in> set (own s1). is_data (snd p)"
  proof
    fix p assume "p \<in> set (own s1)"
    moreover have "distinct (akeys (own s1))"
      using s1 \<open>distinct (akeys (own s0))\<close> alist_store.ok_puts by auto
    ultimately have "map_of ?sp (fst p) = Some (snd p)"
      using m by (metis map_of_distinct_iff prod.collapse)
    then show "is_data (snd p)" using state_props_data map_of_in_set by (metis snd_conv)
  qed
  have "filter (\<lambda>p. fst p \<notin> set (akeys (own s1))) (proto s1) = []"
    using new(1) s1 dom base_in_state [OF old] by (auto simp: travels_def Agent_def)
  with data have sp1: "state_props s1 = own s1" by (simp add: state_props_def)
  have "this_get k s = v \<and> this_get k s1 = v" if "map_of ?sp k = Some v" for k v
    using this_get_state [OF old that] that m by (simp add: this_get_def)
  with r m sp1 show ?thesis by auto
qed


theorem migration_roundtrip_witness:
  "let s = load_agent (aput ''aid'' (createAid (JStr ''M'') (JStr ''h'')) MobileAgent);
       (r, s1) = setState (JStr (render (getState s))) (load_agent MobileAgent)
   in r = Inr () \<and> this_get ''num'' s1 = JNum 42"
proof -
  let ?s = "load_agent (aput ''aid'' (createAid (JStr ''M'') (JStr ''h'')) MobileAgent)"
  have t: "travels ?s" "travels (load_agent MobileAgent)"
    by (auto simp: travels_def load_agent_def MobileAgent_def createAid_def is_data_def)
  have p: "state_props ?s = [(''num'', JNum 42), (''aid'', createAid (JStr ''M'') (JStr ''h'')),
      (''radigostHelper'', JNull)]"
    by (simp add: state_props_def load_agent_def MobileAgent_def Agent_def is_data_def createAid_def)
  have j: "json_stringify (getState ?s) = JStr (render (getState ?s))"
    using json_state [OF t(1)] by (simp add: json_stringify_def json_value_jsonable)
  show ?thesis
    using migration_roundtrip [OF t _ _ j prod.collapse [symmetric]] p
    by (auto simp: Let_def case_prod_unfold load_agent_def MobileAgent_def is_data_def)
qed

end
