(* ===== verification/Controllers.thy ===== *)
theory Controllers
  imports Radigost
begin

text \<open>
  The pages that use the platform and the server: the client-side and server-side examples
  (\<open>app/components/agent-examples\<close>) and the agent runner with its dialog
  (\<open>app/components/agent-runner\<close>). A controller is its state and one function per action
  the page offers; actions that only talk to the server are modelled by their requests.
\<close>

section \<open>Client-side examples\<close>

text \<open>The functions the two client controllers pass to observers.\<close>

datatype client_callback = AlertMessage | PushRemoteMessage

text \<open>\<open>AgentExamplesClientController\<close>.\<close>

definition examples_platform :: "client_callback radigost" where
  "examples_platform = createRadigost (JStr ''Examples'') JUndef"

definition runHelloWorld :: "(client_callback radigost, unit) comp" where
  "runHelloWorld =
    (let helloWorldObserver = createAgentObserver (CbFn AlertMessage) CbUndef CbUndef in
    bindM (start (JStr ''/siebog/js/agents/helloWorld.js'') (JStr ''HelloWorld'')
      (Obs helloWorldObserver) JNull JUndef) (\<lambda>aid.
    let message = createACLMessage (performative ''REQUEST'') in
    bindM (liftE (receivers_of message)) (\<lambda>rs.
    bindM (liftE (js_set message ''receivers'' (JArr (rs @ [aid])))) (\<lambda>message.
    bindM (liftE (js_set message ''interceptor'' (JObj
      [(''preconditions'', JObj [(''messageProcessed'', JBool False)]),
       (''postconditions'', JObj [(''messageProcessed'', JBool True)])]))) post_comp))))"

definition runMobileAgent :: "(client_callback radigost, unit) comp" where
  "runMobileAgent =
    bindM (start (JStr ''/siebog/js/agents/mobileAgent.js'') (JStr ''MobileAgent'') ObsNull
      JUndef JUndef) (\<lambda>aid. ret ())"

text \<open>The texts \<open>$window.alert\<close> has shown.\<close>

fun alerts :: "(client_callback \<times> js list) list \<Rightarrow> js list" where
  "alerts [] = []"
| "alerts ((AlertMessage, [aid, message]) # cs) = message # alerts cs"
| "alerts (c # cs) = alerts cs"

section \<open>Remote agents\<close>

text \<open>\<open>AgentExamplesClientRemoteController\<close>.\<close>

record remote_controller =
  rc_platform :: "client_callback radigost"
  rc_content :: js
  rc_newAgent :: js
  rc_remoteAgents :: "js list"
  rc_remoteMessageList :: "string list"

definition create_remote_controller :: remote_controller where
  "create_remote_controller =
    \<lparr>rc_platform = createRadigost (JStr ''xjaf'') (JBool True), rc_content = JStr '''',
     rc_newAgent = JUndef, rc_remoteAgents = [], rc_remoteMessageList = []\<rparr>"

definition createNewRemoteObserver :: "client_callback observer" where
  "createNewRemoteObserver = createAgentObserver (CbFn PushRemoteMessage) CbUndef CbUndef"

text \<open>The observer's function: the current date, as text, and the message.\<close>

definition push_remote_message :: "string \<Rightarrow> js \<Rightarrow> remote_controller \<Rightarrow> remote_controller" where
  "push_remote_message date message c =
    c\<lparr>rc_remoteMessageList := rc_remoteMessageList c @ [date @ '' : '' @ to_str message]\<rparr>"

definition on_platform :: "(client_callback radigost, 'a) comp \<Rightarrow> (remote_controller, 'a) comp" where
  "on_platform m c = (case m (rc_platform c) of (r, t) \<Rightarrow> (r, c\<lparr>rc_platform := t\<rparr>))"

definition start_remote :: "js \<Rightarrow> js \<Rightarrow> js \<Rightarrow> (remote_controller, unit) comp" where
  "start_remote name args recreate =
    bindM (on_platform (start (JStr ''/siebog/js/agents/remoteAgent.js'') name
      (Obs createNewRemoteObserver) args recreate)) (\<lambda>aid.
    modS (\<lambda>c. c\<lparr>rc_remoteAgents := rc_remoteAgents c @ [aid]\<rparr>))"

text \<open>One running agent of the server's answer: a stub other than MobileAgent is restarted.\<close>

definition recreate_stub :: "js \<Rightarrow> (remote_controller, unit) comp" where
  "recreate_stub agent =
    bindM (liftE (js_get agent ''agClass'')) (\<lambda>cls.
    bindM (liftE (js_get cls ''ejbName'')) (\<lambda>ejb.
    if strict_eq ejb (JStr ''RadigostStub'') then
      bindM (liftE (js_get agent ''name'')) (\<lambda>name.
        if \<not> strict_eq name (JStr ''MobileAgent'') then start_remote name JNull (JBool True)
        else ret ())
    else ret ()))"

text \<open>What \<open>angular.forEach\<close> visits: elements of a list, values of an object, else nothing.\<close>

definition each_items :: "js \<Rightarrow> js list" where
  "each_items v = (case v of JArr xs \<Rightarrow> xs | JObj ps \<Rightarrow> map snd ps | JStr s \<Rightarrow> map (\<lambda>c. JStr [c]) s | _ \<Rightarrow> [])"

definition remote_getRunning_response :: "js \<Rightarrow> (remote_controller, unit) comp" where
  "remote_getRunning_response data = forM (each_items data) recreate_stub"

definition runRemoteAgent :: "(remote_controller, unit) comp" where
  "runRemoteAgent =
    bindM (getS rc_newAgent) (\<lambda>name.
    seqM (start_remote name JUndef JUndef)
    (modS (\<lambda>c. c\<lparr>rc_newAgent := JStr ''''\<rparr>)))"

definition remote_message :: "js \<Rightarrow> js \<Rightarrow> js \<Rightarrow> js \<Rightarrow> js_error + js" where
  "remote_message targetName targetHost host content =
    (case js_set (createACLMessage (performative ''INFORM'')) ''receivers''
        (JArr [JObj [(''name'', targetName), (''host'', targetHost), (''radigost'', JBool True)]]) of
       Inl e \<Rightarrow> Inl e
     | Inr m \<Rightarrow> js_set m ''content''
        (JStr (''Radigost@'' @ to_str host @ '' says: '' @ to_str content)))"

definition remote_sendMessage :: "js \<Rightarrow> js \<Rightarrow> (remote_controller, unit) comp" where
  "remote_sendMessage targetName targetHost =
    bindM (getS (\<lambda>c. rhost (rc_platform c))) (\<lambda>host.
    bindM (getS rc_content) (\<lambda>content.
    bindM (liftE (remote_message targetName targetHost host content)) (\<lambda>message.
    seqM (on_platform (postToServer message))
    (modS (\<lambda>c. c\<lparr>rc_content := JStr ''''\<rparr>)))))"

section \<open>Server-side examples\<close>

text \<open>\<open>AgentExamplesServerController\<close>: descriptions of agents and fixed messages.\<close>

definition agent_desc :: "string \<Rightarrow> string \<Rightarrow> string \<Rightarrow> string \<Rightarrow> js" where
  "agent_desc ejb module_name path name = JObj
    [(''agClass'', JObj [(''ejbName'', JStr ejb), (''module'', JStr module_name), (''path'', JStr path)]),
     (''name'', JStr name),
     (''host'', JStr ''xjaf'')]"

definition createTestAgent :: "js_error + http_request" where
  "createTestAgent =
    startAgent (agent_desc ''TestAgent'' ''TestAgent'' ''/TestAgent/agents/xjaf'' ''test'') JUndef"

definition receiver_desc :: "string \<Rightarrow> string \<Rightarrow> string \<Rightarrow> (string \<times> js) list \<Rightarrow> js" where
  "receiver_desc name host str cls = JObj
    [(''name'', JStr name), (''host'', JStr host), (''str'', JStr str), (''agClass'', JObj cls)]"

definition sendMessageToTestAgent :: http_request where
  "sendMessageToTestAgent = sendMessage (JObj
    [(''receivers'', JArr [receiver_desc ''test'' ''xjaf'' ''test@xjaf''
        [(''module'', JStr ''TestAgent''), (''ejbName'', JStr ''TestAgent''), (''path'', JStr '''')]]),
     (''performative'', JStr ''INFORM''),
     (''content'', JStr ''hello'')])"

definition createPingAndPongAgents :: "(js_error + http_request) list" where
  "createPingAndPongAgents =
    [startAgent (agent_desc ''Ping'' ''siebog'' ''/siebog/agents/xjaf'' ''ping'') JUndef,
     startAgent (agent_desc ''Pong'' ''siebog'' ''/siebog/agents/xjaf'' ''pong'') JUndef]"

definition sendMessageToPingAgent :: http_request where
  "sendMessageToPingAgent = sendMessage (JObj
    [(''receivers'', JArr [receiver_desc ''ping'' ''xjaf'' ''ping@xjaf''
        [(''module'', JStr ''siebog''), (''ejbName'', JStr ''Ping''), (''path'', JStr '''')]]),
     (''performative'', JStr ''REQUEST''),
     (''content'', JStr ''pong'')])"

definition createMapAgent :: "js_error + http_request" where
  "createMapAgent =
    startAgent (agent_desc ''Map'' ''siebog'' ''/siebog/agents/aco/map'' ''Map'')
      (JStr ''arg[fileName].value=ulysses16.tsp'')"

definition createAntAgents :: "(js_error + http_request) list" where
  "createAntAgents =
    map (\<lambda>i. startAgent (agent_desc ''Ant'' ''siebog'' ''/siebog/agents/aco/ant'' (''Ant'' @ nat_str i))
      (JStr ''arg[host].value=localhost'')) [0..<10]"

definition sendMessageToCancelAntSearch :: http_request where
  "sendMessageToCancelAntSearch = sendMessage (JObj
    [(''receivers'', JArr [receiver_desc ''Map'' ''xjaf'' ''Map@xjaf''
        [(''ejbName'', JStr ''Map''), (''module'', JStr ''siebog''), (''path'', JStr '''')]]),
     (''performative'', JStr ''CANCEL''),
     (''content'', JStr '''')])"

section \<open>The agent runner\<close>

text \<open>
  \<open>AgentRunnerModalController\<close>: the dialog closes with the description of an agent, or is
  dismissed; the enter key confirms.
\<close>

record modal =
  armc_agent :: js
  armc_agentName :: js

datatype modal_result = Closed js | Dismissed string | StillOpen

definition open_modal :: "js \<Rightarrow> modal" where
  "open_modal agent = \<lparr>armc_agent = agent, armc_agentName = JStr ''''\<rparr>"

definition modal_ok :: "modal \<Rightarrow> modal_result" where
  "modal_ok m = Closed (JObj
    [(''name'', armc_agentName m), (''host'', JStr ''xjaf''), (''agClass'', armc_agent m)])"

definition modal_cancel :: "modal \<Rightarrow> modal_result" where
  "modal_cancel m = Dismissed ''cancel''"

definition modal_keyFn :: "int \<Rightarrow> modal \<Rightarrow> modal_result" where
  "modal_keyFn keyCode m = (if keyCode = 13 then modal_ok m else StillOpen)"

text \<open>\<open>AgentRunnerController\<close>: start the agent the dialog returned; send the message built.\<close>

record runner =
  arc_accordian :: "(string \<times> bool) list"
  arc_agentClasses :: js
  arc_performatives :: js
  arc_request :: js

definition create_runner :: "js \<Rightarrow> js \<Rightarrow> runner" where
  "create_runner performatives agentClasses =
    \<lparr>arc_accordian = [(''agents'', True), (''messages'', True)], arc_agentClasses = agentClasses,
     arc_performatives = performatives, arc_request = JObj [(''receivers'', JArr [])]\<rparr>"

definition runner_newAgent :: "modal_result \<Rightarrow> (js_error + http_request) list" where
  "runner_newAgent result = (case result of Closed selectedItem \<Rightarrow> [startAgent selectedItem JUndef] | _ \<Rightarrow> [])"

definition runner_sendMessage :: "runner \<Rightarrow> http_request" where
  "runner_sendMessage c = sendMessage (arc_request c)"

section \<open>Lemmas\<close>

lemma modal_to_request:
  assumes "js_get cls ''module'' = Inr m" "js_get cls ''ejbName'' = Inr e"
  shows "runner_newAgent (modal_keyFn 13 ((open_modal cls)\<lparr>armc_agentName := name\<rparr>)) =
    [Inr \<lparr>verb = ''PUT'',
      target = ''/siebog/rest/agents/running/'' @ to_str m @ ''$'' @ to_str e @ ''/'' @ to_str name,
      content_type = Some form_type, body = Some (JObj [])\<rparr>]"
  using assms
  by (simp add: runner_newAgent_def modal_keyFn_def modal_ok_def open_modal_def startAgent_def
      agentManagerUrl_def)

end
