(* ===== verification/Browser.thy ===== *)
theory Browser
  imports RadigostProps AgentWorker Controllers
begin

text \<open>
  A page at work: the platform, the workers it created, and the browser's queues between
  them. Steps interleave freely: the page acts (a click, a text from the server's socket),
  a worker takes the next message of its queue, or the page takes the next message the
  workers posted. A worker runs the script of its address (\<open>AgentWorker.script\<close>); one
  whose address names no bundled script never answers.
\<close>

record 'cb page =
  platform :: "'cb radigost"
  wstate :: "nat \<Rightarrow> worker option"
  consumed :: "nat \<Rightarrow> nat"
  inbox :: "js list"

definition new_page :: "'cb radigost \<Rightarrow> 'cb page" where
  "new_page s = \<lparr>platform = s, wstate = (\<lambda>_. None), consumed = (\<lambda>_. 0), inbox = []\<rparr>"

definition queue :: "'cb page \<Rightarrow> nat \<Rightarrow> js list" where
  "queue p w = sent_to w (posted (platform p))"

text \<open>The worker before its next message: loaded when it takes the first one.\<close>

definition loaded :: "'cb page \<Rightarrow> nat \<Rightarrow> (string \<times> js) list \<Rightarrow> worker" where
  "loaded p w props0 = (case wstate p w of None \<Rightarrow> load_agent props0 | Some s \<Rightarrow> s)"

definition worker_turn :: "behaviour \<Rightarrow> (string \<times> js) list \<Rightarrow> nat \<Rightarrow> 'cb page \<Rightarrow> 'cb page" where
  "worker_turn b props0 w p =
    (let s = loaded p w props0;
         t = snd (worker_onmessage b (queue p w ! consumed p w) s)
     in p\<lparr>wstate := (wstate p)(w := Some t),
          consumed := (consumed p)(w := Suc (consumed p w)),
          inbox := inbox p @ drop (length (out s)) (out t)\<rparr>)"

definition page_turn :: "js \<Rightarrow> 'cb page \<Rightarrow> 'cb page" where
  "page_turn m p = p\<lparr>platform := api_step (WorkerMsg m) (platform p), inbox := tl (inbox p)\<rparr>"

text \<open>
  Messages without an opcode are the agents' own; a page or the server sends no other kind.
\<close>

definition plain :: "js \<Rightarrow> bool" where
  "plain m \<longleftrightarrow> js_get m ''opcode'' = Inr JUndef"

fun decoded :: "string \<Rightarrow> js_error + js" where
  "decoded t =
    (case json_parse t of
       Inl e \<Rightarrow> Inl e
     | Inr m0 \<Rightarrow>
        (case decode_field ''sender'' m0 of
           Inl e \<Rightarrow> Inl e
         | Inr m1 \<Rightarrow>
            (case decode_field ''replyTo'' m1 of
               Inl e \<Rightarrow> Inl e
             | Inr m2 \<Rightarrow> decode_receivers m2)))"

fun ordinary :: "'cb api \<Rightarrow> bool" where
  "ordinary (Start url name ob args recreate) = (cloneable name \<and> cloneable args)"
| "ordinary (Post m) = plain m"
| "ordinary (PostToClient m) = plain m"
| "ordinary (SocketMsg t) = (case decoded t of Inl e \<Rightarrow> True | Inr m \<Rightarrow> plain m)"
| "ordinary (WorkerMsg m) = False"
| "ordinary _ = True"

inductive page_step :: "'cb page \<Rightarrow> 'cb page \<Rightarrow> bool" where
  page_acts: "ordinary e \<Longrightarrow> page_step p (p\<lparr>platform := api_step e (platform p)\<rparr>)"
| worker_acts: "\<lbrakk>w < length (workers (platform p)); consumed p w < length (queue p w);
    script (to_str (workers (platform p) ! w)) = Some (props0, b)\<rbrakk> \<Longrightarrow>
    page_step p (worker_turn b props0 w p)"
| page_hears: "inbox p = m # ms \<Longrightarrow> page_step p (page_turn m p)"

inductive_cases page_stepE: "page_step p q"

text \<open>The steps the browser takes by itself, without a new click or message from outside.\<close>

inductive internal_step :: "'cb page \<Rightarrow> 'cb page \<Rightarrow> bool" where
  "\<lbrakk>w < length (workers (platform p)); consumed p w < length (queue p w);
    script (to_str (workers (platform p) ! w)) = Some (props0, b)\<rbrakk> \<Longrightarrow>
    internal_step p (worker_turn b props0 w p)"
| "inbox p = m # ms \<Longrightarrow> internal_step p (page_turn m p)"

inductive_cases internal_stepE: "internal_step p q"

lemma internal_page_step: "internal_step p q \<Longrightarrow> page_step p q"
  by (induction rule: internal_step.induct) (auto intro: page_step.intros)

section \<open>The queues hold one INIT and then ordinary messages\<close>

definition tails_plain :: "'cb radigost \<Rightarrow> bool" where
  "tails_plain s \<longleftrightarrow> (\<forall>w < length (workers s). \<forall>m \<in> set (tl (sent_to w (posted s))). plain m)"

definition queues_inv :: "'cb radigost \<Rightarrow> bool" where
  "queues_inv s \<longleftrightarrow> platform_inv s \<and> tails_plain s"

lemma queues_inv_frame:
  assumes "queues_inv s" "rhost t = rhost s" "running t = running s" "workers t = workers s"
    "posted t = posted s"
  shows "queues_inv t"
  using assms platform_inv_frame [of s t] by (simp add: queues_inv_def tails_plain_def)

lemma tails_plain_postMessage:
  assumes "platform_inv s" "tails_plain s" "plain m" "w < length (workers s)"
  shows "tails_plain (snd (postMessage w m s))"
proof -
  have "sent_to v (posted s) \<noteq> []" if "v < length (workers s)" for v
    using assms(1) that by (fastforce simp: platform_inv_def init_first_def)
  with assms show ?thesis by (auto simp: tails_plain_def postMessage_cases)
qed

lemma keeps_plain_deliver:
  assumes "plain m"
  shows "keeps queues_inv (bindM (getAgent r) (\<lambda>agent. deliver agent m))"
proof (rule keepsI)
  fix s :: "'a radigost" assume inv: "queues_inv s"
  have p: "platform_inv (snd (bindM (getAgent r) (\<lambda>agent. deliver agent m) s))"
    using inv by (intro keepsD [OF keeps_lookup_deliver]) (simp add: queues_inv_def)
  have "tails_plain (snd (bindM (getAgent r) (\<lambda>agent. deliver agent m) s))"
  proof (cases "\<exists>k a w. js_get r ''str'' = Inr k \<and> map_of (running s) (to_str k) = Some a \<and> ag_worker a = Some w")
    case True
    then obtain k a w where e: "js_get r ''str'' = Inr k" "map_of (running s) (to_str k) = Some a"
      "ag_worker a = Some w" by blast
    then have "(to_str k, a) \<in> set (running s)" by (simp add: map_of_in_set)
    with inv e(3) have "w < length (workers s)"
      by (fastforce simp: queues_inv_def platform_inv_def table_ok_def)
    with inv e tails_plain_postMessage [OF _ _ assms, of s w] show ?thesis
      by (simp add: bindM_def getAgent_cases deliver_def queues_inv_def)
  next
    case False
    with inv have "snd (bindM (getAgent r) (\<lambda>agent. deliver agent m) s) = s"
      by (auto simp: bindM_def getAgent_cases deliver_def ret_def split: sum.split option.split)
    with inv show ?thesis by (simp add: queues_inv_def)
  qed
  with p show "queues_inv (snd (bindM (getAgent r) (\<lambda>agent. deliver agent m) s))"
    by (simp add: queues_inv_def)
qed

lemma keeps_plain_postToClient: "plain m \<Longrightarrow> keeps queues_inv (postToClient m)"
  unfolding postToClient_def by (intro keeps_bind keeps_pure keeps_forM keeps_plain_deliver)

lemma keeps_plain_post_loop: "plain m \<Longrightarrow> keeps queues_inv (post_loop m rs server)"
proof (induction rs arbitrary: server)
  case (Cons r rs)
  note step = keeps_seq [OF keeps_plain_deliver [OF Cons.prems] Cons.IH [OF Cons.prems], folded seqM_assoc_bind]
  show ?case
    using Cons by (auto intro!: keeps_bind [OF keeps_pure(3)] keeps_if step)
qed (simp add: keeps_pure)

lemma keeps_q_request: "keeps queues_inv (send_request r)"
  unfolding send_request_def by (intro keeps_rules keeps_modS) (auto intro: queues_inv_frame)

lemma keeps_plain_post_comp:
  assumes "plain m"
  shows "keeps queues_inv (post_comp m)"
proof (rule keepsI)
  fix s :: "'a radigost" assume "queues_inv s"
  then have loop: "queues_inv (snd (post_loop m rs [] s))" for rs
    by (rule keepsD [OF keeps_plain_post_loop [OF assms]])
  have call: "queues_inv (snd (xjaf_post m' t))" if "queues_inv t" for m' and t :: "'a radigost"
    using that by (auto simp: xjaf_post_def throw_def keepsD [OF keeps_q_request])
  show "queues_inv (snd (post_comp m s))"
    using \<open>queues_inv s\<close> loop call
    by (auto simp: post_comp_def post_def split: sum.splits prod.splits) (metis snd_conv)+
qed

lemma keeps_q_observer: "keeps queues_inv (observer_call slot a xs)"
  unfolding observer_call_def call_callback_def
  by (auto intro!: keeps_rules keeps_modS intro: queues_inv_frame
      split: option.split observer_slot.split callback.split)

lemma keeps_q_onWorkerMessage: "keeps queues_inv (onWorkerMessage m)"
proof (cases "plain m")
  case True
  then show ?thesis
    by (simp add: onWorkerMessage_def plain_def keeps_def)
      (use keeps_plain_post_comp [OF True] in \<open>simp add: keeps_def\<close>)
next
  case False
  have e: "keeps queues_inv (if opcode = JUndef then post_comp m else n)"
    if "js_get m ''opcode'' = Inr opcode" "keeps queues_inv n" for opcode n
    using that False by (simp add: plain_def)
  show ?thesis
  proof (cases "js_get m ''opcode''")
    case (Inl err)
    then show ?thesis by (simp add: onWorkerMessage_def keeps_def)
  next
    case (Inr opcode)
    have "keeps queues_inv (if opcode = JUndef then post_comp m
      else if strict_eq opcode op_INIT then
        bindM (liftE (js_get m ''aid'')) (\<lambda>aid.
        bindM (getAgent aid) (\<lambda>ag. observer_call onStart ag [aid]))
      else if strict_eq opcode op_STEP then
        bindM (liftE (js_get m ''aid'')) (\<lambda>aid.
        bindM (getAgent aid) (\<lambda>ag.
        bindM (liftE (js_get m ''info'')) (\<lambda>info. observer_call onStep ag [aid, info])))
      else if strict_eq opcode op_MOVE_TO_SERVER then
        bindM (liftE (js_get m ''aid'')) (\<lambda>aid.
        bindM (getAgent aid) (\<lambda>ag.
          case ag of
            None \<Rightarrow> ret ()
          | Some a \<Rightarrow>
              if ag_url a \<noteq> JNull then
                bindM (liftE (js_get m ''state'')) (\<lambda>state.
                  send_request (Inr (accept (ag_url a) aid state)))
              else ret ()))
      else throw (ErrorMsg (''Unrecognized OpCode: '' @ to_str (json_stringify m))))"
      by (rule e [OF Inr]) (intro keeps_rules keeps_q_observer keeps_q_request)
    with Inr show ?thesis by (simp add: onWorkerMessage_def keeps_def)
  qed
qed


lemma queues_inv_started:
  assumes "queues_inv s"
  shows "queues_inv (started url name ob args recreate s)"
proof -
  have "sent_to (length (workers s)) (posted s) = []"
    using assms by (intro sent_to_empty) (auto simp: queues_inv_def platform_inv_def queues_ok_def)
  with assms have "tails_plain (started url name ob args recreate s)"
    by (auto simp: queues_inv_def tails_plain_def started_def Let_def less_Suc_eq)
  with assms show ?thesis by (simp add: queues_inv_def inv_started)
qed

lemma keeps_q_socket_out:
  "keeps queues_inv socket_onOpen" "keeps queues_inv socket_onClose" "keeps queues_inv (socket_onError e)"
  unfolding socket_onOpen_def socket_onClose_def socket_onError_def
  by (intro keeps_rules keeps_modS; auto intro: queues_inv_frame)+

lemma socket_onMessage_decoded:
  "socket_onMessage t = (case decoded t of Inl e \<Rightarrow> throw e | Inr m \<Rightarrow> postToClient m)"
  by (auto simp: fun_eq_iff socket_onMessage_def throw_def split: sum.split)

lemma queues_inv_api:
  assumes "queues_inv s" "ordinary e \<or> (\<exists>m. e = WorkerMsg m)"
  shows "queues_inv (api_step e s)"
proof (cases "\<exists>url name ob args recreate. e = Start url name ob args recreate")
  case True
  with assms show ?thesis
    by (auto simp: api_step_def start_ok bindM_def ret_def queues_inv_started
        queues_inv_def [of s] platform_inv_def [of s])
next
  case False
  with assms(2) have "keeps queues_inv (api_call e)"
    by (cases e)
      (auto simp: postToServer_def keeps_plain_post_comp keeps_q_request keeps_plain_postToClient
        keeps_q_onWorkerMessage keeps_q_socket_out socket_onMessage_decoded keeps_pure
        simp del: decoded.simps split: sum.splits)
  with assms(1) show ?thesis by (simp add: api_step_def keepsD)
qed

section \<open>Growth: nothing already sent is taken back\<close>

definition grows :: "'cb radigost \<Rightarrow> 'cb radigost \<Rightarrow> bool" where
  "grows s t \<longleftrightarrow> rhost t = rhost s \<and> (\<exists>us. workers t = workers s @ us) \<and>
     (\<exists>ms. posted t = posted s @ ms) \<and> set (akeys (running s)) \<subseteq> set (akeys (running t))"

lemma grows_refl: "grows s s"
  by (auto simp: grows_def)

lemma grows_trans: "grows s t \<Longrightarrow> grows t u \<Longrightarrow> grows s u"
  by (auto simp: grows_def)

lemma keeps_growsI: "(\<And>t. grows t (snd (m t))) \<Longrightarrow> keeps (grows s) m"
  by (auto simp: keeps_def intro: grows_trans)

lemma keeps_grows_modS: "(\<And>t. grows t (f t)) \<Longrightarrow> keeps (grows s) (modS f)"
  by (rule keeps_growsI) (simp add: modS_def)

lemma keeps_grows_basic [keeps_rules]:
  "keeps (grows s) (postMessage w m)" "keeps (grows s) (send_request r)"
  "keeps (grows s) (call_callback c xs)" "keeps (grows s) (newWorker u)"
  "keeps (grows s) (putAgent aid a)"
  by (rule keeps_growsI;
      auto simp: grows_def postMessage_cases send_request_def call_callback_def newWorker_def
        putAgent_def comp_simps split: sum.split callback.split)+

lemma keeps_grows_routing [keeps_rules]:
  "keeps (grows s) (deliver a m)" "keeps (grows s) (observer_call slot a xs)"
  "keeps (grows s) (xjaf_post m)"
  unfolding deliver_def observer_call_def xjaf_post_def
  by (auto intro!: keeps_rules split: option.split observer_slot.split)

lemma keeps_grows_post_loop [keeps_rules]: "keeps (grows s) (post_loop m rs server)"
  by (induction rs arbitrary: server) (auto intro!: keeps_rules)

lemma keeps_grows_post_comp [keeps_rules]: "keeps (grows s) (post_comp m)"
proof (rule keeps_growsI)
  fix t :: "'a radigost"
  have loop: "grows t (snd (post_loop m rs [] t))" for rs
    by (rule keepsD [OF keeps_grows_post_loop grows_refl])
  have call: "grows t (snd (xjaf_post m' u))" if "grows t u" for m' u
    using that by (rule keepsD [OF keeps_grows_routing(3)])
  show "grows t (snd (post_comp m t))"
    using grows_refl [of t] loop call
    by (auto simp: post_comp_def post_def split: sum.splits prod.splits) (metis snd_conv)+
qed

lemma keeps_grows_start [keeps_rules]: "keeps (grows s) (start url name ob args recreate)"
  unfolding start_def Let_def by (intro keeps_rules)

lemma keeps_grows_messages [keeps_rules]:
  "keeps (grows s) (postToClient m)" "keeps (grows s) (postToServer m)"
  "keeps (grows s) (onWorkerMessage m)" "keeps (grows s) (socket_onMessage t)"
  unfolding postToClient_def postToServer_def onWorkerMessage_def socket_onMessage_def
  by (intro keeps_rules)+

lemma keeps_grows_socket [keeps_rules]:
  "keeps (grows s) socket_onOpen" "keeps (grows s) socket_onClose"
  "keeps (grows s) (socket_onError e)"
  unfolding socket_onOpen_def socket_onClose_def socket_onError_def
  by (intro keeps_rules keeps_grows_modS; simp add: grows_def)+

lemma grows_api: "grows s (api_step e s)"
proof -
  have "keeps (grows s) (api_call e)" by (cases e) (simp_all add: keeps_grows_post_comp
      keeps_grows_messages keeps_grows_socket keeps_bind [OF keeps_grows_start] keeps_pure)
  then have "grows s (snd (api_call e s))" by (rule keepsD) (rule grows_refl)
  then show ?thesis by (simp add: api_step_def)
qed

lemma grows_queue: "grows s t \<Longrightarrow> \<exists>l. sent_to w (posted t) = sent_to w (posted s) @ l"
  by (auto simp: grows_def)


section \<open>What a bundled agent's worker keeps\<close>

definition speaks_for :: "js \<Rightarrow> js \<Rightarrow> bool" where
  "speaks_for aid m \<longleftrightarrow> js_get m ''aid'' = Inr aid \<and>
     (\<exists>op. js_get m ''opcode'' = Inr op \<and> op \<in> {op_INIT, op_STEP, op_MOVE_TO_SERVER})"

definition identified :: "js \<Rightarrow> worker \<Rightarrow> bool" where
  "identified aid s \<longleftrightarrow> registered s \<and> map_of (own s) ''aid'' = Some aid \<and>
     (\<forall>m \<in> set (out s). speaks_for aid m)"

lemma identified_this: "identified aid s \<Longrightarrow> this_get ''aid'' s = aid"
  by (simp add: identified_def this_get_def)

lemma keeps_read:
  assumes "\<And>s. P s \<Longrightarrow> g s = x" "keeps P (f x)"
  shows "keeps P (bindM (getS g) f)"
  using assms by (auto simp: keeps_def)

lemma keeps_ident_post: "speaks_for aid m \<Longrightarrow> keeps (identified aid) (agent_post m)"
  by (auto simp: agent_post_def keeps_def identified_def clone_def comp_simps split: sum.split)

lemma keeps_ident_step [keeps_rules]: "keeps (identified aid) (agent_onStep v)"
  unfolding agent_onStep_def
  by (rule keeps_read [OF identified_this], assumption, rule keeps_ident_post)
    (simp add: speaks_for_def op_defs)

lemma keeps_ident_set [keeps_rules]: "k \<noteq> ''aid'' \<Longrightarrow> keeps (identified aid) (this_set k v)"
  unfolding this_set_def by (rule keeps_modS) (simp add: identified_def)

lemma keeps_ident_log [keeps_rules]:
  "keeps (identified aid) (console_log t)" "keeps (identified aid) (print_line t)"
  unfolding console_log_def print_line_def by (rule keeps_modS; simp add: identified_def)+

lemma keeps_ident_move [keeps_rules]: "keeps (identified aid) moveToServer"
  unfolding moveToServer_def
  by (rule keeps_bind [OF keeps_pure(4)], rule keeps_read [OF identified_this], assumption,
      rule keeps_ident_post) (simp add: speaks_for_def op_defs)

lemma keeps_ident_assert [keeps_rules]: "keeps P (assertState e)"
  by (rule keepsI) (simp add: assertState_def assert_props_state)

lemma keeps_ident_check [keeps_rules]:
  "keeps (identified aid) (checkPreconditions i)" "keeps (identified aid) (checkPostconditions i)"
  unfolding checkPreconditions_def checkPostconditions_def by (intro keeps_rules)+

lemma bundled_keeps:
  assumes "script u = Some (props0, b)"
  shows "keeps (identified aid) (onInit b args)" "keeps (identified aid) (onMessage b m)"
proof -
  have "b \<in> {helloWorld_behaviour, mobileAgent_behaviour, remoteAgent_behaviour}"
    using assms by (auto simp: script_def split: if_splits)
  then show "keeps (identified aid) (onInit b args)"
    by (auto simp: helloWorld_behaviour_def mobileAgent_behaviour_def remoteAgent_behaviour_def
        agent_behaviour_def MobileAgent_onInit_def intro!: keeps_rules)
  have "keeps (identified aid) (HelloWorld_onMessage m)"
    unfolding HelloWorld_onMessage_def by (intro keeps_rules) simp
  moreover have "keeps (identified aid) (MobileAgent_onMessage m)"
    unfolding MobileAgent_onMessage_def by (intro keeps_rules)
  moreover have "keeps (identified aid) (RemoteAgent_onMessage m)"
    unfolding RemoteAgent_onMessage_def by (intro keeps_rules)
  ultimately show "keeps (identified aid) (onMessage b m)"
    using \<open>b \<in> _\<close> by (auto simp: helloWorld_behaviour_def mobileAgent_behaviour_def
        remoteAgent_behaviour_def agent_behaviour_def)
qed

lemma keeps_on_instance [keeps_rules]: "keeps P m \<Longrightarrow> keeps P (on_instance m)"
  unfolding on_instance_def by (intro keeps_rules)

lemma plain_message_keeps:
  assumes "script u = Some (props0, b)" "plain m" "identified aid s"
  shows "identified aid (snd (worker_onmessage b m s))"
proof -
  have "keeps (identified aid) (bindM (liftE (js_get m ''interceptor'')) (\<lambda>i.
      seqM (checkPreconditions i) (seqM (on_instance (onMessage b m)) (checkPostconditions i))))"
    by (intro keeps_rules bundled_keeps(2) [OF assms(1)])
  with assms(2,3) show ?thesis
    by (simp add: worker_onmessage_def plain_def op_defs keepsD)
qed

lemma init_message_identifies:
  assumes "script u = Some (props0, b)"
  shows "identified aid (snd (worker_onmessage b (init_message aid args) (load_agent props0)))"
proof -
  let ?s = "(load_agent props0)\<lparr>own := aput ''aid'' aid props0\<rparr>"
  have set_aid: "on_instance (this_set ''aid'' aid) (load_agent props0) = (Inr (), ?s)"
    by (simp add: on_instance_def load_agent_def this_set_def modS_def)
  have "identified aid ?s" by (simp add: identified_def load_agent_def)
  moreover have "keeps (identified aid) (seqM (on_instance (onInit b args))
      (agent_post (JObj [(''opcode'', op_INIT), (''aid'', aid)])))"
    by (intro keeps_rules bundled_keeps(1) [OF assms] keeps_ident_post)
      (simp add: speaks_for_def op_defs)
  ultimately have "identified aid (snd (seqM (on_instance (onInit b args))
      (agent_post (JObj [(''opcode'', op_INIT), (''aid'', aid)])) ?s))"
    by (rule keepsD [rotated])
  moreover have "worker_onmessage b (init_message aid args) (load_agent props0) =
      seqM (on_instance (onInit b args)) (agent_post (JObj [(''opcode'', op_INIT), (''aid'', aid)])) ?s"
    by (simp add: worker_onmessage_def init_message_def op_defs seqM_Inr set_aid)
  ultimately show ?thesis by simp
qed


section \<open>The invariant of a page\<close>

definition aid_key :: "js \<Rightarrow> js \<Rightarrow> string" where
  "aid_key name host = to_str name @ ''@'' @ to_str host"

text \<open>Whoever a worker was initialised as is in the table.\<close>

definition all_known :: "'cb radigost \<Rightarrow> bool" where
  "all_known s \<longleftrightarrow> (\<forall>w < length (workers s). \<forall>name args rest.
     sent_to w (posted s) = init_message (createAid name (rhost s)) args # rest \<longrightarrow>
     aid_key name (rhost s) \<in> set (akeys (running s)))"

definition of_agent :: "'cb radigost \<Rightarrow> js \<Rightarrow> bool" where
  "of_agent s aid \<longleftrightarrow>
     (\<exists>name. aid = createAid name (rhost s) \<and> aid_key name (rhost s) \<in> set (akeys (running s)))"

definition worker_ok :: "'cb page \<Rightarrow> nat \<Rightarrow> bool" where
  "worker_ok p w \<longleftrightarrow>
     (if consumed p w = 0 then wstate p w = None
      else w < length (workers (platform p)) \<and> consumed p w \<le> length (queue p w) \<and>
        (\<exists>aid args rest s. queue p w = init_message aid args # rest \<and> of_agent (platform p) aid \<and>
           wstate p w = Some s \<and> identified aid s))"

definition page_inv :: "'cb page \<Rightarrow> bool" where
  "page_inv p \<longleftrightarrow> queues_inv (platform p) \<and> all_known (platform p) \<and> (\<forall>w. worker_ok p w) \<and>
     (\<forall>m \<in> set (inbox p). \<exists>aid. speaks_for aid m \<and> of_agent (platform p) aid)"

lemma of_agent_grows: "grows s t \<Longrightarrow> of_agent s aid \<Longrightarrow> of_agent t aid"
  by (auto simp: of_agent_def grows_def)

lemma hd_grows:
  assumes "platform_inv s" "grows s t" "w < length (workers s)"
  shows "hd (sent_to w (posted t)) = hd (sent_to w (posted s))"
proof -
  have "sent_to w (posted s) \<noteq> []"
    using assms(1,3) by (fastforce simp: platform_inv_def init_first_def)
  with assms(2) show ?thesis by (auto simp: grows_def)
qed

lemma createAid_inj: "createAid n h = createAid n' h' \<longleftrightarrow> n = n' \<and> h = h'"
  by (auto simp: createAid_def)

lemma init_message_inj: "init_message a x = init_message b y \<longleftrightarrow> a = b \<and> x = y"
  by (auto simp: init_message_def)

lemma all_known_grows:
  assumes "platform_inv s" "all_known s" "grows s t" "workers t = workers s"
  shows "all_known t"
  unfolding all_known_def
proof (intro allI impI)
  fix w name args rest
  assume w: "w < length (workers t)"
    and q: "sent_to w (posted t) = init_message (createAid name (rhost t)) args # rest"
  have w': "w < length (workers s)" using w assms(4) by simp
  from assms(1) w' obtain n' a' r' where
    "sent_to w (posted s) = init_message (createAid n' (rhost s)) a' # r'"
    by (fastforce simp: platform_inv_def init_first_def)
  with hd_grows [OF assms(1,3) w'] q have "init_message (createAid n' (rhost s)) a'
      = init_message (createAid name (rhost t)) args" by simp
  then have n: "n' = name" by (simp add: init_message_inj createAid_inj)
  have "aid_key n' (rhost s) \<in> set (akeys (running s))"
    using assms(2) w' \<open>sent_to w (posted s) = _\<close> by (auto simp: all_known_def)
  with n assms(3) show "aid_key name (rhost t) \<in> set (akeys (running t))"
    by (auto simp: grows_def)
qed

lemma all_known_started:
  assumes "platform_inv s" "all_known s"
  shows "all_known (started url name ob args recreate s)"
  unfolding all_known_def
proof (intro allI impI)
  let ?t = "started url name ob args recreate s"
  fix w nm a rest
  assume w: "w < length (workers ?t)"
    and q: "sent_to w (posted ?t) = init_message (createAid nm (rhost ?t)) a # rest"
  show "aid_key nm (rhost ?t) \<in> set (akeys (running ?t))"
  proof (cases "w = length (workers s)")
    case True
    have "sent_to (length (workers s)) (posted s) = []"
      using assms(1) by (intro sent_to_empty) (auto simp: platform_inv_def queues_ok_def)
    with True q show ?thesis
      by (simp add: started_def Let_def init_message_inj createAid_inj aid_key_def)
  next
    case False
    with w q assms(2) show ?thesis
      by (auto simp: all_known_def started_def Let_def less_Suc_eq)
  qed
qed

lemma keeps_workers_routing [keeps_rules]:
  "keeps (\<lambda>t. workers t = ws) (postMessage w m)"
  "keeps (\<lambda>t. workers t = ws) (send_request r)"
  "keeps (\<lambda>t. workers t = ws) (call_callback c xs)"
  by (auto simp: keeps_def postMessage_cases send_request_def call_callback_def comp_simps
      split: sum.split callback.split)

lemma keeps_workers_deliver [keeps_rules]:
  "keeps (\<lambda>t. workers t = ws) (deliver a m)"
  "keeps (\<lambda>t. workers t = ws) (observer_call slot a xs)"
  "keeps (\<lambda>t. workers t = ws) (xjaf_post m)"
  unfolding deliver_def observer_call_def xjaf_post_def
  by (auto intro!: keeps_rules split: option.split observer_slot.split)

lemma keeps_workers_post_loop [keeps_rules]: "keeps (\<lambda>t. workers t = ws) (post_loop m rs server)"
  by (induction rs arbitrary: server) (auto intro!: keeps_rules)


lemma keeps_workers_post_comp [keeps_rules]: "keeps (\<lambda>t. workers t = ws) (post_comp m)"
proof (rule keepsI)
  fix t :: "'a radigost" assume t: "workers t = ws"
  have loop: "workers (snd (post_loop m rs [] t)) = ws" for rs
    using keeps_workers_post_loop t by (rule keepsD)
  have call: "workers (snd (xjaf_post m' u)) = ws" if "workers u = ws" for m' and u :: "'a radigost"
    using keeps_workers_deliver(3) that by (rule keepsD)
  show "workers (snd (post_comp m t)) = ws"
    using t loop call
    by (auto simp: post_comp_def post_def split: sum.splits prod.splits) (metis snd_conv)+
qed

lemma keeps_workers_modS:
  "(\<And>t. workers (f t) = workers t) \<Longrightarrow> keeps (\<lambda>t. workers t = ws) (modS f)"
  by (simp add: keeps_modS)

lemma keeps_workers_api:
  assumes "\<nexists>url name ob args recreate. e = Start url name ob args recreate"
  shows "keeps (\<lambda>t. workers t = ws) (api_call e)"
proof -
  have c: "keeps (\<lambda>t. workers t = ws) (postToClient m)" for m :: js
    unfolding postToClient_def by (intro keeps_rules)
  have w: "keeps (\<lambda>t. workers t = ws) (onWorkerMessage m)" for m :: js
    unfolding onWorkerMessage_def by (intro keeps_rules)
  have k: "keeps (\<lambda>t. workers t = ws) (socket_onMessage m)" for m
    unfolding socket_onMessage_def by (intro keeps_rules c)
  have o1: "keeps (\<lambda>t. workers t = ws) socket_onOpen"
    unfolding socket_onOpen_def by (auto intro!: keeps_rules keeps_workers_modS)
  have o2: "keeps (\<lambda>t. workers t = ws) socket_onClose"
    unfolding socket_onClose_def by (auto intro!: keeps_rules keeps_workers_modS)
  have o3: "keeps (\<lambda>t. workers t = ws) (socket_onError m)" for m
    unfolding socket_onError_def by (auto intro!: keeps_rules keeps_workers_modS)
  from assms c w k o1 o2 o3 show ?thesis
    by (cases e) (auto simp: postToServer_def keeps_workers_post_comp keeps_workers_routing)
qed

lemma all_known_api:
  assumes "platform_inv s" "all_known s" "ordinary e \<or> (\<exists>m. e = WorkerMsg m)"
  shows "all_known (api_step e s)"
proof (cases "\<exists>url name ob args recreate. e = Start url name ob args recreate")
  case True
  with assms show ?thesis
    by (auto simp: api_step_def start_ok bindM_def ret_def all_known_started platform_inv_def [of s])
next
  case False
  then have "workers (api_step e s) = workers s"
    unfolding api_step_def by (intro keepsD [OF keeps_workers_api]) auto
  with assms grows_api all_known_grows show ?thesis by blast
qed

lemma worker_ok_grows:
  assumes "worker_ok p w" "grows (platform p) s"
  shows "worker_ok (p\<lparr>platform := s\<rparr>) w"
proof (cases "consumed p w = 0")
  case True
  with assms(1) show ?thesis by (simp add: worker_ok_def)
next
  case False
  obtain l where "sent_to w (posted s) = queue p w @ l"
    using grows_queue [OF assms(2)] by (auto simp: queue_def)
  moreover have "length (workers (platform p)) \<le> length (workers s)"
    using assms(2) by (auto simp: grows_def)
  ultimately show ?thesis
    using False assms of_agent_grows [OF assms(2)] by (fastforce simp: worker_ok_def queue_def)
qed

lemma worker_ok_inbox: "worker_ok (p\<lparr>platform := s, inbox := ms\<rparr>) w = worker_ok (p\<lparr>platform := s\<rparr>) w"
  by (simp add: worker_ok_def queue_def)

lemma page_inv_platform:
  assumes "page_inv p" "ordinary e \<or> (\<exists>m. e = WorkerMsg m)" "set ms \<subseteq> set (inbox p)"
  shows "page_inv (p\<lparr>platform := api_step e (platform p), inbox := ms\<rparr>)"
proof -
  let ?s = "api_step e (platform p)"
  have g: "grows (platform p) ?s" by (rule grows_api)
  have "queues_inv ?s" "all_known ?s"
    using assms(1,2) queues_inv_api all_known_api by (auto simp: page_inv_def queues_inv_def)
  moreover have "worker_ok (p\<lparr>platform := ?s, inbox := ms\<rparr>) w" for w
  proof -
    have "worker_ok p w" using assms(1) by (simp add: page_inv_def)
    from worker_ok_grows [OF this g]
    show ?thesis by (simp only: worker_ok_inbox)
  qed
  moreover have "\<forall>m \<in> set ms. \<exists>aid. speaks_for aid m \<and> of_agent ?s aid"
    using assms(1,3) of_agent_grows [OF g] by (fastforce simp: page_inv_def)
  ultimately show ?thesis by (simp add: page_inv_def)
qed

lemma worker_turn_identified:
  assumes inv: "page_inv p" and w: "w < length (workers (platform p))"
    and c: "consumed p w < length (queue p w)" and sc: "script u = Some (props0, b)"
  shows "\<exists>aid args rest. queue p w = init_message aid args # rest \<and> of_agent (platform p) aid \<and>
    identified aid (snd (worker_onmessage b (queue p w ! consumed p w) (loaded p w props0)))"
proof (cases "consumed p w = 0")
  case True
  from inv w obtain name args rest where q: "queue p w = init_message (createAid name (rhost (platform p))) args # rest"
    by (fastforce simp: page_inv_def queues_inv_def platform_inv_def init_first_def queue_def)
  with inv w have "of_agent (platform p) (createAid name (rhost (platform p)))"
    by (fastforce simp: page_inv_def all_known_def of_agent_def queue_def)
  moreover have "wstate p w = None"
    using inv True by (auto simp: page_inv_def worker_ok_def)
  ultimately show ?thesis
    using q True init_message_identifies [OF sc] by (auto simp: loaded_def)
next
  case False
  have "worker_ok p w" using inv by (simp add: page_inv_def)
  with False obtain aid args rest s where q: "queue p w = init_message aid args # rest"
    "of_agent (platform p) aid" "wstate p w = Some s" "identified aid s"
    by (auto simp: worker_ok_def)
  have "queue p w ! consumed p w \<in> set (tl (queue p w))"
    using False c q(1) by (simp add: nth_Cons')
  with inv w have "plain (queue p w ! consumed p w)"
    by (auto simp: page_inv_def queues_inv_def tails_plain_def queue_def)
  with q plain_message_keeps [OF sc] show ?thesis by (auto simp: loaded_def)
qed

lemma page_inv_worker_turn:
  assumes inv: "page_inv p" and w: "w < length (workers (platform p))"
    and c: "consumed p w < length (queue p w)" and sc: "script u = Some (props0, b)"
  shows "page_inv (worker_turn b props0 w p)"
proof -
  let ?q = "worker_turn b props0 w p"
  obtain aid args rest where q: "queue p w = init_message aid args # rest" "of_agent (platform p) aid"
    "identified aid (snd (worker_onmessage b (queue p w ! consumed p w) (loaded p w props0)))"
    using worker_turn_identified [OF assms] by blast
  have "worker_ok ?q v" for v
  proof (cases "v = w")
    case True
    with q w c show ?thesis
      by (simp add: worker_ok_def worker_turn_def Let_def queue_def) blast
  next
    case False
    have "worker_ok p v" using inv by (simp add: page_inv_def)
    with False show ?thesis
      by (auto simp: worker_ok_def worker_turn_def Let_def queue_def split: if_splits)
  qed
  moreover have "\<exists>a. speaks_for a m \<and> of_agent (platform p) a" if "m \<in> set (inbox ?q)" for m
  proof -
    from that have "m \<in> set (inbox p) \<or> m \<in> set (out (snd (worker_onmessage b
        (queue p w ! consumed p w) (loaded p w props0))))"
      by (auto simp: worker_turn_def Let_def dest: in_set_dropD)
    with q inv show ?thesis by (auto simp: page_inv_def identified_def)
  qed
  ultimately show ?thesis
    using inv by (simp add: page_inv_def worker_turn_def Let_def)
qed

definition fresh_page :: "'cb page \<Rightarrow> bool" where
  "fresh_page p \<longleftrightarrow> (\<exists>s. fresh_platform s \<and> p = new_page s)"

lemma page_inv_fresh: "fresh_page p \<Longrightarrow> page_inv p"
  by (auto simp: fresh_page_def fresh_platform_def page_inv_def new_page_def queues_inv_def
      platform_inv_createRadigost tails_plain_def all_known_def worker_ok_def)
    (simp_all add: createRadigost_def)

lemma page_inv_step: "page_inv p \<Longrightarrow> page_step p q \<Longrightarrow> page_inv q"
proof (erule page_stepE)
  fix e assume "page_inv p" "q = p\<lparr>platform := api_step e (platform p)\<rparr>" "ordinary e"
  then show ?thesis using page_inv_platform [of p e "inbox p"] by simp
next
  fix w props0 b
  assume "page_inv p" "q = worker_turn b props0 w p" "w < length (workers (platform p))"
    "consumed p w < length (queue p w)"
    "script (to_str (workers (platform p) ! w)) = Some (props0, b)"
  then show ?thesis by (simp add: page_inv_worker_turn)
next
  fix m ms assume "page_inv p" "q = page_turn m p" "inbox p = m # ms"
  then show ?thesis
    using page_inv_platform [of p "WorkerMsg m" "tl (inbox p)"] by (auto simp: page_turn_def)
qed

interpretation page: invariant_system fresh_page page_step page_inv
  by unfold_locales (auto intro: page_inv_fresh page_inv_step)

end
