(* ===== verification/PageProps.thy ===== *)
theory PageProps
  imports Browser
begin

text \<open>
  What a page guarantees: workers know who they are and speak only for themselves, the page
  can handle everything the bundled agents send it.
\<close>

section \<open>Every worker knows itself\<close>

text \<open>
  C2. In every reachable state of a page, a worker that has processed a message has
  processed its INIT, holds in its field \<open>aid\<close> the identifier its INIT carried, that
  identifier is an entry of the platform's table, and every message waiting for the page
  carries the identifier of some agent of the table.
\<close>

theorem workers_know_themselves:
  assumes "reachable fresh_page page_step p"
  shows "(\<forall>w. consumed p w > 0 \<longrightarrow>
       (\<exists>name args rest s. queue p w = init_message (createAid name (rhost (platform p))) args # rest \<and>
          wstate p w = Some s \<and> this_get ''aid'' s = createAid name (rhost (platform p)) \<and>
          aid_key name (rhost (platform p)) \<in> set (akeys (running (platform p))))) \<and>
     (\<forall>m \<in> set (inbox p). \<exists>name. js_get m ''aid'' = Inr (createAid name (rhost (platform p))) \<and>
          aid_key name (rhost (platform p)) \<in> set (akeys (running (platform p))))"
proof -
  have inv: "page_inv p" by (rule page.reachable_inv [OF assms])
  have "\<exists>name args rest s. queue p w = init_message (createAid name (rhost (platform p))) args # rest \<and>
          wstate p w = Some s \<and> this_get ''aid'' s = createAid name (rhost (platform p)) \<and>
          aid_key name (rhost (platform p)) \<in> set (akeys (running (platform p)))"
    if "consumed p w > 0" for w
  proof -
    have "worker_ok p w" using inv by (simp add: page_inv_def)
    with that show ?thesis by (fastforce simp: worker_ok_def of_agent_def identified_this)
  qed
  moreover have "\<exists>name. js_get m ''aid'' = Inr (createAid name (rhost (platform p))) \<and>
          aid_key name (rhost (platform p)) \<in> set (akeys (running (platform p)))"
    if "m \<in> set (inbox p)" for m
    using inv that by (fastforce simp: page_inv_def of_agent_def speaks_for_def)
  ultimately show ?thesis by blast
qed

text \<open>A page that has started one agent, whose worker has answered its INIT.\<close>

definition one_agent_page :: "nat page" where
  "one_agent_page = new_page (api_step
     (Start (JStr ''/siebog/js/agents/helloWorld.js'') (JStr ''A'') ObsNull JNull JUndef)
     (createRadigost (JStr ''h'') JUndef))"

definition answered_page :: "nat page" where
  "answered_page = worker_turn helloWorld_behaviour HelloWorld 0 one_agent_page"

lemma one_agent_page_facts:
  "workers (platform one_agent_page) = [JStr ''/siebog/js/agents/helloWorld.js'']"
  "queue one_agent_page 0 = [init_message (createAid (JStr ''A'') (JStr ''h'')) JNull]"
  "consumed one_agent_page 0 = 0"
  by code_simp+

lemma answered_page_facts:
  "inbox answered_page = [JObj [(''opcode'', op_INIT), (''aid'', createAid (JStr ''A'') (JStr ''h''))]]"
  "consumed answered_page 0 = 1"
  "\<forall>(k, a) \<in> set (running (platform answered_page)). ag_observer a = ObsNull"
  by code_simp+

lemma answered_page_reachable: "reachable fresh_page page_step answered_page"
proof -
  let ?p = "new_page (createRadigost (JStr ''h'') JUndef) :: nat page"
  have "reachable fresh_page page_step ?p"
    by (intro reachable_init) (auto simp: fresh_page_def intro!: exI fresh_createRadigost)
  moreover have "page_step ?p one_agent_page"
    using page_acts [of "Start (JStr ''/siebog/js/agents/helloWorld.js'') (JStr ''A'') ObsNull JNull JUndef" ?p]
    by (simp add: one_agent_page_def new_page_def)
  moreover have "page_step one_agent_page answered_page"
    unfolding answered_page_def
    by (rule worker_acts) (simp_all add: one_agent_page_facts script_def)
  ultimately show ?thesis by (blast intro: reachable_step)
qed

theorem workers_know_themselves_witness:
  "\<exists>name args rest s. queue answered_page 0 =
     init_message (createAid name (rhost (platform answered_page))) args # rest \<and>
     wstate answered_page 0 = Some s \<and> this_get ''aid'' s = createAid name (rhost (platform answered_page))"
proof -
  have "consumed answered_page 0 > 0" by (simp add: answered_page_facts)
  with workers_know_themselves [OF answered_page_reachable] show ?thesis by blast
qed

section \<open>The page handles what the agents send\<close>

definition callable :: "'cb callback \<Rightarrow> bool" where
  "callable c \<longleftrightarrow> c \<noteq> CbUndef \<and> c \<noteq> CbNull"

definition observer_usable :: "'cb observer_slot \<Rightarrow> bool" where
  "observer_usable ob =
    (case ob of ObsUndef \<Rightarrow> False | ObsNull \<Rightarrow> True | Obs f \<Rightarrow> callable (onStart f) \<and> callable (onStep f))"

lemma observer_call_usable:
  assumes "\<forall>a. ag = Some a \<longrightarrow> observer_usable (ag_observer a)" "slot = onStart \<or> slot = onStep"
  shows "fst (observer_call slot ag xs s) = Inr ()"
  using assms
  by (auto simp: observer_call_def call_callback_def observer_usable_def callable_def comp_simps
      split: option.split observer_slot.split callback.split)

text \<open>A message for some agent's identifier can be handled when it has the fields its opcode needs.\<close>

lemma handled_if_speaks:
  assumes m: "speaks_for aid m" and aid: "aid = createAid name host"
    and ob: "\<forall>(k, a) \<in> set (running s). observer_usable (ag_observer a)"
  shows "fst (onWorkerMessage m s) = Inr ()"
proof -
  obtain op where op: "js_get m ''opcode'' = Inr op" "op \<in> {op_INIT, op_STEP, op_MOVE_TO_SERVER}"
    and a: "js_get m ''aid'' = Inr aid" using m by (auto simp: speaks_for_def)
  from op have "\<exists>v. js_get m k = Inr v" for k by (cases m) auto
  then obtain i st where i: "js_get m ''info'' = Inr i" "js_get m ''state'' = Inr st" by metis
  obtain k where k: "js_get aid ''str'' = Inr k" by (simp add: aid createAid_def)
  define ag where "ag = map_of (running s) (to_str k)"
  have g: "getAgent aid s = (Inr ag, s)" by (simp add: getAgent_cases k ag_def)
  have "\<forall>a. ag = Some a \<longrightarrow> observer_usable (ag_observer a)"
    using ob by (auto simp: ag_def dest!: map_of_SomeD)
  then have oc: "fst (observer_call onStart ag xs s) = Inr ()" "fst (observer_call onStep ag xs s) = Inr ()"
    for xs by (simp_all add: observer_call_usable)
  from op(2) show ?thesis
    using op(1) a i
    by (auto simp: onWorkerMessage_def op_defs g oc comp_simps send_request_def
        split: option.split)
qed

text \<open>
  C8. If every agent in the table was started with a usable observer (null, or one whose
  \<open>onStart\<close> and \<open>onStep\<close> can be called), the page handles the next message of its inbox
  without throwing, in every reachable state.
\<close>

theorem page_never_throws:
  assumes "reachable fresh_page page_step p" and "inbox p = m # ms"
    and "\<forall>(k, a) \<in> set (running (platform p)). observer_usable (ag_observer a)"
  shows "fst (onWorkerMessage m (platform p)) = Inr ()"
proof -
  have "page_inv p" by (rule page.reachable_inv [OF assms(1)])
  with assms(2) obtain aid name where "speaks_for aid m" "aid = createAid name (rhost (platform p))"
    by (auto simp: page_inv_def of_agent_def)
  with assms(3) show ?thesis by (intro handled_if_speaks)
qed

theorem page_never_throws_witness:
  "fst (onWorkerMessage (JObj [(''opcode'', op_INIT), (''aid'', createAid (JStr ''A'') (JStr ''h''))])
     (platform answered_page)) = Inr ()"
  by (rule page_never_throws [OF answered_page_reachable answered_page_facts(1)])
    (use answered_page_facts(3) in \<open>auto simp: observer_usable_def\<close>)

end
