(* ===== verification/Demos.thy ===== *)
theory Demos
  imports PageProps
begin

text \<open>
  The two demonstrations of \<open>AgentExamplesClientController\<close> played to the end: every
  interleaving of the worker's and the page's turns is enumerated by how many messages the
  worker has taken and how many of its replies the page has heard.
\<close>

section \<open>Hello world\<close>

definition hello_aid :: js where
  "hello_aid = createAid (JStr ''HelloWorld'') (JStr ''Examples'')"
definition hello_request :: js where
  "hello_request = JObj
    (case createACLMessage (performative ''REQUEST'') of JObj ps \<Rightarrow> 
       aput ''interceptor'' (JObj
      [(''preconditions'', JObj [(''messageProcessed'', JBool False)]),
       (''postconditions'', JObj [(''messageProcessed'', JBool True)])]) (aput ''receivers'' (JArr [hello_aid]) ps) | _ \<Rightarrow> [])"

definition hello_platform :: "client_callback radigost" where
  "hello_platform = examples_platform\<lparr>
     running := [(''HelloWorld@Examples'', \<lparr>ag_url = JStr ''/siebog/js/agents/helloWorld.js'',
        ag_observer = Obs (createAgentObserver (CbFn AlertMessage) CbUndef CbUndef), ag_worker = Some 0\<rparr>)],
     workers := [JStr ''/siebog/js/agents/helloWorld.js''],
     posted := [(0, init_message hello_aid JNull), (0, hello_request)]\<rparr>"

lemma runHelloWorld_result: "runHelloWorld examples_platform = (Inr (), hello_platform)"
  by code_simp

definition hello_replies :: "js list" where
  "hello_replies = [JObj [(''opcode'', op_INIT), (''aid'', hello_aid)],
     JObj [(''opcode'', op_STEP), (''aid'', hello_aid), (''info'', JStr ''Hello from HelloWorld@Examples!'')]]"

definition hello_worker :: "nat \<Rightarrow> worker option" where
  "hello_worker c = (if c = 0 then None else Some
     \<lparr>registered = True, own = [(''messageProcessed'', JBool (c > 1)), (''aid'', hello_aid)], proto = Agent,
      out = take c hello_replies,
      wconsole = (if c > 1 then [''Pre-conditions for the agent satisfied.'', ''Post-conditions for the agent satisfied.''] else []),
      printed = []\<rparr>)"

definition hello_page :: "nat \<Rightarrow> nat \<Rightarrow> client_callback page" where
  "hello_page c h = \<lparr>platform = hello_platform\<lparr>calls :=
       (if h > 1 then [(AlertMessage, [hello_aid, JStr ''Hello from HelloWorld@Examples!''])] else [])\<rparr>,
     wstate = (\<lambda>_. None)(0 := hello_worker c), consumed = (\<lambda>_. 0)(0 := c),
     inbox = drop h (take c hello_replies)\<rparr>"


lemma hello_turns:
  "snd (worker_onmessage helloWorld_behaviour (init_message hello_aid JNull) (load_agent HelloWorld))
     = the (hello_worker 1)"
  "snd (worker_onmessage helloWorld_behaviour hello_request (the (hello_worker 1)))
     = the (hello_worker 2)"
  by code_simp+

lemma hello_hears:
  "snd (onWorkerMessage (hello_replies ! 0) (platform (hello_page c 0))) = platform (hello_page d 1)"
  "snd (onWorkerMessage (hello_replies ! 1) (platform (hello_page c 1))) = platform (hello_page d 2)"
  unfolding hello_page_def by (simp, code_simp)+

lemma hello_start: "new_page (snd (runHelloWorld examples_platform)) = hello_page 0 0"
  by (simp add: runHelloWorld_result new_page_def hello_page_def hello_worker_def fun_eq_iff)
    (simp add: hello_platform_def examples_platform_def createRadigost_def)

lemma hello_queue:
  "workers (platform (hello_page c h)) = [JStr ''/siebog/js/agents/helloWorld.js'']"
  "queue (hello_page c h) 0 = [init_message hello_aid JNull, hello_request]"
  "consumed (hello_page c h) 0 = c" "inbox (hello_page c h) = drop h (take c hello_replies)"
  by (simp_all add: queue_def hello_page_def hello_platform_def examples_platform_def
      createRadigost_def sent_to_def)

lemma hello_loaded: "loaded (hello_page c h) 0 HelloWorld = (if c = 0 then load_agent HelloWorld else the (hello_worker c))"
  by (simp add: loaded_def hello_page_def hello_worker_def)

lemma hello_worker_turn:
  assumes "h \<le> c" "c < 2"
  shows "worker_turn helloWorld_behaviour HelloWorld 0 (hello_page c h) = hello_page (Suc c) h"
proof -
  have "c = 0 \<or> c = 1" using assms(2) by auto
  then show ?thesis
  proof
    assume "c = 0"
    with assms(1) show ?thesis
      by (simp add: worker_turn_def Let_def hello_queue hello_loaded hello_turns del: One_nat_def)
        (simp add: hello_page_def hello_worker_def hello_replies_def load_agent_def fun_eq_iff)
  next
    assume "c = 1"
    with assms(1) show ?thesis
      by (simp add: worker_turn_def Let_def hello_queue hello_loaded hello_turns del: One_nat_def)
        (cases h; simp add: hello_page_def hello_worker_def hello_replies_def numeral_2_eq_2 fun_eq_iff)
  qed
qed

lemma hello_page_turn:
  assumes "h < c" "c \<le> 2"
  shows "page_turn (hello_replies ! h) (hello_page c h) = hello_page c (Suc h)"
proof -
  have p: "platform (page_turn (hello_replies ! h) (hello_page c h)) = platform (hello_page c (Suc h))"
  proof -
    have "h = 0 \<or> h = 1" using assms by auto
    then show ?thesis
      using hello_hears [of c c] by (auto simp: page_turn_def api_step_def numeral_2_eq_2)
  qed
  have "inbox (page_turn (hello_replies ! h) (hello_page c h)) = inbox (hello_page c (Suc h))"
    using assms by (simp add: page_turn_def hello_queue drop_Suc tl_drop)
  with p show ?thesis by (simp add: page_turn_def hello_page_def)
qed


lemma three_steps:
  assumes "R a b" "R b c" "R c d"
  shows "(R ^^ 3) a d"
proof -
  have "(R ^^ Suc (Suc (Suc 0))) a d" using assms by auto
  then show ?thesis by (simp add: numeral_3_eq_3)
qed

lemma four_steps:
  assumes "R a b" "R b c" "R c d" "R d e"
  shows "(R ^^ 4) a e"
proof -
  have "(R ^^ Suc (Suc (Suc (Suc 0)))) a e" using assms by auto
  then show ?thesis by (simp add: eval_nat_numeral)
qed

lemma internal_step_single:
  assumes "workers (platform p) = [JStr u]" "script u = Some (props0, b)"
  shows "internal_step p q \<longleftrightarrow>
    consumed p 0 < length (queue p 0) \<and> q = worker_turn b props0 0 p \<or>
    inbox p \<noteq> [] \<and> q = page_turn (hd (inbox p)) p"
  using assms by (auto simp: internal_step.simps neq_Nil_conv)

lemma hello_script:
  "script ''/siebog/js/agents/helloWorld.js'' = Some (HelloWorld, helloWorld_behaviour)"
  by (simp add: script_def)

lemma hello_steps:
  assumes "h \<le> c" "c \<le> 2"
  shows "internal_step (hello_page c h) q \<longleftrightarrow>
    c < 2 \<and> q = hello_page (Suc c) h \<or> h < c \<and> q = hello_page c (Suc h)"
proof -
  have n: "length hello_replies = 2" by (simp add: hello_replies_def)
  have e: "inbox (hello_page c h) \<noteq> [] \<longleftrightarrow> h < c"
    using assms n by (auto simp: hello_queue)
  have "hd (inbox (hello_page c h)) = hello_replies ! h" if "h < c"
    using that assms n by (simp add: hello_queue hd_drop_conv_nth)
  with assms e show ?thesis
    by (subst internal_step_single [OF hello_queue(1) hello_script])
      (auto simp: hello_queue(2,3) hello_worker_turn hello_page_turn)
qed

text \<open>
  C3. After \<open>runHelloWorld\<close>, in whatever order the browser serves the worker and the
  page, at most four steps are left; when none is left, exactly four were taken and the
  user has seen one alert, the agent's greeting; before that, none.
\<close>

theorem runHelloWorld_alerts_once:
  assumes "(internal_step ^^ n) (new_page (snd (runHelloWorld examples_platform))) q"
  shows "n \<le> 4 \<and> ((\<nexists>r. internal_step q r) \<longleftrightarrow> n = 4) \<and>
    alerts (calls (platform q)) = (if n = 4 then [JStr ''Hello from HelloWorld@Examples!''] else [])"
proof -
  have "\<exists>c h. q = hello_page c h \<and> h \<le> c \<and> c \<le> 2 \<and> n = c + h"
    using assms
  proof (induction n arbitrary: q)
    case 0
    then show ?case by (auto simp: hello_start)
  next
    case (Suc n)
    then obtain p where "(internal_step ^^ n) (new_page (snd (runHelloWorld examples_platform))) p"
      "internal_step p q" by auto
    with Suc.IH obtain c h where "p = hello_page c h" "h \<le> c" "c \<le> 2" "n = c + h" by blast
    with \<open>internal_step p q\<close> have "c < 2 \<and> q = hello_page (Suc c) h \<or> h < c \<and> q = hello_page c (Suc h)"
      by (simp add: hello_steps)
    then show ?case
    proof
      assume "c < 2 \<and> q = hello_page (Suc c) h"
      with \<open>h \<le> c\<close> \<open>n = c + h\<close> show ?case by (intro exI [of _ "Suc c"] exI [of _ h]) simp
    next
      assume "h < c \<and> q = hello_page c (Suc h)"
      with \<open>c \<le> 2\<close> \<open>n = c + h\<close> show ?case by (intro exI [of _ c] exI [of _ "Suc h"]) simp
    qed
  qed
  then obtain c h where q: "q = hello_page c h" and b: "h \<le> c" "c \<le> 2" "n = c + h" by blast
  then have four: "n = 4 \<longleftrightarrow> h > 1" "n = 4 \<longleftrightarrow> \<not> c < 2 \<and> \<not> h < c" and "n \<le> 4" by auto
  moreover have "(\<nexists>r. internal_step q r) \<longleftrightarrow> \<not> c < 2 \<and> \<not> h < c"
    using b(1,2) by (simp only: q hello_steps) blast
  moreover have "alerts (calls (platform q)) =
    (if h > 1 then [JStr ''Hello from HelloWorld@Examples!''] else [])"
    by (simp add: q hello_page_def)
  ultimately show ?thesis by simp
qed

theorem runHelloWorld_alerts_once_witness:
  "\<exists>q. (internal_step ^^ 4) (new_page (snd (runHelloWorld examples_platform))) q \<and>
     alerts (calls (platform q)) = [JStr ''Hello from HelloWorld@Examples!'']"
proof -
  have "internal_step (hello_page 0 0) (hello_page 1 0)" "internal_step (hello_page 1 0) (hello_page 1 1)"
    "internal_step (hello_page 1 1) (hello_page 2 1)" "internal_step (hello_page 2 1) (hello_page 2 2)"
    by (simp_all add: hello_steps numeral_2_eq_2)
  then have run: "(internal_step ^^ 4) (new_page (snd (runHelloWorld examples_platform))) (hello_page 2 2)"
    unfolding hello_start by (rule four_steps)
  then show ?thesis using runHelloWorld_alerts_once [OF run] by auto
qed

section \<open>The mobile agent\<close>

definition mobile_aid :: js where
  "mobile_aid = createAid (JStr ''MobileAgent'') (JStr ''Examples'')"

definition mobile_state :: js where
  "mobile_state = JObj [(''num'', JNum 42), (''aid'', mobile_aid), (''radigostHelper'', JNull)]"

definition mobile_platform :: "client_callback radigost" where
  "mobile_platform = examples_platform\<lparr>
     running := [(''MobileAgent@Examples'', \<lparr>ag_url = JStr ''/siebog/js/agents/mobileAgent.js'',
        ag_observer = ObsNull, ag_worker = Some 0\<rparr>)],
     workers := [JStr ''/siebog/js/agents/mobileAgent.js''],
     posted := [(0, init_message mobile_aid JUndef)]\<rparr>"

lemma runMobileAgent_result: "runMobileAgent examples_platform = (Inr (), mobile_platform)"
  by code_simp

definition mobile_replies :: "js list" where
  "mobile_replies =
    [JObj [(''opcode'', op_MOVE_TO_SERVER), (''aid'', mobile_aid), (''state'', JStr (render mobile_state))],
     JObj [(''opcode'', op_INIT), (''aid'', mobile_aid)]]"

definition mobile_worker :: worker where
  "mobile_worker = \<lparr>registered = True, own = [(''num'', JNum 42), (''aid'', mobile_aid)], proto = Agent,
     out = mobile_replies, wconsole = [], printed = []\<rparr>"

definition mobile_accept :: http_request where
  "mobile_accept = accept (JStr ''/siebog/js/agents/mobileAgent.js'') mobile_aid (JStr (render mobile_state))"

definition mobile_page :: "nat \<Rightarrow> client_callback page" where
  "mobile_page n = \<lparr>platform = mobile_platform\<lparr>requests := (if n > 1 then [mobile_accept] else [])\<rparr>,
     wstate = (\<lambda>_. None)(0 := (if n > 0 then Some mobile_worker else None)),
     consumed = (\<lambda>_. 0)(0 := min n 1),
     inbox = (if n = 0 then [] else drop (n - 1) mobile_replies)\<rparr>"

lemma mobile_turn:
  "snd (worker_onmessage mobileAgent_behaviour (init_message mobile_aid JUndef) (load_agent MobileAgent))
     = mobile_worker"
  by code_simp

lemma mobile_hears:
  "snd (onWorkerMessage (mobile_replies ! 0) (platform (mobile_page 1))) = platform (mobile_page 2)"
  "snd (onWorkerMessage (mobile_replies ! 1) (platform (mobile_page 2))) = platform (mobile_page 3)"
  unfolding mobile_page_def by (simp, code_simp)+


lemma mobile_start: "new_page (snd (runMobileAgent examples_platform)) = mobile_page 0"
  by (simp add: runMobileAgent_result new_page_def mobile_page_def fun_eq_iff)
    (simp add: mobile_platform_def examples_platform_def createRadigost_def)

lemma mobile_queue:
  "workers (platform (mobile_page n)) = [JStr ''/siebog/js/agents/mobileAgent.js'']"
  "queue (mobile_page n) 0 = [init_message mobile_aid JUndef]"
  "consumed (mobile_page n) 0 = min n 1"
  "inbox (mobile_page n) = (if n = 0 then [] else drop (n - 1) mobile_replies)"
  by (simp_all add: queue_def mobile_page_def mobile_platform_def examples_platform_def
      createRadigost_def sent_to_def)

lemma mobile_script:
  "script ''/siebog/js/agents/mobileAgent.js'' = Some (MobileAgent, mobileAgent_behaviour)"
  by (simp add: script_def)

lemma mobile_worker_turn: "worker_turn mobileAgent_behaviour MobileAgent 0 (mobile_page 0) = mobile_page 1"
proof -
  have "loaded (mobile_page 0) 0 MobileAgent = load_agent MobileAgent"
    by (simp add: loaded_def mobile_page_def)
  then show ?thesis
    by (simp add: worker_turn_def Let_def mobile_queue mobile_turn)
      (simp add: mobile_page_def mobile_worker_def load_agent_def fun_eq_iff)
qed

lemma mobile_page_turn:
  assumes "n = 1 \<or> n = 2"
  shows "page_turn (hd (inbox (mobile_page n))) (mobile_page n) = mobile_page (Suc n)"
proof -
  have n: "length mobile_replies = 2" by (simp add: mobile_replies_def)
  have h: "hd (inbox (mobile_page n)) = mobile_replies ! (n - 1)"
    using assms n by (auto simp: mobile_queue hd_drop_conv_nth mobile_replies_def)
  have "platform (page_turn (hd (inbox (mobile_page n))) (mobile_page n)) = platform (mobile_page (Suc n))"
    using assms mobile_hears unfolding h
    by (auto simp: page_turn_def api_step_def numeral_2_eq_2 numeral_3_eq_3)
  moreover have "inbox (page_turn (hd (inbox (mobile_page n))) (mobile_page n)) = inbox (mobile_page (Suc n))"
    using assms by (auto simp: page_turn_def mobile_queue tl_drop drop_Suc numeral_2_eq_2)
  ultimately show ?thesis using assms by (auto simp: page_turn_def mobile_page_def)
qed

lemma mobile_steps:
  assumes "n \<le> 3"
  shows "internal_step (mobile_page n) q \<longleftrightarrow> n < 3 \<and> q = mobile_page (Suc n)"
proof -
  have l: "length mobile_replies = 2" by (simp add: mobile_replies_def)
  have e: "inbox (mobile_page n) \<noteq> [] \<longleftrightarrow> n = 1 \<or> n = 2"
    using assms l by (auto simp: mobile_queue)
  have c: "consumed (mobile_page n) 0 < length (queue (mobile_page n) 0) \<longleftrightarrow> n = 0"
    by (auto simp: mobile_queue)
  have "n = 0 \<or> n = 1 \<or> n = 2 \<or> n = 3" using assms by auto
  then show ?thesis
    unfolding internal_step_single [OF mobile_queue(1) mobile_script] e c
    using mobile_worker_turn mobile_page_turn [of n] by auto
qed

text \<open>
  C4. After \<open>runMobileAgent\<close> the browser has exactly three steps to take, in one order;
  at the end the server has been asked once to take the agent over, by a request whose body
  consists of the three fields it expects: the agent's script, its identifier, and its
  state, a text that parses back to the agent's fields, the number 42 among them.
\<close>

theorem runMobileAgent_moves:
  assumes "(internal_step ^^ n) (new_page (snd (runMobileAgent examples_platform))) q"
  shows "n \<le> 3 \<and> ((\<nexists>r. internal_step q r) \<longleftrightarrow> n = 3) \<and>
    (n = 3 \<longrightarrow> (\<exists>aid_text state_text st. requests (platform q) =
       [\<lparr>verb = ''PUT'', target = ''/siebog/rest/webclient'',
         content_type = Some ''application/x-www-form-urlencoded; charset=UTF-8'',
         body = Some (JStr (''url=/siebog/js/agents/mobileAgent.js&aid='' @ aid_text @ ''&state='' @ state_text))\<rparr>] \<and>
       length (form_fields (''url=/siebog/js/agents/mobileAgent.js&aid='' @ aid_text @ ''&state='' @ state_text)) = 3 \<and>
       json_parse aid_text = Inr (createAid (JStr ''MobileAgent'') (JStr ''Examples'')) \<and>
       json_parse state_text = Inr st \<and> js_get st ''num'' = Inr (JNum 42)))"
proof -
  have "q = mobile_page n \<and> n \<le> 3"
    using assms
  proof (induction n arbitrary: q)
    case (Suc n)
    then obtain p where "p = mobile_page n" "n \<le> 3" "internal_step p q" by auto
    then show ?case by (auto simp: mobile_steps)
  qed (simp add: mobile_start)
  moreover have "mobile_accept =
       \<lparr>verb = ''PUT'', target = ''/siebog/rest/webclient'',
         content_type = Some ''application/x-www-form-urlencoded; charset=UTF-8'',
         body = Some (JStr (''url=/siebog/js/agents/mobileAgent.js&aid='' @ render mobile_aid @ ''&state='' @ render mobile_state))\<rparr>"
    by code_simp
  moreover have "length (form_fields (''url=/siebog/js/agents/mobileAgent.js&aid='' @ render mobile_aid @ ''&state='' @ render mobile_state)) = 3"
    by code_simp
  moreover have "json_parse (render mobile_aid) = Inr (createAid (JStr ''MobileAgent'') (JStr ''Examples''))"
    "json_parse (render mobile_state) = Inr mobile_state"
    "js_get mobile_state ''num'' = Inr (JNum 42)"
    by code_simp+
  moreover have "requests (platform (mobile_page 3)) = [mobile_accept]"
    by (simp add: mobile_page_def)
  ultimately show ?thesis
    using mobile_steps [of n] by (auto intro!: exI)
qed

theorem runMobileAgent_moves_witness:
  "\<exists>q. (internal_step ^^ 3) (new_page (snd (runMobileAgent examples_platform))) q \<and>
     length (requests (platform q)) = 1"
proof -
  have "internal_step (mobile_page 0) (mobile_page 1)" "internal_step (mobile_page 1) (mobile_page 2)"
    "internal_step (mobile_page 2) (mobile_page 3)"
    by (simp_all add: mobile_steps numeral_2_eq_2 numeral_3_eq_3)
  then have run: "(internal_step ^^ 3) (new_page (snd (runMobileAgent examples_platform))) (mobile_page 3)"
    unfolding mobile_start by (rule three_steps)
  then show ?thesis using runMobileAgent_moves [OF run] by auto
qed

end
