(* ===== verification/Console.thy ===== *)
theory Console
  imports RadigostProps "HOL-Library.Multiset"
begin

text \<open>
  The side bar, \<open>app/shared/console/siebog-console.controller.js\<close>: the server's log lines
  and the list of running agents, kept up to date over the \<open>/siebog/console\<close> socket. The
  list is \<open>xjaf.agents.array\<close>, shared with the rest of the page and replaced when the
  request of \<open>xjaf.service.js\<close> for the running agents is answered.
\<close>

record sidebar =
  messages :: "string list"
  agents_array :: js
  accordion_messages :: bool
  accordion_agents :: bool
  cc_log :: "string list"

definition ConsoleController :: "js \<Rightarrow> sidebar" where
  "ConsoleController array = \<lparr>messages = [], agents_array = array, accordion_messages = True,
     accordion_agents = True, cc_log = []\<rparr>"

definition clearConsole :: "(sidebar, unit) comp" where
  "clearConsole = modS (\<lambda>s. s\<lparr>messages := []\<rparr>)"

section \<open>Time stamps\<close>

definition substr_end :: "nat \<Rightarrow> string \<Rightarrow> string" where
  "substr_end n t = drop (length t - n) t"

definition two_digits :: "nat \<Rightarrow> string" where
  "two_digits n = substr_end 2 (''0'' @ nat_str n)"

definition time_stamp :: "nat \<Rightarrow> nat \<Rightarrow> nat \<Rightarrow> string" where
  "time_stamp h m s = two_digits h @ '':'' @ two_digits m @ '':'' @ two_digits s"

section \<open>Messages of the console socket\<close>

text \<open>\<open>JSON.parse(v)\<close> turns its argument into a text first.\<close>

definition parse_value :: "js \<Rightarrow> js_error + js" where
  "parse_value v = json_parse (to_str v)"

text \<open>\<open>xjaf.agents.array.push(JSON.parse(data))\<close>.\<close>

definition agents_push :: "js \<Rightarrow> (sidebar, unit) comp" where
  "agents_push data =
    bindM (getS agents_array) (\<lambda>array.
    bindM (liftE (js_get array ''push'')) (\<lambda>_.
    bindM (liftE (parse_value data)) (\<lambda>a.
      case array of
        JArr xs \<Rightarrow> modS (\<lambda>s. s\<lparr>agents_array := JArr (xs @ [a])\<rparr>)
      | _ \<Rightarrow> throw (TypeError ''push''))))"

text \<open>The loop that finds the first entry with the agent's \<open>str\<close>; its index, if any.\<close>

fun find_agent :: "js \<Rightarrow> js list \<Rightarrow> nat \<Rightarrow> js_error + nat option" where
  "find_agent agent [] i = Inr None"
| "find_agent agent (x # xs) i =
    (case js_get agent ''str'' of
       Inl e \<Rightarrow> Inl e
     | Inr k \<Rightarrow>
        (case js_get x ''str'' of
           Inl e \<Rightarrow> Inl e
         | Inr j \<Rightarrow> if strict_eq k j then Inr (Some i) else find_agent agent xs (Suc i)))"

definition splice1 :: "nat \<Rightarrow> 'a list \<Rightarrow> 'a list" where
  "splice1 i xs = take i xs @ drop (Suc i) xs"

definition agents_remove :: "js \<Rightarrow> (sidebar, unit) comp" where
  "agents_remove data =
    bindM (liftE (parse_value data)) (\<lambda>agent.
    bindM (getS agents_array) (\<lambda>array.
    bindM (liftE (js_items array)) (\<lambda>xs.
    bindM (liftE (find_agent agent xs 0)) (\<lambda>found.
      case found of
        None \<Rightarrow> ret ()
      | Some i \<Rightarrow>
          (case array of
             JArr ys \<Rightarrow> modS (\<lambda>s. s\<lparr>agents_array := JArr (splice1 i ys)\<rparr>)
           | _ \<Rightarrow> throw (TypeError ''splice''))))))"

definition console_onMessage :: "nat \<times> nat \<times> nat \<Rightarrow> string \<Rightarrow> (sidebar, unit) comp" where
  "console_onMessage now text_in =
    bindM (liftE (json_parse text_in)) (\<lambda>msg.
    bindM (liftE (js_get msg ''type'')) (\<lambda>ty.
      if strict_eq ty (JStr ''LOG'') then
        (case now of (h, m, s) \<Rightarrow>
          bindM (liftE (js_get msg ''data'')) (\<lambda>d.
            modS (\<lambda>c. c\<lparr>messages := messages c @ [time_stamp h m s @ '' - '' @ to_str d]\<rparr>)))
      else if strict_eq ty (JStr ''ADD'') then
        bindM (liftE (js_get msg ''data'')) agents_push
      else if strict_eq ty (JStr ''REMOVE'') then
        bindM (liftE (js_get msg ''data'')) agents_remove
      else ret ()))"

definition console_onOpen :: "(sidebar, unit) comp" where
  "console_onOpen = modS (\<lambda>s. s\<lparr>cc_log := cc_log s @ [''WebSocket for console connection opened.'']\<rparr>)"

definition console_onClose :: "(sidebar, unit) comp" where
  "console_onClose = modS (\<lambda>s. s\<lparr>cc_log := cc_log s @ [''WebSocket for console connection closed.'']\<rparr>)"

definition console_onError :: "js \<Rightarrow> (sidebar, unit) comp" where
  "console_onError e =
    bindM (liftE (js_get e ''data'')) (\<lambda>d.
      modS (\<lambda>s. s\<lparr>cc_log := cc_log s @ [''WebSocket for console  connection error: '' @ to_str d]\<rparr>))"

text \<open>The answer of the server to \<open>getRunning\<close>, whenever it comes.\<close>

definition running_answer :: "js \<Rightarrow> (sidebar, unit) comp" where
  "running_answer data = modS (\<lambda>s. s\<lparr>agents_array := running_response data\<rparr>)"

section \<open>The time stamps are readable\<close>

lemma two_digits_cases:
  "n < 10 \<Longrightarrow> two_digits n = [CHR ''0'', digit_char n]"
  "10 \<le> n \<Longrightarrow> n < 100 \<Longrightarrow> two_digits n = [digit_char (n div 10), digit_char (n mod 10)]"
  by (simp_all add: two_digits_def substr_end_def nat_str.simps)

text \<open>Reading two characters back as a number.\<close>

definition read2 :: "string \<Rightarrow> nat" where
  "read2 t = 10 * digit_val (t ! 0) + digit_val (t ! 1)"

lemma digit_char_0: "digit_char 0 = CHR ''0''"
  by code_simp

lemma two_digits_pair: "n < 100 \<Longrightarrow> two_digits n = [digit_char (n div 10), digit_char (n mod 10)]"
  by (cases "n < 10") (simp_all add: two_digits_cases digit_char_0)

text \<open>
  The time stamp of a log line always has the form hh:mm:ss, eight characters from
  which the hour, the minute and the second can be read back.
\<close>

theorem time_stamp_reads:
  assumes "h < 24" "m < 60" "s < 60"
  shows "length (time_stamp h m s) = 8 \<and> time_stamp h m s ! 2 = CHR '':'' \<and>
    time_stamp h m s ! 5 = CHR '':'' \<and> read2 (time_stamp h m s) = h \<and>
    read2 (drop 3 (time_stamp h m s)) = m \<and> read2 (drop 6 (time_stamp h m s)) = s"
  using assms by (simp add: time_stamp_def two_digits_pair read2_def)

theorem time_stamp_reads_witness: "read2 (time_stamp 9 5 30) = 9 \<and> time_stamp 9 5 30 = ''09:05:30''"
  using time_stamp_reads [of 9 5 30] by (simp, code_simp)

section \<open>The list of agents follows the server's events\<close>

datatype console_event = Logged js | Added js | Removed js

text \<open>The text the server sends for an event: the agent is itself a JSON text.\<close>

fun console_wire :: "console_event \<Rightarrow> string" where
  "console_wire (Logged d) = render (JObj [(''type'', JStr ''LOG''), (''data'', d)])"
| "console_wire (Added a) = render (JObj [(''type'', JStr ''ADD''), (''data'', JStr (render a))])"
| "console_wire (Removed a) = render (JObj [(''type'', JStr ''REMOVE''), (''data'', JStr (render a))])"

definition agent_key :: "js \<Rightarrow> string" where
  "agent_key a = (case js_get a ''str'' of Inr (JStr k) \<Rightarrow> k | _ \<Rightarrow> [])"

definition described :: "js \<Rightarrow> bool" where
  "described a \<longleftrightarrow> json_value a \<and> (\<exists>k. js_get a ''str'' = Inr (JStr k))"

fun event_ok :: "console_event \<Rightarrow> bool" where
  "event_ok (Logged d) = json_value d"
| "event_ok (Added a) = described a"
| "event_ok (Removed a) = described a"

text \<open>The specification: the running agents as a multiset of identifiers.\<close>

fun agents_after :: "console_event \<Rightarrow> string multiset \<Rightarrow> string multiset" where
  "agents_after (Logged d) M = M"
| "agents_after (Added a) M = add_mset (agent_key a) M"
| "agents_after (Removed a) M = M - {#agent_key a#}"

fun log_lines :: "nat \<times> nat \<times> nat \<Rightarrow> console_event \<Rightarrow> string list" where
  "log_lines (h, m, s) (Logged d) = [time_stamp h m s @ '' - '' @ to_str d]"
| "log_lines now _ = []"

lemma described_str: "described a \<Longrightarrow> js_get a ''str'' = Inr (JStr (agent_key a))"
  by (auto simp: described_def agent_key_def)

lemma find_agent_described:
  assumes "described a" "\<forall>x \<in> set xs. described x"
  shows "find_agent a xs i = Inr (if agent_key a \<in> agent_key ` set xs
    then Some (i + length (takeWhile (\<lambda>x. agent_key x \<noteq> agent_key a) xs)) else None)"
  using assms(2)
proof (induction xs arbitrary: i)
  case (Cons x xs)
  then show ?case
    by (auto simp: described_str [OF assms(1)] described_str)
qed simp

lemma splice1_mset:
  "i < length xs \<Longrightarrow> mset (splice1 i xs) = mset xs - {#xs ! i#}"
  by (subst (2) id_take_nth_drop [of i xs]) (simp_all add: splice1_def)

lemma set_splice1: "set (splice1 i xs) \<subseteq> set xs"
  by (auto simp: splice1_def dest: in_set_takeD in_set_dropD)

lemma splice1_map: "map f (splice1 i xs) = splice1 i (map f xs)"
  by (simp add: splice1_def take_map drop_map)

lemma takeWhile_hits:
  assumes "k \<in> f ` set xs"
  shows "length (takeWhile (\<lambda>x. f x \<noteq> k) xs) < length xs \<and>
    f (xs ! length (takeWhile (\<lambda>x. f x \<noteq> k) xs)) = k"
  using assms by (induction xs) auto

lemma agents_remove_described:
  assumes "described a" "agents_array s = JArr xs" "\<forall>x \<in> set xs. described x"
  shows "\<exists>ys. agents_remove (JStr (render a)) s = (Inr (), s\<lparr>agents_array := JArr ys\<rparr>) \<and>
    (\<forall>y \<in> set ys. described y) \<and> mset (map agent_key ys) = mset (map agent_key xs) - {#agent_key a#}"
proof -
  have p: "json_parse (render a) = Inr a"
    using assms(1) by (auto simp: described_def json.decode_encode)
  show ?thesis
  proof (cases "agent_key a \<in> agent_key ` set xs")
    case True
    let ?i = "length (takeWhile (\<lambda>x. agent_key x \<noteq> agent_key a) xs)"
    have i: "?i < length xs" "agent_key (xs ! ?i) = agent_key a"
      using takeWhile_hits [OF True] by auto
    have "agents_remove (JStr (render a)) s = (Inr (), s\<lparr>agents_array := JArr (splice1 ?i xs)\<rparr>)"
      using True by (simp add: agents_remove_def parse_value_def p assms(2)
          find_agent_described [OF assms(1,3)] comp_simps)
    moreover have "mset (map agent_key (splice1 ?i xs)) = mset (map agent_key xs) - {#agent_key a#}"
      using i by (simp only: splice1_map splice1_mset length_map nth_map)
    ultimately show ?thesis using assms(3) set_splice1 [of ?i xs] by blast
  next
    case False
    then have "agents_remove (JStr (render a)) s = (Inr (), s)"
      by (simp add: agents_remove_def parse_value_def p assms(2)
          find_agent_described [OF assms(1,3)] comp_simps)
    moreover have "mset (map agent_key xs) - {#agent_key a#} = mset (map agent_key xs)"
      using False by (simp add: diff_single_trivial image_iff)
    moreover have "s\<lparr>agents_array := JArr xs\<rparr> = s" using assms(2) by simp
    ultimately show ?thesis using assms(3) by (intro exI [of _ xs]) simp
  qed
qed

lemma agents_push_described:
  assumes "described a" "agents_array s = JArr xs"
  shows "agents_push (JStr (render a)) s = (Inr (), s\<lparr>agents_array := JArr (xs @ [a])\<rparr>)"
  using assms by (simp add: agents_push_def parse_value_def described_def json.decode_encode comp_simps)

text \<open>One event: what the handler does is what the specification says.\<close>

lemma console_event_step:
  assumes e: "event_ok e" and s: "agents_array s = JArr xs" "\<forall>x \<in> set xs. described x"
  shows "\<exists>ys. console_onMessage now (console_wire e) s =
      (Inr (), s\<lparr>agents_array := JArr ys, messages := messages s @ log_lines now e\<rparr>) \<and>
    (\<forall>y \<in> set ys. described y) \<and>
    mset (map agent_key ys) = agents_after e (mset (map agent_key xs))"
proof (cases e)
  case (Logged d)
  with e have "json_parse (console_wire e) = Inr (JObj [(''type'', JStr ''LOG''), (''data'', d)])"
    by (simp add: json.decode_encode del: render.simps)
  with Logged s show ?thesis
    by (cases now) (auto simp: console_onMessage_def comp_simps intro!: exI [of _ xs])
next
  case (Added a)
  then have "json_parse (console_wire e) =
      Inr (JObj [(''type'', JStr ''ADD''), (''data'', JStr (render a))])"
    by (simp add: json.decode_encode del: render.simps)
  with Added e s show ?thesis
    by (auto simp: console_onMessage_def agents_push_described bindM_def liftE_def
        intro!: exI [of _ "xs @ [a]"])
next
  case (Removed a)
  then have p: "json_parse (console_wire e) =
      Inr (JObj [(''type'', JStr ''REMOVE''), (''data'', JStr (render a))])"
    by (simp add: json.decode_encode del: render.simps)
  from Removed e s obtain ys where
    "agents_remove (JStr (render a)) s = (Inr (), s\<lparr>agents_array := JArr ys\<rparr>)"
    "\<forall>y \<in> set ys. described y" "mset (map agent_key ys) = mset (map agent_key xs) - {#agent_key a#}"
    using agents_remove_described [of a s xs] by auto
  with p Removed show ?thesis
    by (auto simp: console_onMessage_def bindM_def liftE_def intro!: exI [of _ ys])
qed

text \<open>
  C12. While the server describes agents properly, no event makes the handler throw, and
  after any sequence of events the page lists exactly the agents that are running: as a
  multiset of identifiers, those it listed before, plus one for each ADD, less one for each
  REMOVE; every LOG line is kept, in order, and nothing else is.
\<close>

theorem console_tracks:
  assumes "\<forall>(now, e) \<in> set evs. event_ok e" and "agents_array s = JArr xs" and "\<forall>x \<in> set xs. described x"
  shows "\<exists>ys. forM evs (\<lambda>(now, e). console_onMessage now (console_wire e)) s =
      (Inr (), s\<lparr>agents_array := JArr ys, messages := messages s @ concat (map (\<lambda>(now, e). log_lines now e) evs)\<rparr>) \<and>
    (\<forall>y \<in> set ys. described y) \<and>
    mset (map agent_key ys) = fold (\<lambda>(now, e). agents_after e) evs (mset (map agent_key xs))"
  using assms
proof (induction evs arbitrary: s xs)
  case Nil
  then show ?case by (intro exI [of _ xs]) (simp add: ret_def)
next
  case (Cons p evs)
  obtain now e where p: "p = (now, e)" by (cases p)
  let ?s = "\<lambda>ys. s\<lparr>agents_array := JArr ys, messages := messages s @ log_lines now e\<rparr>"
  from Cons.prems p obtain ys where st: "console_onMessage now (console_wire e) s = (Inr (), ?s ys)"
    and ys: "\<forall>y \<in> set ys. described y" "mset (map agent_key ys) = agents_after e (mset (map agent_key xs))"
    using console_event_step [of e s xs now] by auto
  from Cons.prems p have "\<forall>(now, e) \<in> set evs. event_ok e" by auto
  from Cons.IH [OF this, of "?s ys" ys] ys p st show ?case by (auto simp: seqM_Inr)
qed

theorem console_tracks_witness:
  "fst (forM [((9, 5, 30), Added (JObj [(''str'', JStr ''a@h'')])), ((9, 6, 0), Removed (JObj [(''str'', JStr ''a@h'')]))]
     (\<lambda>(now, e). console_onMessage now (console_wire e)) (ConsoleController (JArr []))) = Inr ()"
  using console_tracks [of "[((9, 5, 30), Added (JObj [(''str'', JStr ''a@h'')])), ((9, 6, 0), Removed (JObj [(''str'', JStr ''a@h'')]))]"
      "ConsoleController (JArr [])" "[]"]
  by (auto simp: described_def ConsoleController_def)

text \<open>
  The answer to the request for the running agents replaces the list, whatever the
  events have made of it: an agent announced before the answer arrives, and missing from
  it, is no longer listed, while the log is untouched.
\<close>

lemma answer_replaces_events:
  "running_answer data (snd (forM evs (\<lambda>(now, text_in). console_onMessage now text_in) s)) =
     (Inr (), (snd (forM evs (\<lambda>(now, text_in). console_onMessage now text_in) s))
       \<lparr>agents_array := (if loosely_empty data then JArr [] else data)\<rparr>)"
  by (simp add: running_answer_def running_response_def modS_def)

end
