(* ===== verification/ScrollGlue.thy ===== *)
theory ScrollGlue
  imports JsValue
begin

text \<open>
  The \<open>scroll-glue\<close> directives, \<open>js/scrollglue.js\<close>: an element that stays scrolled to one
  of its ends while its content grows, until the user scrolls away. The element is its
  scrolling geometry; \<open>'s\<close> is the scope the attribute's expression is evaluated in.
\<close>

record element =
  scrollTop :: int
  clientHeight :: int
  scrollHeight :: int
  scrollLeft :: int
  clientWidth :: int
  scrollWidth :: int

text \<open>Assigning a scroll offset: the browser keeps it within the content.\<close>

definition clamp :: "int \<Rightarrow> int \<Rightarrow> int" where
  "clamp limit v = max 0 (min v limit)"

definition set_scrollTop :: "int \<Rightarrow> element \<Rightarrow> element" where
  "set_scrollTop v el = el\<lparr>scrollTop := clamp (max 0 (scrollHeight el - clientHeight el)) v\<rparr>"

definition set_scrollLeft :: "int \<Rightarrow> element \<Rightarrow> element" where
  "set_scrollLeft v el = el\<lparr>scrollLeft := clamp (max 0 (scrollWidth el - clientWidth el)) v\<rparr>"

section \<open>Directions\<close>

record direction =
  isAttached :: "element \<Rightarrow> bool"
  scroll_to :: "element \<Rightarrow> element"

definition glue_bottom :: direction where
  "glue_bottom = \<lparr>isAttached = (\<lambda>el. scrollTop el + clientHeight el + 1 \<ge> scrollHeight el),
     scroll_to = (\<lambda>el. set_scrollTop (scrollHeight el) el)\<rparr>"

definition glue_top :: direction where
  "glue_top = \<lparr>isAttached = (\<lambda>el. scrollTop el \<le> 1), scroll_to = set_scrollTop 0\<rparr>"

definition glue_right :: direction where
  "glue_right = \<lparr>isAttached = (\<lambda>el. scrollLeft el + clientWidth el + 1 \<ge> scrollWidth el),
     scroll_to = (\<lambda>el. set_scrollLeft (scrollWidth el) el)\<rparr>"

definition glue_left :: direction where
  "glue_left = \<lparr>isAttached = (\<lambda>el. scrollLeft el \<le> 1), scroll_to = set_scrollLeft 0\<rparr>"

text \<open>The directives of the module, by attribute.\<close>

definition luegg_directives :: "(string \<times> direction) list" where
  "luegg_directives =
    [(''scrollGlue'', glue_bottom), (''scrollGlueTop'', glue_top),
     (''scrollGlueBottom'', glue_bottom), (''scrollGlueLeft'', glue_left),
     (''scrollGlueRight'', glue_right)]"

section \<open>Activation\<close>

text \<open>
  The three kinds of activation state: a flag of the directive's own, an expression that
  can only be read, an expression that can be assigned.
\<close>

datatype 's activation =
    Unbound bool
  | OneWay "'s \<Rightarrow> js"
  | TwoWay "'s \<Rightarrow> js" "'s \<Rightarrow> js \<Rightarrow> 's"

text \<open>
  \<open>createActivationState($parse, attr, scope)\<close>; \<open>$parse\<close> gives an expression's reader and,
  when it can be assigned, its writer.
\<close>

definition createActivationState ::
  "(string \<Rightarrow> ('s \<Rightarrow> js) \<times> ('s \<Rightarrow> js \<Rightarrow> 's) option) \<Rightarrow> string \<Rightarrow> 's activation" where
  "createActivationState parse attr =
    (if attr \<noteq> '''' then
       (case parse attr of
          (getter, Some setter) \<Rightarrow> TwoWay getter setter
        | (getter, None) \<Rightarrow> OneWay getter)
     else Unbound True)"

fun getValue :: "'s activation \<Rightarrow> 's \<Rightarrow> js" where
  "getValue (Unbound activated) scope = JBool activated"
| "getValue (OneWay getter) scope = getter scope"
| "getValue (TwoWay getter setter) scope = getter scope"

fun setValue :: "bool \<Rightarrow> 's activation \<Rightarrow> 's \<Rightarrow> 's activation \<times> 's" where
  "setValue v (Unbound activated) scope = (Unbound v, scope)"
| "setValue v (OneWay getter) scope = (OneWay getter, scope)"
| "setValue v (TwoWay getter setter) scope =
    (TwoWay getter setter,
     if strict_eq (JBool v) (getter scope) then scope else setter scope (JBool v))"

section \<open>The linked directive\<close>

record 's glue =
  el :: element
  activation :: "'s activation"
  scope :: 's

definition scrollIfGlued :: "direction \<Rightarrow> 's glue \<Rightarrow> 's glue" where
  "scrollIfGlued d g =
    (if truthy (getValue (activation g) (scope g)) \<and> \<not> isAttached d (el g)
     then g\<lparr>el := scroll_to d (el g)\<rparr> else g)"

definition onScroll :: "direction \<Rightarrow> 's glue \<Rightarrow> 's glue" where
  "onScroll d g =
    (case setValue (isAttached d (el g)) (activation g) (scope g) of
       (a, s) \<Rightarrow> g\<lparr>activation := a, scope := s\<rparr>)"

text \<open>
  What happens to a linked element: its content grows and a digest runs the watch; the user
  scrolls and the browser reports it; the window is resized.
\<close>

datatype glue_event = ContentGrows int | UserScrolls int | Resized int

definition glue_step :: "direction \<Rightarrow> glue_event \<Rightarrow> 's glue \<Rightarrow> 's glue" where
  "glue_step d e g =
    (case e of
       ContentGrows n \<Rightarrow> scrollIfGlued d (g\<lparr>el := (el g)\<lparr>scrollHeight := scrollHeight (el g) + n\<rparr>\<rparr>)
     | UserScrolls v \<Rightarrow> onScroll d (g\<lparr>el := set_scrollTop v (el g)\<rparr>)
     | Resized h \<Rightarrow> scrollIfGlued d (g\<lparr>el := (el g)\<lparr>clientHeight := h\<rparr>\<rparr>))"

section \<open>Lemmas\<close>

lemma scroll_attaches:
  assumes "d \<in> snd ` set luegg_directives" "0 \<le> clientHeight x" "0 \<le> clientWidth x"
  shows "isAttached d (scroll_to d x)"
  using assms
  by (auto simp: luegg_directives_def glue_bottom_def glue_top_def glue_left_def glue_right_def
      set_scrollTop_def set_scrollLeft_def clamp_def)

lemma scroll_keeps_size [simp]:
  "clientHeight (scroll_to glue_bottom x) = clientHeight x"
  "clientWidth (scroll_to glue_bottom x) = clientWidth x"
  by (simp_all add: glue_bottom_def set_scrollTop_def)

text \<open>The flag always says whether the user left the element at its end.\<close>

definition glue_inv :: "direction \<Rightarrow> 's glue \<Rightarrow> bool" where
  "glue_inv d g \<longleftrightarrow> 0 \<le> clientHeight (el g) \<and> 0 \<le> clientWidth (el g) \<and>
     (activation g = Unbound True \<and> isAttached d (el g) \<or> activation g = Unbound False)"

fun glue_event_ok :: "glue_event \<Rightarrow> bool" where
  "glue_event_ok (ContentGrows n) = (0 \<le> n)"
| "glue_event_ok (UserScrolls v) = True"
| "glue_event_ok (Resized h) = (0 \<le> h)"

lemma glue_inv_step:
  assumes "glue_inv glue_bottom g" "glue_event_ok e"
  shows "glue_inv glue_bottom (glue_step glue_bottom e g)"
proof (cases e)
  case (UserScrolls v)
  with assms show ?thesis
    by (auto simp: glue_inv_def glue_step_def onScroll_def set_scrollTop_def split: activation.splits)
next
  case (ContentGrows n)
  with assms show ?thesis
    using scroll_attaches [of glue_bottom]
    by (auto simp: glue_inv_def glue_step_def scrollIfGlued_def luegg_directives_def set_scrollTop_def)
next
  case (Resized h)
  with assms show ?thesis
    using scroll_attaches [of glue_bottom]
    by (auto simp: glue_inv_def glue_step_def scrollIfGlued_def luegg_directives_def)
qed

text \<open>The last place the user scrolled to, if any, decides; otherwise the start does.\<close>

definition glued_by :: "'s glue \<Rightarrow> bool" where
  "glued_by g \<longleftrightarrow> activation g = Unbound True"

text \<open>
  C13. An element glued to its bottom with no expression in the attribute: after any
  sequence of growing content, scrolling and resizing, it is at its bottom unless the user
  has scrolled away; and while the user is away, growing content never moves it.
\<close>

theorem glue_follows:
  assumes "glue_inv glue_bottom g" and "list_all glue_event_ok es"
  shows "(let g' = fold (glue_step glue_bottom) es g in
     (glued_by g' \<longrightarrow> isAttached glue_bottom (el g')) \<and>
     (\<not> glued_by g' \<longrightarrow> (\<forall>n. scrollTop (el (glue_step glue_bottom (ContentGrows n) g')) = scrollTop (el g'))) \<and>
     (\<forall>v. glued_by (glue_step glue_bottom (UserScrolls v) g') \<longleftrightarrow>
        isAttached glue_bottom (set_scrollTop v (el g'))))"
proof -
  let ?g = "fold (glue_step glue_bottom) es g"
  have inv: "glue_inv glue_bottom ?g"
    using assms by (induction es arbitrary: g) (auto intro: glue_inv_step)
  then show ?thesis
    by (auto simp: Let_def glue_inv_def glued_by_def glue_step_def scrollIfGlued_def onScroll_def)
qed

theorem glue_follows_witness:
  "isAttached glue_bottom (el (fold (glue_step glue_bottom) [ContentGrows 50, Resized 10]
    \<lparr>el = \<lparr>scrollTop = 0, clientHeight = 20, scrollHeight = 5, scrollLeft = 0, clientWidth = 9, scrollWidth = 9\<rparr>,
      activation = createActivationState (\<lambda>_. (\<lambda>_. JUndef, None)) '''', scope = ()\<rparr>))"
proof -
  let ?g = "\<lparr>el = \<lparr>scrollTop = 0, clientHeight = 20, scrollHeight = 5, scrollLeft = 0, clientWidth = 9, scrollWidth = 9\<rparr>,
      activation = createActivationState (\<lambda>_. (\<lambda>_. JUndef, None)) '''', scope = ()\<rparr>"
  have "glue_inv glue_bottom ?g" "list_all glue_event_ok [ContentGrows 50, Resized 10]"
    by (simp_all add: glue_inv_def createActivationState_def glue_bottom_def)
  from glue_follows [OF this] show ?thesis
    by (simp add: Let_def glued_by_def glue_step_def scrollIfGlued_def createActivationState_def glue_bottom_def)
qed

end
