(* ===== verification/NgUtil.thy ===== *)
theory NgUtil
  imports JsValue
begin

text \<open>
  The helpers of AngularJS 1.4.8 (\<open>js/angular.js\<close>, the copy the pages load) that the rest
  of the framework's model uses: case and white space, error messages, percent-encoding of
  query strings.
\<close>

section \<open>Case and white space\<close>

text \<open>\<open>toLowerCase\<close> on a character up to 255.\<close>

definition lower_char :: "char \<Rightarrow> char" where
  "lower_char c = (let n = (of_char c :: nat) in
     if 65 \<le> n \<and> n \<le> 90 \<or> 192 \<le> n \<and> n \<le> 222 \<and> n \<noteq> 215 then char_of (n + 32) else c)"

text \<open>\<open>toUpperCase\<close>, on characters that have a capital up to 255.\<close>

definition upper_char :: "char \<Rightarrow> char" where
  "upper_char c = (let n = (of_char c :: nat) in
     if 97 \<le> n \<and> n \<le> 122 \<or> 224 \<le> n \<and> n \<le> 254 \<and> n \<noteq> 247 then char_of (n - 32) else c)"

definition lowercase :: "string \<Rightarrow> string" where
  "lowercase s = map lower_char s"

definition uppercase :: "string \<Rightarrow> string" where
  "uppercase s = map upper_char s"

definition js_space :: "char \<Rightarrow> bool" where
  "js_space ch \<longleftrightarrow> (let n = (of_char ch :: nat) in 9 \<le> n \<and> n \<le> 13 \<or> n = 32 \<or> n = 160)"

definition trim :: "string \<Rightarrow> string" where
  "trim s = rev (dropWhile js_space (rev (dropWhile js_space s)))"

section \<open>Percent-encoding\<close>

text \<open>The language's \<open>encodeURIComponent\<close> on texts of characters up to 255 (UTF-8).\<close>

definition hex_upper :: "nat \<Rightarrow> char" where
  "hex_upper n = (if n < 10 then char_of (48 + n) else char_of (55 + n))"

definition pct_byte :: "nat \<Rightarrow> string" where
  "pct_byte n = [CHR ''%'', hex_upper (n div 16), hex_upper (n mod 16)]"

definition uri_unreserved :: "char \<Rightarrow> bool" where
  "uri_unreserved c \<longleftrightarrow> (let n = (of_char c :: nat) in
     97 \<le> n \<and> n \<le> 122 \<or> 65 \<le> n \<and> n \<le> 90 \<or> 48 \<le> n \<and> n \<le> 57 \<or>
     n \<in> {45, 95, 46, 33, 126, 42, 39, 40, 41})"

definition encode_char :: "char \<Rightarrow> string" where
  "encode_char c =
    (if uri_unreserved c then [c]
     else let n = of_char c in
       if n < 128 then pct_byte n
       else pct_byte (192 + n div 64) @ pct_byte (128 + n mod 64))"

definition encodeURIComponent :: "string \<Rightarrow> string" where
  "encodeURIComponent s = concat (map encode_char s)"

section \<open>Error messages\<close>

text \<open>The placeholders \<open>{0}\<close>, \<open>{1}\<close>, ... of a template, filled in.\<close>

lemma placeholder_shrinks: "length (tl (dropWhile is_digit cs)) < Suc (length cs)"
  using length_dropWhile_le [of is_digit cs] by (simp add: less_Suc_eq_le diff_le_self le_trans)

function fill_template :: "string list \<Rightarrow> string \<Rightarrow> string" where
  "fill_template args [] = []"
| "fill_template args (c # cs) =
    (if c = CHR ''{'' \<and> takeWhile is_digit cs \<noteq> [] \<and> dropWhile is_digit cs \<noteq> [] \<and>
        hd (dropWhile is_digit cs) = CHR ''}''
     then (if digits_val (takeWhile is_digit cs) < length args
           then args ! digits_val (takeWhile is_digit cs)
           else [CHR ''{''] @ takeWhile is_digit cs @ [CHR ''}''])
          @ fill_template args (tl (dropWhile is_digit cs))
     else c # fill_template args cs)"
  by pat_completeness auto
termination
  by (relation "measure (\<lambda>(args, s). length s)")
    (simp_all add: placeholder_shrinks del: length_tl)

definition err_query :: "nat \<Rightarrow> string \<Rightarrow> string" where
  "err_query i arg = (if i = 0 then ''?'' else ''&'') @ ''p'' @ nat_str i @ ''='' @ encodeURIComponent arg"

definition minErr :: "string \<Rightarrow> string \<Rightarrow> string \<Rightarrow> string list \<Rightarrow> js_error" where
  "minErr ns code template args =
    (let scope = (if ns \<noteq> [] then ns @ '':'' else []);
         path = (if ns \<noteq> [] then ns @ ''/'' else [])
     in ErrorMsg (''['' @ scope @ code @ ''] '' @ fill_template args template @ [CHR 0x0A] @
        ''http://errors.angularjs.org/1.4.8/'' @ path @ code @
        concat (map (\<lambda>i. err_query i (args ! i)) [0..<length args])))"

end
