(* ===== verification/NgModules.thy ===== *)
theory NgModules
  imports NgUtil Prelude
begin

text \<open>
  Angular's module registry, \<open>setupModuleLoader\<close> of \<open>js/angular.js\<close>: modules are created
  or looked up by name, and what a script registers on one is queued until the injector
  loads it. A module object is a reference into the list of objects created so far (a
  second creation under the same name makes a new object); \<open>'fn\<close> are the functions the
  scripts register.
\<close>

record 'fn recipe =
  r_provider :: string
  r_method :: string
  r_name :: string
  r_fn :: 'fn

record 'fn ng_module =
  mod_name :: string
  requires :: "string list"
  invokeQueue :: "'fn recipe list"
  configBlocks :: "'fn recipe list"
  runBlocks :: "'fn list"

record 'fn registry =
  objects :: "'fn ng_module list"
  table :: "(string \<times> nat option) list"
  moduleNames :: "('fn \<times> string) list"

definition no_modules :: "'fn registry" where
  "no_modules = \<lparr>objects = [], table = [], moduleNames = []\<rparr>"

section \<open>Registering on a module\<close>

definition update_module :: "nat \<Rightarrow> ('fn ng_module \<Rightarrow> 'fn ng_module) \<Rightarrow> ('fn registry, nat) comp" where
  "update_module i f =
    bindM (modS (\<lambda>s. s\<lparr>objects := (objects s)[i := f (objects s ! i)]\<rparr>)) (\<lambda>_. ret i)"

text \<open>\<open>invokeLater(provider, method, insertMethod, queue)\<close>, for the queues of a module.\<close>

definition invokeLater :: "string \<Rightarrow> string \<Rightarrow> bool \<Rightarrow> nat \<Rightarrow> string \<Rightarrow> 'fn \<Rightarrow> ('fn registry, nat) comp" where
  "invokeLater provider method unshift i name fn =
    (let r = \<lparr>r_provider = provider, r_method = method, r_name = name, r_fn = fn\<rparr> in
     update_module i (\<lambda>m. m\<lparr>invokeQueue :=
       (if unshift then r # invokeQueue m else invokeQueue m @ [r])\<rparr>))"

definition config_block :: "nat \<Rightarrow> 'fn \<Rightarrow> ('fn registry, nat) comp" where
  "config_block i fn =
    update_module i (\<lambda>m. m\<lparr>configBlocks := configBlocks m @
      [\<lparr>r_provider = ''$injector'', r_method = ''invoke'', r_name = '''', r_fn = fn\<rparr>]\<rparr>)"

text \<open>\<open>invokeLaterAndSetModuleName\<close>: the function also remembers the module's name.\<close>

definition invokeLaterAndSetModuleName ::
  "string \<Rightarrow> string \<Rightarrow> nat \<Rightarrow> string \<Rightarrow> 'fn \<Rightarrow> ('fn registry, nat) comp" where
  "invokeLaterAndSetModuleName provider method i name fn =
    bindM (getS (\<lambda>s. mod_name (objects s ! i))) (\<lambda>nm.
    seqM (modS (\<lambda>s. s\<lparr>moduleNames := aput fn nm (moduleNames s)\<rparr>))
    (update_module i (\<lambda>m. m\<lparr>invokeQueue := invokeQueue m @
      [\<lparr>r_provider = provider, r_method = method, r_name = name, r_fn = fn\<rparr>]\<rparr>)))"

definition run_block :: "nat \<Rightarrow> 'fn \<Rightarrow> ('fn registry, nat) comp" where
  "run_block i fn = update_module i (\<lambda>m. m\<lparr>runBlocks := runBlocks m @ [fn]\<rparr>)"

text \<open>The registration methods of a module object.\<close>

datatype registration =
    Provider | Factory | Service | Value | Constant | Decorator | Animation | Filter
  | Controller | Directive | Config | Run

fun register :: "registration \<Rightarrow> nat \<Rightarrow> string \<Rightarrow> 'fn \<Rightarrow> ('fn registry, nat) comp" where
  "register Provider = invokeLaterAndSetModuleName ''$provide'' ''provider''"
| "register Factory = invokeLaterAndSetModuleName ''$provide'' ''factory''"
| "register Service = invokeLaterAndSetModuleName ''$provide'' ''service''"
| "register Value = invokeLater ''$provide'' ''value'' False"
| "register Constant = invokeLater ''$provide'' ''constant'' True"
| "register Decorator = invokeLaterAndSetModuleName ''$provide'' ''decorator''"
| "register Animation = invokeLaterAndSetModuleName ''$animateProvider'' ''register''"
| "register Filter = invokeLaterAndSetModuleName ''$filterProvider'' ''register''"
| "register Controller = invokeLaterAndSetModuleName ''$controllerProvider'' ''register''"
| "register Directive = invokeLaterAndSetModuleName ''$compileProvider'' ''directive''"
| "register Config = (\<lambda>i _. config_block i)"
| "register Run = (\<lambda>i _. run_block i)"

section \<open>Creating and finding modules\<close>

text \<open>
  A lookup in the plain object of modules also finds what every object inherits; only
  \<open>hasOwnProperty\<close> is refused as a name.
\<close>

definition inherited_names :: "string list" where
  "inherited_names = [''constructor'', ''toString'', ''toLocaleString'', ''valueOf'',
     ''isPrototypeOf'', ''propertyIsEnumerable'', ''__proto__'', ''__defineGetter__'',
     ''__defineSetter__'', ''__lookupGetter__'', ''__lookupSetter__'']"

datatype module_ref = ModuleObject nat | InheritedMember string

definition assertNotHasOwnProperty :: "string \<Rightarrow> string \<Rightarrow> ('s, unit) comp" where
  "assertNotHasOwnProperty name context =
    (if name = ''hasOwnProperty''
     then throw (minErr ''ng'' ''badname'' ''hasOwnProperty is not a valid {0} name'' [context])
     else ret ())"

definition nomod_template :: string where
  "nomod_template = ''Module '' @ [CHR 0x27] @ ''{0}'' @ [CHR 0x27] @ '' is not available! You either misspelled ''
    @ ''the module name or forgot to load it. If registering a module ensure that you ''
    @ ''specify the dependencies as the second argument.''"

text \<open>\<open>ensure(modules, name, ...)\<close>: what the table gives for a name, if anything truthy.\<close>

definition find_module :: "string \<Rightarrow> 'fn registry \<Rightarrow> module_ref option" where
  "find_module name s =
    (case map_of (table s) name of
       Some (Some i) \<Rightarrow> Some (ModuleObject i)
     | Some None \<Rightarrow> None
     | None \<Rightarrow> (if name \<in> set inherited_names then Some (InheritedMember name) else None))"

definition new_module :: "string \<Rightarrow> string list \<Rightarrow> 'fn option \<Rightarrow> ('fn registry, module_ref) comp" where
  "new_module name reqs configFn =
    bindM (getS (\<lambda>s. length (objects s))) (\<lambda>i.
    seqM (modS (\<lambda>s. s\<lparr>objects := objects s @ [\<lparr>mod_name = name, requires = reqs, invokeQueue = [],
           configBlocks = [], runBlocks = []\<rparr>]\<rparr>))
    (seqM (case configFn of None \<Rightarrow> ret i | Some fn \<Rightarrow> config_block i fn)
    (seqM (modS (\<lambda>s. s\<lparr>table := aput name (Some i) (table s)\<rparr>))
    (ret (ModuleObject i)))))"

definition angular_module ::
  "string \<Rightarrow> string list option \<Rightarrow> 'fn option \<Rightarrow> ('fn registry, module_ref) comp" where
  "angular_module name reqs configFn =
    seqM (assertNotHasOwnProperty name ''module'')
    (seqM (modS (\<lambda>s. if reqs \<noteq> None \<and> name \<in> set (akeys (table s))
                     then s\<lparr>table := aput name None (table s)\<rparr> else s))
    (bindM (getS (find_module name)) (\<lambda>found.
       case found of
         Some ref \<Rightarrow> ret ref
       | None \<Rightarrow>
          (case reqs of
             None \<Rightarrow> throw (minErr ''$injector'' ''nomod'' nomod_template [name])
           | Some rs \<Rightarrow> new_module name rs configFn))))"

text \<open>A script's call chain: \<open>angular.module(name).method(recipe, fn)\<close>.\<close>

datatype 'fn script_call =
    DeclareModule string "string list"
  | RegisterOn string registration string 'fn

fun run_call :: "'fn script_call \<Rightarrow> ('fn registry, unit) comp" where
  "run_call (DeclareModule name reqs) = bindM (angular_module name (Some reqs) None) (\<lambda>_. ret ())"
| "run_call (RegisterOn m kind name fn) =
    bindM (angular_module m None None) (\<lambda>ref.
      case ref of
        ModuleObject i \<Rightarrow> bindM (register kind i name fn) (\<lambda>_. ret ())
      | InheritedMember n \<Rightarrow> throw (TypeError n))"

definition run_scripts :: "'fn script_call list \<Rightarrow> ('fn registry, unit) comp" where
  "run_scripts ds = forM ds run_call"

section \<open>The registry stays consistent\<close>

definition registry_ok :: "'fn registry \<Rightarrow> bool" where
  "registry_ok s \<longleftrightarrow> distinct (akeys (table s)) \<and>
     (\<forall>name i. map_of (table s) name = Some (Some i) \<longrightarrow>
        i < length (objects s) \<and> mod_name (objects s ! i) = name)"

lemma registry_ok_no_modules: "registry_ok no_modules"
  by (simp add: registry_ok_def no_modules_def akeys_def)

lemma update_module_run: "update_module i f s = (Inr i, s\<lparr>objects := (objects s)[i := f (objects s ! i)]\<rparr>)"
  by (simp add: update_module_def comp_simps)

lemma registry_ok_update:
  assumes "registry_ok s" "\<And>m. mod_name (f m) = mod_name m"
  shows "registry_ok (s\<lparr>objects := (objects s)[i := f (objects s ! i)]\<rparr>)"
  using assms
  by (cases "i < length (objects s)")
    (auto simp: registry_ok_def nth_list_update not_less list_update_beyond)

lemma keeps_registry_ok_update [keeps_rules]:
  "(\<And>m. mod_name (f m) = mod_name m) \<Longrightarrow> keeps registry_ok (update_module i f)"
  by (simp add: keeps_def update_module_run registry_ok_update)

lemma keeps_registry_ok_register [keeps_rules]: "keeps registry_ok (register kind i name fn)"
proof -
  have names: "keeps registry_ok (modS (\<lambda>s. s\<lparr>moduleNames := f s\<rparr>))" for f :: "'a registry \<Rightarrow> ('a \<times> string) list"
    by (rule keeps_modS) (simp add: registry_ok_def)
  show ?thesis
    by (cases kind) (auto simp: invokeLater_def invokeLaterAndSetModuleName_def config_block_def
        run_block_def Let_def intro!: keeps_rules names)
qed

lemma keeps_registry_ok_new [keeps_rules]: "keeps registry_ok (new_module name rs configFn)"
proof (rule keepsI)
  fix s :: "'a registry" assume ok: "registry_ok s"
  let ?t = "\<lambda>bs. s\<lparr>objects := objects s @ [\<lparr>mod_name = name, requires = rs, invokeQueue = [],
    configBlocks = bs, runBlocks = []\<rparr>], table := aput name (Some (length (objects s))) (table s)\<rparr>"
  have "\<exists>bs. snd (new_module name rs configFn s) = ?t bs"
    by (auto simp: new_module_def comp_simps config_block_def update_module_def split: option.split)
  then obtain bs where t: "snd (new_module name rs configFn s) = ?t bs" ..
  from ok show "registry_ok (snd (new_module name rs configFn s))"
    unfolding t by (auto simp: registry_ok_def nth_append split: if_splits) fastforce+
qed

lemma keeps_registry_ok_call [keeps_rules]: "keeps registry_ok (run_call c)"
proof -
  have "keeps registry_ok (modS (\<lambda>s. if b \<and> name \<in> set (akeys (table s))
      then s\<lparr>table := aput name None (table s)\<rparr> else s))" for b name
    by (rule keeps_modS) (auto simp: registry_ok_def split: if_splits)
  then have "keeps registry_ok (angular_module name rs fn)" for name rs and fn :: "'a option"
    unfolding angular_module_def assertNotHasOwnProperty_def by (auto intro!: keeps_rules)
  then show ?thesis
    by (cases c) (auto intro!: keeps_rules split: module_ref.split)
qed

lemma registry_ok_run_scripts: "registry_ok s \<Longrightarrow> registry_ok (snd (run_scripts ds s))"
  unfolding run_scripts_def by (rule keepsD) (auto intro!: keeps_rules)

section \<open>What is queued on a module\<close>

definition later_recipe :: "registration \<Rightarrow> string \<Rightarrow> 'fn \<Rightarrow> 'fn recipe" where
  "later_recipe kind name fn =
    (case kind of
       Provider \<Rightarrow> \<lparr>r_provider = ''$provide'', r_method = ''provider'', r_name = name, r_fn = fn\<rparr>
     | Factory \<Rightarrow> \<lparr>r_provider = ''$provide'', r_method = ''factory'', r_name = name, r_fn = fn\<rparr>
     | Service \<Rightarrow> \<lparr>r_provider = ''$provide'', r_method = ''service'', r_name = name, r_fn = fn\<rparr>
     | Value \<Rightarrow> \<lparr>r_provider = ''$provide'', r_method = ''value'', r_name = name, r_fn = fn\<rparr>
     | Constant \<Rightarrow> \<lparr>r_provider = ''$provide'', r_method = ''constant'', r_name = name, r_fn = fn\<rparr>
     | Decorator \<Rightarrow> \<lparr>r_provider = ''$provide'', r_method = ''decorator'', r_name = name, r_fn = fn\<rparr>
     | Animation \<Rightarrow> \<lparr>r_provider = ''$animateProvider'', r_method = ''register'', r_name = name, r_fn = fn\<rparr>
     | Filter \<Rightarrow> \<lparr>r_provider = ''$filterProvider'', r_method = ''register'', r_name = name, r_fn = fn\<rparr>
     | Controller \<Rightarrow> \<lparr>r_provider = ''$controllerProvider'', r_method = ''register'', r_name = name, r_fn = fn\<rparr>
     | Directive \<Rightarrow> \<lparr>r_provider = ''$compileProvider'', r_method = ''directive'', r_name = name, r_fn = fn\<rparr>
     | _ \<Rightarrow> \<lparr>r_provider = ''$injector'', r_method = ''invoke'', r_name = '''', r_fn = fn\<rparr>)"

text \<open>A module after a list of registrations: the constants come first, latest first.\<close>

definition queued_on :: "(registration \<times> string \<times> 'fn) list \<Rightarrow> 'fn ng_module \<Rightarrow> 'fn ng_module" where
  "queued_on rs m = m\<lparr>
     invokeQueue := rev [later_recipe k n f. (k, n, f) \<leftarrow> rs, k = Constant] @ invokeQueue m @
       [later_recipe k n f. (k, n, f) \<leftarrow> rs, k \<noteq> Constant \<and> k \<noteq> Config \<and> k \<noteq> Run],
     configBlocks := configBlocks m @ [later_recipe k n f. (k, n, f) \<leftarrow> rs, k = Config],
     runBlocks := runBlocks m @ [f. (k, n, f) \<leftarrow> rs, k = Run]\<rparr>"

lemma queued_on_Nil [simp]: "queued_on [] m = m"
  by (simp add: queued_on_def)

lemma queued_on_Cons: "queued_on (r # rs) m = queued_on rs (queued_on [r] m)"
  by (cases r) (auto simp: queued_on_def)

lemma register_run:
  "register kind i name fn s =
    (Inr i, s\<lparr>objects := (objects s)[i := queued_on [(kind, name, fn)] (objects s ! i)],
       moduleNames := (if kind \<in> {Value, Constant, Config, Run} then moduleNames s
         else aput fn (mod_name (objects s ! i)) (moduleNames s))\<rparr>)"
  by (cases kind) (simp_all add: invokeLater_def invokeLaterAndSetModuleName_def config_block_def
      run_block_def update_module_def Let_def queued_on_def later_recipe_def comp_simps)

lemma find_module_frame [simp]:
  "find_module m (s\<lparr>objects := os\<rparr>) = find_module m s"
  "find_module m (s\<lparr>moduleNames := nms\<rparr>) = find_module m s"
  by (simp_all add: find_module_def)

lemma angular_module_get:
  assumes "find_module m s = Some r" "m \<noteq> ''hasOwnProperty''"
  shows "angular_module m None None s = (Inr r, s)"
  using assms by (simp add: angular_module_def assertNotHasOwnProperty_def comp_simps)

text \<open>
  Registering on a declared module never fails and changes that module only: its queue
  gets the new recipes at its end, in the order they were registered, except constants,
  which go to its front (the latest first), configuration and run blocks, which go to
  queues of their own; every other module and the table stay as they were.
\<close>

theorem registrations_queue:
  assumes "find_module m s = Some (ModuleObject i)" and "i < length (objects s)" and "m \<noteq> ''hasOwnProperty''"
  shows "\<exists>t. run_scripts (map (\<lambda>(k, n, f). RegisterOn m k n f) rs) s = (Inr (), t) \<and>
    objects t = (objects s)[i := queued_on rs (objects s ! i)] \<and> table t = table s"
  using assms
proof (induction rs arbitrary: s)
  case Nil
  then show ?case by (simp add: run_scripts_def ret_def)
next
  case (Cons r rs)
  obtain k n f where r: "r = (k, n, f)" by (cases r)
  note reg = register_run [of k i n f s]
  let ?s' = "snd (register k i n f s)"
  have step: "run_call (RegisterOn m k n f) s = (Inr (), ?s')"
    using Cons.prems by (simp add: bindM_def angular_module_get reg ret_def)
  from Cons.IH [of ?s'] Cons.prems show ?case
    by (auto simp: run_scripts_def r seqM_def bindM_def step reg
        queued_on_Cons [of "(k, n, f)" rs] simp del: run_call.simps)
qed

theorem registrations_queue_witness:
  "\<exists>t. run_scripts [RegisterOn ''m'' Factory ''a'' 1, RegisterOn ''m'' Constant ''c'' (2::nat)]
     (snd (run_scripts [DeclareModule ''m'' []] no_modules)) = (Inr (), t) \<and>
     map r_name (invokeQueue (objects t ! 0)) = [''c'', ''a'']"
proof -
  let ?s = "snd (run_scripts [DeclareModule ''m'' []] no_modules) :: nat registry"
  have "find_module ''m'' ?s = Some (ModuleObject 0)" "objects ?s = [\<lparr>mod_name = ''m'', requires = [],
      invokeQueue = [], configBlocks = [], runBlocks = []\<rparr>]" by code_simp+
  from registrations_queue [of "''m''" ?s 0 "[(Factory, ''a'', 1), (Constant, ''c'', 2)]"] this
  show ?thesis by (auto simp: queued_on_def later_recipe_def)
qed

section \<open>What a page's scripts declare\<close>

definition requires_of :: "'fn registry \<Rightarrow> string \<Rightarrow> string list option" where
  "requires_of s m = (case map_of (table s) m of
     Some (Some i) \<Rightarrow> Some (requires (objects s ! i)) | _ \<Rightarrow> None)"

definition good_name :: "string \<Rightarrow> bool" where
  "good_name m \<longleftrightarrow> m \<noteq> ''hasOwnProperty'' \<and> m \<notin> set inherited_names"

fun declared_modules :: "'fn script_call list \<Rightarrow> (string \<times> string list) list" where
  "declared_modules [] = []"
| "declared_modules (DeclareModule m rs # cs) = (m, rs) # declared_modules cs"
| "declared_modules (RegisterOn m k n f # cs) = declared_modules cs"

text \<open>Scripts that only register on modules declared before.\<close>

fun scripts_ok :: "string list \<Rightarrow> 'fn script_call list \<Rightarrow> bool" where
  "scripts_ok known [] = True"
| "scripts_ok known (DeclareModule m rs # cs) = (good_name m \<and> scripts_ok (m # known) cs)"
| "scripts_ok known (RegisterOn m k n f # cs) = (m \<in> set known \<and> scripts_ok known cs)"

lemma find_module_own: "requires_of s m \<noteq> None \<Longrightarrow> \<exists>i. map_of (table s) m = Some (Some i) \<and> find_module m s = Some (ModuleObject i)"
  by (auto simp: requires_of_def find_module_def split: option.splits)

lemma declare_call:
  assumes "good_name m" "registry_ok s"
  shows "\<exists>t. run_call (DeclareModule m rs) s = (Inr (), t) \<and>
    requires_of t = (requires_of s)(m \<mapsto> rs)"
proof -
  let ?s = "if m \<in> set (akeys (table s)) then s\<lparr>table := aput m None (table s)\<rparr> else s"
  let ?o = "\<lparr>mod_name = m, requires = rs, invokeQueue = [], configBlocks = [], runBlocks = []\<rparr>"
  let ?t = "?s\<lparr>objects := objects s @ [?o], table := aput m (Some (length (objects s))) (table ?s)\<rparr>"
  have "find_module m ?s = None"
    using assms(1)
    by (cases "m \<in> set (akeys (table s))")
      (auto simp: find_module_def good_name_def map_of_akeys [symmetric] split: option.split)
  then have "run_call (DeclareModule m rs) s = (Inr (), ?t)"
    using assms(1) by (simp add: angular_module_def assertNotHasOwnProperty_def good_name_def
        new_module_def comp_simps)
  moreover have "requires_of ?t = (requires_of s)(m \<mapsto> rs)"
    using assms(2) by (auto simp: requires_of_def registry_ok_def nth_append fun_eq_iff split: option.splits)
  ultimately show ?thesis by blast
qed

lemma register_call:
  assumes "requires_of s m \<noteq> None" "m \<noteq> ''hasOwnProperty''" "registry_ok s"
  shows "\<exists>t. run_call (RegisterOn m k n f) s = (Inr (), t) \<and> requires_of t = requires_of s"
proof -
  obtain i where i: "map_of (table s) m = Some (Some i)" "find_module m s = Some (ModuleObject i)"
    using find_module_own [OF assms(1)] by blast
  let ?t = "snd (register k i n f s)"
  have "run_call (RegisterOn m k n f) s = (Inr (), ?t)"
    using i(2) assms(2) by (simp add: bindM_def angular_module_get register_run ret_def)
  moreover have "requires_of ?t = requires_of s"
    using i(1) assms(3)
    by (auto simp: requires_of_def register_run registry_ok_def nth_list_update queued_on_def fun_eq_iff
        split: option.splits)
  ultimately show ?thesis by blast
qed

text \<open>
  Scripts that register only on modules declared before them never fail, and afterwards
  every module requires what its last declaration says.
\<close>

theorem scripts_declare:
  assumes "scripts_ok known cs" and "registry_ok s"
    and "\<forall>m \<in> set known. requires_of s m \<noteq> None \<and> m \<noteq> ''hasOwnProperty''"
  shows "\<exists>t. run_scripts cs s = (Inr (), t) \<and>
    requires_of t = requires_of s ++ map_of (rev (declared_modules cs))"
  using assms
proof (induction cs arbitrary: s known)
  case Nil
  then show ?case by (simp add: run_scripts_def ret_def)
next
  case (Cons c cs)
  have ok: "registry_ok t" if "run_call c s = (Inr (), t)" for t
    using keepsD [OF keeps_registry_ok_call Cons.prems(2), of c] that by simp
  have go: "run_scripts (c # cs) s = run_scripts cs t" if "run_call c s = (Inr (), t)" for t
    using that by (simp add: run_scripts_def seqM_def bindM_def del: run_call.simps)
  show ?case
  proof (cases c)
    case (DeclareModule m rs)
    with Cons.prems obtain t where t: "run_call c s = (Inr (), t)" "requires_of t = (requires_of s)(m \<mapsto> rs)"
      using declare_call [of m s rs] by auto
    have "\<exists>u. run_scripts cs t = (Inr (), u) \<and> requires_of u = requires_of t ++ map_of (rev (declared_modules cs))"
      using Cons.prems DeclareModule t ok by (intro Cons.IH [of "m # known"]) (auto simp: good_name_def)
    moreover have "requires_of t ++ f = requires_of s ++ ([m \<mapsto> rs] ++ f)" for f
      by (simp add: t(2) map_add_def fun_eq_iff split: option.split)
    ultimately show ?thesis using t go DeclareModule by auto
  next
    case (RegisterOn m k n f)
    with Cons.prems obtain t where t: "run_call c s = (Inr (), t)" "requires_of t = requires_of s"
      using register_call [of s m k n f] by auto
    have "\<exists>u. run_scripts cs t = (Inr (), u) \<and> requires_of u = requires_of t ++ map_of (rev (declared_modules cs))"
      using Cons.prems RegisterOn t ok by (intro Cons.IH [of known]) auto
    with t go RegisterOn show ?thesis by auto
  qed
qed

theorem scripts_declare_witness:
  "\<exists>t. run_scripts [DeclareModule ''m'' [''n''], RegisterOn ''m'' Factory ''a'' (1::nat)] no_modules = (Inr (), t) \<and>
     requires_of t ''m'' = Some [''n'']"
  using scripts_declare [of "[]" "[DeclareModule ''m'' [''n''], RegisterOn ''m'' Factory ''a'' (1::nat)]" no_modules]
  by (auto simp: registry_ok_no_modules good_name_def inherited_names_def)

end
