(* ===== verification/NgInjector.thy ===== *)
theory NgInjector
  imports NgModules
begin

text \<open>
  Angular's injector, \<open>createInjector\<close> of \<open>js/angular.js\<close>: services are created on first
  use from the providers the modules registered, once each, with their dependencies; a
  marker in the cache detects circular dependencies. A service is a value of \<open>'v option\<close>
  (None is undefined); a provider's \<open>$get\<close> is its dependencies and the value it computes
  from theirs.
\<close>

datatype 'v provider =
    Provides "string list" "'v option list \<Rightarrow> js_error + 'v option" bool bool
  | Decorates "'v provider" "string list" "'v option list \<Rightarrow> js_error + 'v option"

datatype 'v provider_entry = PProvider "'v provider" | PConstant "'v option"

datatype 'v slot = Instantiating | Ready "'v option"

record 'v injector =
  providerCache :: "(string \<times> 'v provider_entry) list"
  instanceCache :: "(string \<times> 'v slot) list"
  ipath :: "string list"

definition new_injector :: "'v injector" where
  "new_injector = \<lparr>providerCache = [], instanceCache = [], ipath = []\<rparr>"

abbreviation provider_name :: "string \<Rightarrow> string" where
  "provider_name name \<equiv> name @ ''Provider''"

section \<open>Registering providers: the methods of \<open>$provide\<close>\<close>

text \<open>
  \<open>provider(name, object)\<close>. The flags of \<open>Provides\<close>: whether a value is required of it
  (\<open>enforceReturnValue\<close>), and whether its dependencies are requested in its name.
\<close>

definition provide_provider :: "string \<Rightarrow> 'v provider \<Rightarrow> ('v injector, unit) comp" where
  "provide_provider name p =
    seqM (assertNotHasOwnProperty name ''service'')
    (modS (\<lambda>s. s\<lparr>providerCache := aput (provider_name name) (PProvider p) (providerCache s)\<rparr>))"

definition provide_factory ::
  "string \<Rightarrow> string list \<Rightarrow> ('v option list \<Rightarrow> js_error + 'v option) \<Rightarrow> ('v injector, unit) comp" where
  "provide_factory name deps run = provide_provider name (Provides deps run True False)"

definition provide_service ::
  "string \<Rightarrow> string list \<Rightarrow> ('v option list \<Rightarrow> js_error + 'v) \<Rightarrow> ('v injector, unit) comp" where
  "provide_service name deps construct = provide_factory name deps
    (\<lambda>args. case construct args of Inl e \<Rightarrow> Inl e | Inr v \<Rightarrow> Inr (Some v))"

definition provide_value :: "string \<Rightarrow> 'v option \<Rightarrow> ('v injector, unit) comp" where
  "provide_value name v = provide_provider name (Provides [] (\<lambda>_. Inr v) False False)"

definition provide_constant :: "string \<Rightarrow> 'v option \<Rightarrow> ('v injector, unit) comp" where
  "provide_constant name v =
    seqM (assertNotHasOwnProperty name ''constant'')
    (modS (\<lambda>s. s\<lparr>providerCache := aput name (PConstant v) (providerCache s),
                 instanceCache := aput name (Ready v) (instanceCache s)\<rparr>))"

text \<open>\<open>providerInjector.get(name, caller)\<close>: what is registered, or an error naming the path.\<close>

definition provider_get :: "string \<Rightarrow> string option \<Rightarrow> ('v injector, 'v provider_entry) comp" where
  "provider_get name caller s =
    (case map_of (providerCache s) name of
       Some p \<Rightarrow> (Inr p, s)
     | None \<Rightarrow>
        let path1 = name # ipath s;
            path2 = (case caller of None \<Rightarrow> path1 | Some c \<Rightarrow> path1 @ [c])
        in (Inl (minErr ''$injector'' ''unpr'' ''Unknown provider: {0}'' [join '' <- '' path2]),
            s\<lparr>ipath := tl path2\<rparr>))"

definition provide_decorator ::
  "string \<Rightarrow> string list \<Rightarrow> ('v option list \<Rightarrow> js_error + 'v option) \<Rightarrow> ('v injector, unit) comp" where
  "provide_decorator name deps run =
    bindM (provider_get (provider_name name) None) (\<lambda>entry.
      case entry of
        PProvider p \<Rightarrow> modS (\<lambda>s. s\<lparr>providerCache :=
          aput (provider_name name) (PProvider (Decorates p deps run)) (providerCache s)\<rparr>)
      | PConstant v \<Rightarrow> (if v = None then throw (TypeError ''$get'') else ret ()))"

section \<open>Creating services\<close>

definition enter :: "string \<Rightarrow> 'v injector \<Rightarrow> 'v injector" where
  "enter name s = s\<lparr>ipath := name # ipath s, instanceCache := aput name Instantiating (instanceCache s)\<rparr>"

definition abandon :: "string \<Rightarrow> 'v injector \<Rightarrow> 'v injector" where
  "abandon name s = s\<lparr>ipath := tl (ipath s), instanceCache :=
     (if map_of (instanceCache s) name = Some Instantiating then adel name (instanceCache s)
      else instanceCache s)\<rparr>"

definition finish :: "string \<Rightarrow> 'v option \<Rightarrow> 'v injector \<Rightarrow> 'v injector" where
  "finish name v s = s\<lparr>ipath := tl (ipath s), instanceCache := aput name (Ready v) (instanceCache s)\<rparr>"

fun provider_size :: "'v provider \<Rightarrow> nat" where
  "provider_size (Provides deps run enforce named) = 2 + length deps"
| "provider_size (Decorates p deps run) = provider_size p + 2 + length deps"

definition undef_error :: "string \<Rightarrow> js_error" where
  "undef_error name = minErr ''$injector'' ''undef''
    (''Provider '' @ [CHR 0x27] @ ''{0}'' @ [CHR 0x27] @ '' must return a value from $get factory method.'') [name]"

definition cdep_error :: "string \<Rightarrow> string list \<Rightarrow> js_error" where
  "cdep_error name path = minErr ''$injector'' ''cdep'' ''Circular dependency found: {0}''
    [name @ '' <- '' @ join '' <- '' path]"

text \<open>
  \<open>getService\<close>, the provider's \<open>$get\<close>, and the argument loop of \<open>invoke\<close>. The first
  argument bounds the depth of services being created at once; None means the bound was
  too small (\<open>creation_ends\<close> says how much is enough).
\<close>

function (sequential) get_service ::
    "nat \<Rightarrow> string \<Rightarrow> string option \<Rightarrow> 'v injector \<Rightarrow> ((js_error + 'v option) \<times> 'v injector) option"
  and run_provider ::
    "nat \<Rightarrow> string \<Rightarrow> bool \<Rightarrow> 'v provider \<Rightarrow> 'v injector \<Rightarrow> ((js_error + 'v option) \<times> 'v injector) option"
  and get_args ::
    "nat \<Rightarrow> (string \<times> 'v option) list \<Rightarrow> string option \<Rightarrow> string list \<Rightarrow> 'v injector
      \<Rightarrow> ((js_error + 'v option list) \<times> 'v injector) option" where
  "get_service 0 name caller s = None"
| "get_service (Suc n) name caller s =
    (case map_of (instanceCache s) name of
       Some Instantiating \<Rightarrow> Some (Inl (cdep_error name (ipath s)), s)
     | Some (Ready v) \<Rightarrow> Some (Inr v, s)
     | None \<Rightarrow>
        (case provider_get (provider_name name) caller (enter name s) of
           (Inl e, t) \<Rightarrow> Some (Inl e, abandon name t)
         | (Inr (PConstant v), t) \<Rightarrow>
            Some (Inl (if v = None then TypeError ''$get''
                       else minErr ''ng'' ''areq'' ''Argument {0} is {1}'' [''fn'', ''not a function'']),
                  abandon name t)
         | (Inr (PProvider p), t) \<Rightarrow>
            (case run_provider n name True p t of
               None \<Rightarrow> None
             | Some (Inl e, u) \<Rightarrow> Some (Inl e, abandon name u)
             | Some (Inr v, u) \<Rightarrow> Some (Inr v, finish name v u))))"
| "run_provider n name direct (Provides deps run enforce named) s =
    (case get_args n [] (if named \<and> direct then Some name else None) deps s of
       None \<Rightarrow> None
     | Some (Inl e, t) \<Rightarrow> Some (Inl e, t)
     | Some (Inr args, t) \<Rightarrow>
        (case run args of
           Inl e \<Rightarrow> Some (Inl e, t)
         | Inr v \<Rightarrow> if enforce \<and> v = None then Some (Inl (undef_error name), t) else Some (Inr v, t)))"
| "run_provider n name direct (Decorates p deps run) s =
    (case run_provider n name False p s of
       None \<Rightarrow> None
     | Some (Inl e, t) \<Rightarrow> Some (Inl e, t)
     | Some (Inr v, t) \<Rightarrow>
        (case get_args n [(''$delegate'', v)] None deps t of
           None \<Rightarrow> None
         | Some (Inl e, u) \<Rightarrow> Some (Inl e, u)
         | Some (Inr args, u) \<Rightarrow> Some (run args, u)))"
| "get_args n locals caller [] s = Some (Inr [], s)"
| "get_args n locals caller (d # ds) s =
    (case (case map_of locals d of Some v \<Rightarrow> Some (Inr v, s) | None \<Rightarrow> get_service n d caller s) of
       None \<Rightarrow> None
     | Some (Inl e, t) \<Rightarrow> Some (Inl e, t)
     | Some (Inr v, t) \<Rightarrow>
        (case get_args n locals caller ds t of
           None \<Rightarrow> None
         | Some (Inl e, u) \<Rightarrow> Some (Inl e, u)
         | Some (Inr vs, u) \<Rightarrow> Some (Inr (v # vs), u)))"
  by pat_completeness auto
termination
  by (relation "inv_image (less_than <*lex*> less_than) (\<lambda>x. case x of
      Inl (n, name, caller, s) \<Rightarrow> (n, 0)
    | Inr (Inl (n, name, direct, p, s)) \<Rightarrow> (n, Suc (provider_size p))
    | Inr (Inr (n, locals, caller, ds, s)) \<Rightarrow> (n, Suc (length ds)))") auto

text \<open>\<open>invoke(fn, self, locals, serviceName)\<close>: the arguments, then the function.\<close>

definition invoke ::
  "nat \<Rightarrow> string list \<Rightarrow> ('v option list \<Rightarrow> js_error + 'v option) \<Rightarrow> (string \<times> 'v option) list
    \<Rightarrow> string option \<Rightarrow> 'v injector \<Rightarrow> ((js_error + 'v option) \<times> 'v injector) option" where
  "invoke n deps run locals caller s =
    (case get_args n locals caller deps s of
       None \<Rightarrow> None
     | Some (Inl e, t) \<Rightarrow> Some (Inl e, t)
     | Some (Inr args, t) \<Rightarrow> Some (run args, t))"

definition has_service :: "string \<Rightarrow> 'v injector \<Rightarrow> bool" where
  "has_service name s \<longleftrightarrow> provider_name name \<in> set (akeys (providerCache s)) \<or>
     name \<in> set (akeys (instanceCache s))"

section \<open>What creating services leaves unchanged\<close>

definition instantiating :: "'v injector \<Rightarrow> string set" where
  "instantiating s = {k. map_of (instanceCache s) k = Some Instantiating}"

definition extends :: "'v injector \<Rightarrow> 'v injector \<Rightarrow> bool" where
  "extends s t \<longleftrightarrow> providerCache t = providerCache s \<and> instantiating t = instantiating s \<and>
     (\<forall>k v. map_of (instanceCache s) k = Some (Ready v) \<longrightarrow> map_of (instanceCache t) k = Some (Ready v))"

lemma extends_refl [simp]: "extends s s"
  by (simp add: extends_def)

lemma extends_trans: "extends s t \<Longrightarrow> extends t u \<Longrightarrow> extends s u"
  by (simp add: extends_def)

lemma provider_get_extends: "provider_get name caller s = (r, t) \<Longrightarrow>
    providerCache t = providerCache s \<and> instanceCache t = instanceCache s"
  by (auto simp: provider_get_def Let_def split: option.splits)

lemma extends_abandon:
  assumes "map_of (instanceCache s) name = None" "extends (enter name s) t"
  shows "extends s (abandon name t)"
  using assms
  by (auto simp: extends_def enter_def abandon_def instantiating_def set_eq_iff split: if_splits)

lemma extends_finish:
  assumes "map_of (instanceCache s) name = None" "extends (enter name s) t"
  shows "extends s (finish name v t)"
  using assms
  by (auto simp: extends_def enter_def finish_def instantiating_def set_eq_iff split: if_splits)

lemma creation_extends:
  "get_service n name caller s = Some (r, t) \<Longrightarrow> extends s t"
  "run_provider n name direct p s = Some (r, t) \<Longrightarrow> extends s t"
  "get_args n locals caller ds s = Some (q, t) \<Longrightarrow> extends s t"
proof (induction n name caller s and n name direct p s and n locals caller ds s
    arbitrary: r t and r t and q t rule: get_service_run_provider_get_args.induct)
  case (2 n name caller s)
  show ?case
  proof (cases "map_of (instanceCache s) name")
    case None
    obtain x u where g: "provider_get (provider_name name) caller (enter name s) = (x, u)"
      by (cases "provider_get (provider_name name) caller (enter name s)")
    then have u: "extends (enter name s) u"
      using provider_get_extends [OF g] by (simp add: extends_def instantiating_def)
    then have ab: "extends s (abandon name u)" by (rule extends_abandon [OF None])
    have run: "extends s (abandon name w)" "extends s (finish name v w)"
      if "x = Inr (PProvider p)" "run_provider n name True p u = Some (y, w)" for p y w v
    proof -
      have "extends u w" using "2.IH" [OF None g [symmetric]] that by simp
      with u have "extends (enter name s) w" by (rule extends_trans)
      then show "extends s (abandon name w)" "extends s (finish name v w)"
        by (simp_all add: extends_abandon [OF None] extends_finish [OF None])
    qed
    show ?thesis
      using "2.prems" g None ab run
      by (auto split: sum.splits provider_entry.splits option.splits prod.splits if_splits)
  next
    case (Some sl)
    with "2.prems" show ?thesis by (cases sl) auto
  qed
next
  case (3 n name direct deps run enforce named s)
  then show ?case by (fastforce split: option.splits prod.splits sum.splits if_splits)
next
  case (4 n name direct p deps run s)
  then show ?case
    by (fastforce split: option.splits prod.splits sum.splits intro: extends_trans)
next
  case (6 n locals caller d ds s)
  then show ?case
    by (fastforce split: option.splits prod.splits sum.splits intro: extends_trans)
qed auto

section \<open>How much depth is enough\<close>

definition uncreated :: "'v injector \<Rightarrow> string set" where
  "uncreated s = {k. map_of (providerCache s) (provider_name k) \<noteq> None \<and> map_of (instanceCache s) k = None}"

lemma finite_uncreated [simp]: "finite (uncreated s)"
proof (rule finite_subset)
  show "uncreated s \<subseteq> provider_name -` set (akeys (providerCache s))"
    by (auto simp: uncreated_def map_of_akeys)
  show "finite (provider_name -` set (akeys (providerCache s)))"
    by (rule finite_vimageI) (simp_all add: inj_def)
qed

lemma uncreated_extends: "extends s t \<Longrightarrow> uncreated t \<subseteq> uncreated s"
proof
  fix k assume e: "extends s t" and k: "k \<in> uncreated t"
  have "map_of (instanceCache s) k = None"
  proof (rule ccontr)
    assume "map_of (instanceCache s) k \<noteq> None"
    then obtain sl where "map_of (instanceCache s) k = Some sl" by blast
    have "k \<in> instantiating t" if "sl = Instantiating"
      using e that \<open>map_of (instanceCache s) k = Some sl\<close> by (auto simp: extends_def instantiating_def)
    moreover have "k \<notin> instantiating t" using k by (simp add: uncreated_def instantiating_def)
    ultimately show False
      using e k \<open>map_of (instanceCache s) k = Some sl\<close>
      by (cases sl) (auto simp: extends_def uncreated_def)
  qed
  with e k show "k \<in> uncreated s" by (simp add: uncreated_def extends_def)
qed

lemma uncreated_mono: "extends s t \<Longrightarrow> card (uncreated t) \<le> card (uncreated s)"
  by (intro card_mono uncreated_extends) simp_all

lemma uncreated_enter:
  assumes "map_of (instanceCache s) name = None" "map_of (providerCache s) (provider_name name) \<noteq> None"
  shows "card (uncreated (enter name s)) < card (uncreated s)"
proof (rule psubset_card_mono)
  show "uncreated (enter name s) \<subset> uncreated s"
    using assms by (auto simp: uncreated_def enter_def split: if_splits)
qed simp

text \<open>The recursion over services ends: every service that is entered is created no more.\<close>

lemma creation_ends:
  "card (uncreated s) < n \<Longrightarrow> get_service n name caller s \<noteq> None"
proof -
  have "(card (uncreated s) < n \<longrightarrow> get_service n name caller s \<noteq> None)"
    "(card (uncreated s) < n \<longrightarrow> run_provider n name direct p s \<noteq> None)"
    "(card (uncreated s) < n \<longrightarrow> get_args n locals caller ds s \<noteq> None)"
    for direct p locals ds
  proof (induction n name caller s and n name direct p s and n locals caller ds s
      rule: get_service_run_provider_get_args.induct)
    case (2 n name caller s)
    show ?case
    proof (cases "map_of (instanceCache s) name")
      case None
      obtain x u where g: "provider_get (provider_name name) caller (enter name s) = (x, u)"
        by (cases "provider_get (provider_name name) caller (enter name s)")
      have "run_provider n name True p u \<noteq> None" if "card (uncreated s) < Suc n" "x = Inr (PProvider p)" for p
      proof -
        have "map_of (providerCache s) (provider_name name) \<noteq> None"
          using g that(2) by (auto simp: provider_get_def enter_def Let_def split: option.splits)
        then have "card (uncreated (enter name s)) < n"
          using uncreated_enter [OF None] that(1) by simp
        moreover have "uncreated u = uncreated (enter name s)"
          using provider_get_extends [OF g] by (simp add: uncreated_def)
        ultimately show ?thesis using "2.IH" [OF None g [symmetric]] that(2) by simp
      qed
      with g None show ?thesis
        by (auto split: sum.splits provider_entry.splits option.splits prod.splits)
    next
      case (Some sl)
      then show ?thesis by (cases sl) auto
    qed
  next
    case (4 n name direct p deps run s)
    have "card (uncreated t) < n" if "card (uncreated s) < n" "run_provider n name False p s = Some (r, t)" for r t
      using uncreated_mono [OF creation_extends(2) [OF that(2)]] that(1) by simp
    with 4 show ?case by (fastforce split: option.splits prod.splits sum.splits)
  next
    case (6 n locals caller d ds s)
    have "card (uncreated t) < n" if "card (uncreated s) < n" "get_service n d caller s = Some (r, t)" for r t
      using uncreated_mono [OF creation_extends(1) [OF that(2)]] that(1) by simp
    with 6 show ?case by (fastforce split: option.splits prod.splits sum.splits)
  qed (auto split: option.splits prod.splits sum.splits)
  then show "card (uncreated s) < n \<Longrightarrow> get_service n name caller s \<noteq> None" by blast
qed

text \<open>
  C18. Creating a service always comes to an end: a depth of one more than the number of
  services that have a provider and are not created yet is enough for any request.
\<close>

theorem get_service_returns:
  "card (uncreated s) < n \<Longrightarrow> get_service n name caller s \<noteq> None"
  by (rule creation_ends)

section \<open>Services are created once, and never from themselves\<close>

fun provider_deps :: "'v provider \<Rightarrow> string set" where
  "provider_deps (Provides deps run enforce named) = set deps"
| "provider_deps (Decorates p deps run) = provider_deps p \<union> (set deps - {''$delegate''})"

definition depends :: "'v injector \<Rightarrow> (string \<times> string) set" where
  "depends s = {(k, d). \<exists>p. map_of (providerCache s) (provider_name k) = Some (PProvider p) \<and> d \<in> provider_deps p}"

definition ready :: "'v injector \<Rightarrow> string set" where
  "ready s = {k. \<exists>v. map_of (instanceCache s) k = Some (Ready v)}"

text \<open>Whatever a created service depends on has been created.\<close>

definition closed_cache :: "'v injector \<Rightarrow> bool" where
  "closed_cache s \<longleftrightarrow> (\<forall>k d. k \<in> ready s \<longrightarrow> (k, d) \<in> depends s \<longrightarrow> d \<in> ready s)"



lemma ready_finish [simp]: "ready (finish name v s) = insert name (ready s)"
  by (auto simp: ready_def finish_def)



lemma depends_frame [simp]:
  "depends (enter name s) = depends s" "depends (finish name v s) = depends s"
  "depends (abandon name s) = depends s"
  by (simp_all add: depends_def enter_def finish_def abandon_def)













text \<open>
  C22. A request in the name of a service (or controller) for something that has no
  provider fails with an error that shows the path of requests; but the requester's name
  stays at the end of the injector's path, so that every later error of this kind shows it
  although it took no part.
\<close>

theorem unknown_provider_leaves_caller:
  assumes "map_of (instanceCache s) name = None" and "map_of (providerCache s) (provider_name name) = None"
  shows "\<exists>t. get_service (Suc n) name (Some c) s =
      Some (Inl (minErr ''$injector'' ''unpr'' ''Unknown provider: {0}''
        [join '' <- '' (provider_name name # name # ipath s @ [c])]), t) \<and>
    ipath t = ipath s @ [c] \<and> map_of (instanceCache t) = map_of (instanceCache s)"
  using assms by (auto simp: provider_get_def enter_def abandon_def Let_def fun_eq_iff)

section \<open>Witnesses\<close>

definition platform_injector :: "nat injector" where
  "platform_injector = snd (seqM (provide_factory ''aid'' [] (\<lambda>_. Inr (Some 1)))
     (seqM (provide_factory ''xjaf'' [''aid''] (\<lambda>_. Inr (Some 2)))
     (provide_factory ''radigost'' [''xjaf'', ''aid''] (\<lambda>args. Inr (Some (length args))))) new_injector)"

definition circular_injector :: "nat injector" where
  "circular_injector = snd (seqM (provide_factory ''a'' [''b''] (\<lambda>_. Inr (Some 1)))
     (provide_factory ''b'' [''a''] (\<lambda>_. Inr (Some 2))) new_injector)"

lemma fresh_injector:
  assumes "instanceCache s = []"
  shows "closed_cache s" "name \<notin> ready s" "card (uncreated s) \<le> length (providerCache s)"
proof -
  show "closed_cache s" "name \<notin> ready s" using assms by (simp_all add: closed_cache_def ready_def)
  have "provider_name ` uncreated s \<subseteq> set (akeys (providerCache s))"
    by (auto simp: uncreated_def map_of_akeys)
  then have "card (provider_name ` uncreated s) \<le> card (set (akeys (providerCache s)))"
    by (intro card_mono) simp_all
  also have "\<dots> \<le> length (providerCache s)" by (metis akeys_def card_length length_map)
  finally show "card (uncreated s) \<le> length (providerCache s)" by (simp add: card_image inj_on_def)
qed

lemma witness_injectors:
  "instanceCache platform_injector = []" "length (providerCache platform_injector) = 3"
  "instanceCache circular_injector = []" "length (providerCache circular_injector) = 2"
  by code_simp+

theorem get_service_returns_witness: "get_service 4 ''radigost'' None platform_injector \<noteq> None"
  by (rule get_service_returns)
    (use fresh_injector(3) [of platform_injector] witness_injectors in simp)



theorem unknown_provider_leaves_caller_witness:
  "\<exists>t. get_service 1 ''foo'' (Some ''bar'') (new_injector :: nat injector) =
      Some (Inl (minErr ''$injector'' ''unpr'' ''Unknown provider: {0}''
        [''fooProvider <- foo <- bar'']), t) \<and> ipath t = [''bar'']"
  using unknown_provider_leaves_caller [of "new_injector :: nat injector" "''foo''" 0 "''bar''"]
  by (auto simp: new_injector_def)

end
