(* ===== verification/NgLoader.thy ===== *)
theory NgLoader
  imports NgInjector
begin

text \<open>
  Module loading, \<open>loadModules\<close> in \<open>createInjector\<close> of \<open>js/angular.js\<close>: the modules an
  application requires are loaded before it, each once, and what they queued is applied to
  the injector. The injector's state \<open>'i\<close>, the effect of a queued recipe, the call of a
  module given as a function, and the text of an error's stack are parameters.
\<close>

datatype 'fn mod_item = ModName string | ModFn 'fn

record ('fn, 'i) loader =
  loadedModules :: "'fn mod_item list"
  inj :: 'i

record ('fn, 'i) loader_env =
  reg :: "'fn registry"
  apply_recipe :: "'fn recipe \<Rightarrow> ('i, unit) comp"
  invoke_fn :: "'fn \<Rightarrow> ('i, 'fn option) comp"
  stack :: "js_error \<Rightarrow> string"

definition on_inj :: "('i, 'a) comp \<Rightarrow> (('fn, 'i) loader, 'a) comp" where
  "on_inj m s = (case m (inj s) of (r, i) \<Rightarrow> (r, s\<lparr>inj := i\<rparr>))"

text \<open>\<open>runInvokeQueue(queue)\<close>.\<close>

definition runInvokeQueue :: "('fn, 'i) loader_env \<Rightarrow> 'fn recipe list \<Rightarrow> (('fn, 'i) loader, unit) comp" where
  "runInvokeQueue env queue = on_inj (forM queue (apply_recipe env))"

text \<open>\<open>angularModule(name)\<close> as the loader uses it: a module object or an error.\<close>

definition module_of :: "('fn, 'i) loader_env \<Rightarrow> string \<Rightarrow> js_error + 'fn ng_module" where
  "module_of env name =
    (case fst (angular_module name None None (reg env)) of
       Inl e \<Rightarrow> Inl e
     | Inr (ModuleObject i) \<Rightarrow> Inr (objects (reg env) ! i)
     | Inr (InheritedMember m) \<Rightarrow> Inl (TypeError m))"

definition modulerr :: "('fn, 'i) loader_env \<Rightarrow> string \<Rightarrow> js_error \<Rightarrow> js_error" where
  "modulerr env name e = minErr ''$injector'' ''modulerr''
    (''Failed to instantiate module {0} due to:'' @ [CHR 0x0A] @ ''{1}'') [name, stack env e]"

text \<open>
  \<open>loadModules(modulesToLoad)\<close>; the result lists the run blocks. The first argument bounds
  the nesting of requirements, None means it was too small.
\<close>

fun loadModules ::
  "nat \<Rightarrow> ('fn, 'i) loader_env \<Rightarrow> ('fn \<Rightarrow> string) \<Rightarrow> 'fn mod_item list \<Rightarrow> ('fn, 'i) loader
    \<Rightarrow> ((js_error + 'fn option list) \<times> ('fn, 'i) loader) option" where
  "loadModules n env show_fn [] s = Some (Inr [], s)"
| "loadModules n env show_fn (ModFn f # ms) s =
    (if ModFn f \<in> set (loadedModules s) then loadModules n env show_fn ms s
     else
       (case on_inj (invoke_fn env f) (s\<lparr>loadedModules := loadedModules s @ [ModFn f]\<rparr>) of
          (Inl e, t) \<Rightarrow> Some (Inl (modulerr env (show_fn f) e), t)
        | (Inr b, t) \<Rightarrow>
           (case loadModules n env show_fn ms t of
              None \<Rightarrow> None
            | Some (Inl e, u) \<Rightarrow> Some (Inl e, u)
            | Some (Inr bs, u) \<Rightarrow> Some (Inr (b # bs), u))))"
| "loadModules 0 env show_fn (ModName m # ms) s =
    (if ModName m \<in> set (loadedModules s) then loadModules 0 env show_fn ms s else None)"
| "loadModules (Suc n) env show_fn (ModName m # ms) s =
    (if ModName m \<in> set (loadedModules s) then loadModules (Suc n) env show_fn ms s
     else
       (let s1 = s\<lparr>loadedModules := loadedModules s @ [ModName m]\<rparr> in
        case module_of env m of
          Inl e \<Rightarrow> Some (Inl (modulerr env m e), s1)
        | Inr md \<Rightarrow>
           (case loadModules n env show_fn (map ModName (requires md)) s1 of
              None \<Rightarrow> None
            | Some (Inl e, t) \<Rightarrow> Some (Inl (modulerr env m e), t)
            | Some (Inr bs, t) \<Rightarrow>
               (case seqM (runInvokeQueue env (invokeQueue md)) (runInvokeQueue env (configBlocks md)) t of
                  (Inl e, u) \<Rightarrow> Some (Inl (modulerr env m e), u)
                | (Inr _, u) \<Rightarrow>
                   (case loadModules (Suc n) env show_fn ms u of
                      None \<Rightarrow> None
                    | Some (Inl e, v) \<Rightarrow> Some (Inl e, v)
                    | Some (Inr cs, v) \<Rightarrow> Some (Inr (bs @ map Some (runBlocks md) @ cs), v))))))"

section \<open>Loading ends, and loads what is required, once\<close>

lemma on_inj_loaded: "loadedModules (snd (on_inj m s)) = loadedModules s"
  by (simp add: on_inj_def split: prod.split)

lemma queues_loaded:
  "seqM (runInvokeQueue env q) (runInvokeQueue env r) t = (x, u) \<Longrightarrow> loadedModules u = loadedModules t"
  by (auto simp: seqM_def bindM_def runInvokeQueue_def on_inj_def split: prod.splits sum.splits)

definition unloaded :: "('fn, 'i) loader_env \<Rightarrow> ('fn, 'i) loader \<Rightarrow> string set" where
  "unloaded env s = {m. (\<exists>md. module_of env m = Inr md) \<and> ModName m \<notin> set (loadedModules s)}"

lemma module_of_table: "module_of env m = Inr md \<Longrightarrow> m \<in> set (akeys (table (reg env)))"
  by (rule ccontr) (auto simp: module_of_def angular_module_def assertNotHasOwnProperty_def
      find_module_def map_of_akeys [symmetric] comp_simps split: if_splits option.splits)

lemma finite_unloaded [simp]: "finite (unloaded env s)"
  by (rule finite_subset [of _ "set (akeys (table (reg env)))"])
    (auto simp: unloaded_def dest: module_of_table)

lemma on_inj_result: "on_inj m s = (r, t) \<Longrightarrow> loadedModules t = loadedModules s"
  by (auto simp: on_inj_def split: prod.splits)

text \<open>The ways one call can go, by its first item.\<close>

lemma load_fn_cases:
  assumes "loadModules n env sh (ModFn f # ms) s = Some (r, t)"
  obtains (known) "ModFn f \<in> set (loadedModules s)" "loadModules n env sh ms s = Some (r, t)"
  | (failed) e where "ModFn f \<notin> set (loadedModules s)" "r = Inl e"
      "loadedModules t = loadedModules s @ [ModFn f]"
  | (rest) u q where "ModFn f \<notin> set (loadedModules s)" "loadedModules u = loadedModules s @ [ModFn f]"
      "loadModules n env sh ms u = Some (q, t)" "isl r = isl q"
  using assms
  by (fastforce split: if_splits prod.splits sum.splits option.splits dest: on_inj_result)

lemma load_name_cases:
  assumes "loadModules n env sh (ModName m # ms) s = Some (r, t)"
  obtains (known) "ModName m \<in> set (loadedModules s)" "loadModules n env sh ms s = Some (r, t)"
  | (missing) e e' where "ModName m \<notin> set (loadedModules s)" "module_of env m = Inl e'" "r = Inl e"
      "loadedModules t = loadedModules s @ [ModName m]"
  | (failed) k md s1 u q e where "ModName m \<notin> set (loadedModules s)" "n = Suc k" "module_of env m = Inr md"
      "loadedModules s1 = loadedModules s @ [ModName m]"
      "loadModules k env sh (map ModName (requires md)) s1 = Some (q, u)"
      "loadedModules t = loadedModules u" "r = Inl e"
  | (rest) k md s1 u bs u' q where "ModName m \<notin> set (loadedModules s)" "n = Suc k" "module_of env m = Inr md"
      "loadedModules s1 = loadedModules s @ [ModName m]"
      "loadModules k env sh (map ModName (requires md)) s1 = Some (Inr bs, u)"
      "loadedModules u' = loadedModules u" "loadModules n env sh ms u' = Some (q, t)" "isl r = isl q"
proof (cases "ModName m \<in> set (loadedModules s)")
  case True
  with assms known show ?thesis by (cases n) auto
next
  case False
  with assms obtain k where n: "n = Suc k" by (cases n) auto
  let ?s1 = "s\<lparr>loadedModules := loadedModules s @ [ModName m]\<rparr>"
  show ?thesis
  proof (cases "module_of env m")
    case (Inl e)
    with False n assms missing show ?thesis by auto
  next
    case (Inr md)
    with assms n False obtain q u where
      l: "loadModules k env sh (map ModName (requires md)) ?s1 = Some (q, u)"
      by (auto simp: Let_def split: option.splits)
    show ?thesis
    proof (cases q)
      case (Inl e)
      with assms n False Inr l show ?thesis by (intro failed [of k md ?s1 q u]) auto
    next
      case (Inr bs)
      obtain x u' where q: "seqM (runInvokeQueue env (invokeQueue md)) (runInvokeQueue env (configBlocks md)) u = (x, u')"
        by fastforce
      have lu: "loadedModules u' = loadedModules u" by (rule queues_loaded [OF q])
      show ?thesis
      proof (cases x)
        case (Inl e)
        with assms n False Inr l q lu \<open>module_of env m = Inr md\<close> show ?thesis
          by (intro failed [of k md ?s1 "Inr bs" u]) auto
      next
        case (Inr y)
        with assms n False \<open>q = Inr bs\<close> l q \<open>module_of env m = Inr md\<close> obtain z where
          "loadModules n env sh ms u' = Some (z, t)" "isl r = isl z"
          by (simp add: Let_def split: option.splits prod.splits) (fastforce split: sum.splits)
        with n False \<open>q = Inr bs\<close> l lu \<open>module_of env m = Inr md\<close> show ?thesis
          by (intro rest [of k md ?s1 bs u u' z]) auto
      qed
    qed
  qed
qed

definition required :: "('fn, 'i) loader_env \<Rightarrow> (string \<times> string) set" where
  "required env = {(m, d). \<exists>md. module_of env m = Inr md \<and> d \<in> set (requires md)}"

text \<open>What a call did to the list of loaded modules.\<close>

definition load_effect ::
  "('fn, 'i) loader_env \<Rightarrow> 'fn mod_item list \<Rightarrow> ('fn, 'i) loader \<Rightarrow> js_error + 'fn option list
    \<Rightarrow> ('fn, 'i) loader \<Rightarrow> bool" where
  "load_effect env ms s r t \<longleftrightarrow>
     (\<exists>l. loadedModules t = loadedModules s @ l) \<and>
     (distinct (loadedModules s) \<longrightarrow> distinct (loadedModules t)) \<and>
     (\<forall>m. ModName m \<in> set (loadedModules t) - set (loadedModules s) \<longrightarrow>
        (\<exists>x. ModName x \<in> set ms \<and> (x, m) \<in> (required env)\<^sup>*)) \<and>
     (\<not> isl r \<longrightarrow> set ms \<subseteq> set (loadedModules t) \<and>
        (\<forall>m d. ModName m \<in> set (loadedModules t) - set (loadedModules s) \<longrightarrow> (m, d) \<in> required env \<longrightarrow>
           ModName d \<in> set (loadedModules t)))"

lemma load_effect_known: "ModName m \<in> set (loadedModules s) \<Longrightarrow> load_effect env ms s r t \<Longrightarrow>
    load_effect env (ModName m # ms) s r t"
  unfolding load_effect_def list.set(2) by (intro conjI) (blast | force)+

lemma load_effect_required:
  assumes "loadedModules s1 = loadedModules s @ [ModName m]" "ModName m \<notin> set (loadedModules s)"
    "module_of env m = Inr md" "load_effect env (map ModName (requires md)) s1 (Inr bs) u"
    "loadedModules u' = loadedModules u"
    "load_effect env ms u' q t" "isl r = isl q"
  shows "load_effect env (ModName m # ms) s r t"
proof -
  from assms(1,4) obtain l where u: "loadedModules u = loadedModules s @ ModName m # l"
    by (auto simp: load_effect_def)
  from assms(5,6) u obtain l' where t: "loadedModules t = loadedModules s @ ModName m # l @ l'"
    by (auto simp: load_effect_def)
  have "distinct (loadedModules t)" if "distinct (loadedModules s)"
    using assms that by (simp add: load_effect_def)
  moreover have req: "(m, d) \<in> required env \<longleftrightarrow> d \<in> set (requires md)" for d
    using assms(3) by (auto simp: required_def)
  have "\<exists>x. ModName x \<in> set (ModName m # ms) \<and> (x, k) \<in> (required env)\<^sup>*"
    if k: "ModName k \<in> set (loadedModules t) - set (loadedModules s)" for k
  proof -
    consider "k = m" | "ModName k \<in> set (loadedModules u) - set (loadedModules s1)"
      | "ModName k \<in> set (loadedModules t) - set (loadedModules u')"
      using k assms(1,5) by auto
    then show ?thesis
    proof cases
      case 2
      with assms(4) obtain x where "x \<in> set (requires md)" "(x, k) \<in> (required env)\<^sup>*"
        by (auto simp: load_effect_def)
      with req have "(m, k) \<in> (required env)\<^sup>*" by (meson converse_rtrancl_into_rtrancl)
      then show ?thesis by auto
    next
      case 3
      with assms(6) show ?thesis by (auto simp: load_effect_def)
    qed auto
  qed
  moreover have "ModName d \<in> set (loadedModules t)"
    if r: "\<not> isl r" and k: "ModName k \<in> set (loadedModules t) - set (loadedModules s)" "(k, d) \<in> required env" for k d
  proof -
    consider "k = m" | "ModName k \<in> set (loadedModules u) - set (loadedModules s1)"
      | "ModName k \<in> set (loadedModules t) - set (loadedModules u')"
      using k assms(1,5) by auto
    then show ?thesis
    proof cases
      case 1
      with k(2) req have "ModName d \<in> set (loadedModules u)"
        using assms(4) by (auto simp: load_effect_def)
      with t u show ?thesis by auto
    next
      case 2
      with assms(4) k(2) have "ModName d \<in> set (loadedModules u)" by (auto simp: load_effect_def)
      with t u show ?thesis by auto
    next
      case 3
      with assms(6,7) r k(2) show ?thesis by (auto simp: load_effect_def)
    qed
  qed
  moreover have "\<exists>l. loadedModules t = loadedModules s @ l" using t by blast
  moreover have "set (ModName m # ms) \<subseteq> set (loadedModules t)" if "\<not> isl r"
    using assms(6,7) that t by (simp add: load_effect_def)
  ultimately show ?thesis unfolding load_effect_def by blast
qed

lemma load_effect_step:
  assumes "loadedModules t = loadedModules s @ [x]" "x \<notin> set (loadedModules s)" "\<And>m. x = ModName m \<Longrightarrow> ModName m \<in> set ms" "isl r"
  shows "load_effect env ms s r t"
  using assms by (auto simp: load_effect_def)

lemma load_effect_failed:
  assumes "loadedModules s1 = loadedModules s @ [ModName m]" "ModName m \<notin> set (loadedModules s)"
    "module_of env m = Inr md" "load_effect env (map ModName (requires md)) s1 q u"
    "loadedModules t = loadedModules u" "isl r"
  shows "load_effect env (ModName m # ms) s r t"
proof -
  from assms(1,4) obtain l where u: "loadedModules u = loadedModules s @ ModName m # l"
    by (auto simp: load_effect_def)
  have "\<exists>x. ModName x \<in> set (ModName m # ms) \<and> (x, k) \<in> (required env)\<^sup>*"
    if k: "ModName k \<in> set (loadedModules t) - set (loadedModules s)" for k
  proof -
    consider "k = m" | "ModName k \<in> set (loadedModules u) - set (loadedModules s1)"
      using k assms(1,5) by auto
    then show ?thesis
    proof cases
      case 2
      with assms(4) obtain x where "x \<in> set (requires md)" "(x, k) \<in> (required env)\<^sup>*"
        by (auto simp: load_effect_def)
      with assms(3) have "(m, k) \<in> (required env)\<^sup>*"
        by (auto simp: required_def intro: converse_rtrancl_into_rtrancl)
      then show ?thesis by auto
    qed auto
  qed
  moreover have "distinct (loadedModules t)" if "distinct (loadedModules s)"
    using assms(1,2,4,5) that by (simp add: load_effect_def)
  moreover have "\<exists>l. loadedModules t = loadedModules s @ l" using u assms(5) by auto
  ultimately show ?thesis using assms(6) unfolding load_effect_def by blast
qed

lemma load_effect_fn:
  assumes "ModFn f \<notin> set (loadedModules s)" "loadedModules u = loadedModules s @ [ModFn f]"
    "load_effect env ms u q t" "isl r = isl q"
  shows "load_effect env (ModFn f # ms) s r t"
proof -
  from assms(2,3) obtain l where t: "loadedModules t = loadedModules s @ ModFn f # l"
    by (auto simp: load_effect_def)
  have "\<exists>x. ModName x \<in> set ms \<and> (x, k) \<in> (required env)\<^sup>*"
    if "ModName k \<in> set (loadedModules t) - set (loadedModules s)" for k
    using that assms(2,3) by (auto simp: load_effect_def)
  moreover have "ModName d \<in> set (loadedModules t)"
    if "\<not> isl r" "ModName k \<in> set (loadedModules t) - set (loadedModules s)" "(k, d) \<in> required env" for k d
  proof -
    have "ModName k \<in> set (loadedModules t) - set (loadedModules u)" using that(2) assms(2) by auto
    with that assms(3,4) show ?thesis unfolding load_effect_def by blast
  qed
  moreover have "distinct (loadedModules t)" if "distinct (loadedModules s)"
    using assms(1-3) that by (simp add: load_effect_def)
  moreover have "set (ModFn f # ms) \<subseteq> set (loadedModules t)" if "\<not> isl r"
    using assms(3,4) that t by (simp add: load_effect_def)
  moreover have "\<exists>l. loadedModules t = loadedModules s @ l" using t by blast
  ultimately show ?thesis unfolding load_effect_def list.set(2) by blast
qed

lemma loading_effect: "loadModules n env sh ms s = Some (r, t) \<Longrightarrow> load_effect env ms s r t"
proof (induction n arbitrary: ms s r t)
  case 0
  then show ?case
  proof (induction ms arbitrary: s r t)
    case Nil
    then show ?case by (auto simp: load_effect_def)
  next
    case (Cons x ms)
    show ?case
    proof (cases x)
      case (ModName m)
      with Cons.prems have "loadModules 0 env sh (ModName m # ms) s = Some (r, t)" by simp
      then show ?thesis
        using Cons.IH ModName
        by (cases rule: load_name_cases) (auto intro: load_effect_known load_effect_step)
    next
      case (ModFn f)
      with Cons.prems have "loadModules 0 env sh (ModFn f # ms) s = Some (r, t)" by simp
      then show ?thesis
      proof (cases rule: load_fn_cases)
        case known
        then have "load_effect env ms s r t" by (intro Cons.IH)
        with known ModFn show ?thesis
          unfolding load_effect_def list.set(2) by (intro conjI) (blast | force)+
      next
        case (failed e)
        then show ?thesis using ModFn by (auto intro: load_effect_step)
      next
        case (rest u q)
        with Cons.IH have "load_effect env ms u q t" by blast
        with rest ModFn show ?thesis by (auto intro: load_effect_fn)
      qed
    qed
  qed
next
  case (Suc n)
  note outer = Suc.IH
  from Suc.prems show ?case
  proof (induction ms arbitrary: s r t)
    case Nil
    then show ?case by (auto simp: load_effect_def)
  next
    case (Cons x ms)
    show ?case
    proof (cases x)
      case (ModName m)
      with Cons.prems have "loadModules (Suc n) env sh (ModName m # ms) s = Some (r, t)" by simp
      then show ?thesis
      proof (cases rule: load_name_cases)
        case known
        with Cons.IH ModName show ?thesis by (auto intro: load_effect_known)
      next
        case (missing e e')
        with ModName show ?thesis by (auto intro!: load_effect_step)
      next
        case (failed k md s1 u q e)
        with outer have "load_effect env (map ModName (requires md)) s1 q u" by auto
        with failed ModName show ?thesis by (auto intro: load_effect_failed)
      next
        case (rest k md s1 u bs u' q)
        then have "load_effect env (map ModName (requires md)) s1 (Inr bs) u" using outer by auto
        moreover have "load_effect env ms u' q t" using rest Cons.IH by auto
        ultimately show ?thesis using rest ModName by (auto intro: load_effect_required)
      qed
    next
      case (ModFn f)
      with Cons.prems have "loadModules (Suc n) env sh (ModFn f # ms) s = Some (r, t)" by simp
      then show ?thesis
      proof (cases rule: load_fn_cases)
        case known
        then have "load_effect env ms s r t" by (intro Cons.IH)
        with known ModFn show ?thesis
          unfolding load_effect_def list.set(2) by (intro conjI) (blast | force)+
      next
        case (failed e)
        then show ?thesis using ModFn by (auto intro: load_effect_step)
      next
        case (rest u q)
        with Cons.IH have "load_effect env ms u q t" by blast
        with rest ModFn show ?thesis by (auto intro: load_effect_fn)
      qed
    qed
  qed
qed

text \<open>What a successful or failed loading has loaded.\<close>

lemma loading_closure:
  assumes "loadModules n env sh (map ModName names) (\<lparr>loadedModules = [], inj = i\<rparr>) = Some (r, t)"
  shows "distinct (loadedModules t) \<and>
    (\<forall>m. ModName m \<in> set (loadedModules t) \<longrightarrow> (\<exists>x \<in> set names. (x, m) \<in> (required env)\<^sup>*)) \<and>
    (\<not> isl r \<longrightarrow> (\<forall>x \<in> set names. \<forall>m. (x, m) \<in> (required env)\<^sup>* \<longrightarrow> ModName m \<in> set (loadedModules t)))"
proof -
  note e = loading_effect [OF assms]
  have "ModName m \<in> set (loadedModules t)"
    if "\<not> isl r" "x \<in> set names" "(x, m) \<in> (required env)\<^sup>*" for x m
    using that(3,2,1) e by (induction rule: rtrancl_induct) (auto simp: load_effect_def)
  with e show ?thesis by (auto simp: load_effect_def)
qed

text \<open>
  C20. Loading modules loads each of them and all they require exactly once, and nothing
  that is not required: on success the modules loaded are those asked for and what can be
  reached from them by requirements; on failure, some of these.
\<close>

theorem loading_is_closure:
  assumes "loadModules n env sh (map ModName names) (\<lparr>loadedModules = [], inj = i\<rparr>) = Some (r, t)"
  shows "distinct (loadedModules t) \<and>
    (\<forall>m. ModName m \<in> set (loadedModules t) \<longrightarrow> (\<exists>x \<in> set names. (x, m) \<in> (required env)\<^sup>*)) \<and>
    (\<not> isl r \<longrightarrow> (\<forall>x \<in> set names. \<forall>m. (x, m) \<in> (required env)\<^sup>* \<longrightarrow> ModName m \<in> set (loadedModules t)))"
  using assms by (rule loading_closure)

lemma unloaded_mono:
  "set (loadedModules s) \<subseteq> set (loadedModules t) \<Longrightarrow> card (unloaded env t) \<le> card (unloaded env s)"
  by (rule card_mono [OF finite_unloaded]) (auto simp: unloaded_def)

lemma load_keeps: "loadModules n env sh ms s = Some (r, t) \<Longrightarrow> set (loadedModules s) \<subseteq> set (loadedModules t)"
  using loading_effect [of n env sh ms s r t] by (auto simp: load_effect_def)

text \<open>The recursion over modules ends: every module that is entered counts as loaded.\<close>

lemma loading_ends:
  assumes "card (unloaded env s) < n"
  shows "loadModules n env sh ms s \<noteq> None"
  using assms
proof (induction n arbitrary: ms s)
  case (Suc n)
  note outer = Suc.IH
  from Suc.prems show ?case
  proof (induction ms arbitrary: s)
    case (Cons x ms)
    show ?case
    proof (cases x)
      case (ModFn f)
      have "loadModules (Suc n) env sh ms t \<noteq> None"
        if "on_inj m (s\<lparr>loadedModules := loadedModules s @ [ModFn f]\<rparr>) = (q, t)" for m :: "('b, 'a option) comp" and q t
      proof -
        have "loadedModules t = loadedModules s @ [ModFn f]" using on_inj_result [OF that] by simp
        then have "card (unloaded env t) \<le> card (unloaded env s)" by (intro unloaded_mono) auto
        with Cons.prems show ?thesis by (intro Cons.IH) simp
      qed
      with Cons ModFn show ?thesis by (fastforce split: prod.splits sum.splits option.splits)
    next
      case (ModName m)
      let ?s1 = "s\<lparr>loadedModules := loadedModules s @ [ModName m]\<rparr>"
      have deep: "loadModules n env sh ns ?s1 \<noteq> None"
        if "ModName m \<notin> set (loadedModules s)" "module_of env m = Inr md" for ns md
      proof (rule outer)
        have "card (unloaded env ?s1) < card (unloaded env s)"
          using that by (intro psubset_card_mono finite_unloaded) (auto simp: unloaded_def)
        with Cons.prems show "card (unloaded env ?s1) < n" by simp
      qed
      have wide: "loadModules (Suc n) env sh ms v \<noteq> None"
        if "loadModules n env sh ns ?s1 = Some (q, u)" "loadedModules v = loadedModules u" for ns q u v
      proof (rule Cons.IH)
        have "set (loadedModules s) \<subseteq> set (loadedModules v)" using load_keeps [OF that(1)] that(2) by auto
        with Cons.prems show "card (unloaded env v) < Suc n" using unloaded_mono [of s v env] by simp
      qed
      show ?thesis
        using ModName deep wide Cons.IH Cons.prems
        by (auto simp: Let_def dest!: queues_loaded split: prod.splits sum.splits option.splits)
          (metis option.distinct(1))+
    qed
  qed simp
qed simp

text \<open>
  C19. Loading always comes to an end, also when modules require each other in a circle: a
  depth of one more than the number of registered modules not loaded yet is enough.
\<close>

theorem loading_returns:
  assumes "card (unloaded env s) < n"
  shows "loadModules n env sh ms s \<noteq> None"
  using assms by (rule loading_ends)

section \<open>When loading succeeds\<close>

lemma module_of_requires:
  assumes "requires_of (reg env) m = Some rs" "m \<noteq> ''hasOwnProperty''"
  shows "\<exists>md. module_of env m = Inr md \<and> requires md = rs"
proof -
  obtain i where i: "map_of (table (reg env)) m = Some (Some i)" "find_module m (reg env) = Some (ModuleObject i)"
    using find_module_own assms(1) by fastforce
  with assms show ?thesis by (simp add: module_of_def angular_module_get requires_of_def)
qed

lemma required_iff:
  assumes "requires_of (reg env) m = Some rs" "m \<noteq> ''hasOwnProperty''"
  shows "(m, d) \<in> required env \<longleftrightarrow> d \<in> set rs"
  using module_of_requires [OF assms] by (auto simp: required_def)

lemma forM_never_fails: "\<forall>x s. \<not> isl (fst (f x s)) \<Longrightarrow> \<not> isl (fst (forM xs f s))"
  by (induction xs arbitrary: s) (auto simp: comp_simps split: prod.splits sum.splits, metis fst_conv isl_def)

lemma queues_never_fail:
  assumes "\<forall>r i. \<not> isl (fst (apply_recipe env r i))"
  shows "\<not> isl (fst (seqM (runInvokeQueue env q) (runInvokeQueue env q') s))"
proof -
  have "\<not> isl (fst (runInvokeQueue env q s))" for q s
    using forM_never_fails [OF assms] by (simp add: runInvokeQueue_def on_inj_def split: prod.split) (metis fst_conv)
  then show ?thesis
    by (auto simp: seqM_def bindM_def split: prod.split sum.split) (metis fst_conv isl_def)
qed

definition loadable :: "('fn, 'i) loader_env \<Rightarrow> string \<Rightarrow> bool" where
  "loadable env x \<longleftrightarrow> (\<forall>m. (x, m) \<in> (required env)\<^sup>* \<longrightarrow> (\<exists>md. module_of env m = Inr md))"

lemma loadable_required: "loadable env m \<Longrightarrow> module_of env m = Inr md \<Longrightarrow> d \<in> set (requires md) \<Longrightarrow> loadable env d"
  by (auto simp: loadable_def required_def intro: converse_rtrancl_into_rtrancl)

lemma load_never_fails:
  assumes never: "\<forall>r i. \<not> isl (fst (apply_recipe env r i))"
  shows "\<lbrakk>\<forall>x \<in> set ms. \<exists>m. x = ModName m \<and> loadable env m; loadModules n env sh ms s = Some (r, t)\<rbrakk> \<Longrightarrow> \<not> isl r"
  using never
proof (induction n env sh ms s arbitrary: r t rule: loadModules.induct)
  case (4 n env sh m ms s)
  show ?case
  proof (cases "ModName m \<in> set (loadedModules s)")
    case True
    with 4 show ?thesis by auto
  next
    case False
    from "4.prems"(1) have lm: "loadable env m" by auto
    then obtain md where md: "module_of env m = Inr md" by (auto simp: loadable_def)
    have req: "\<forall>x \<in> set (map ModName (requires md) :: 'a mod_item list). \<exists>m. x = ModName m \<and> loadable env m"
      using loadable_required [OF lm md] by auto
    let ?s1 = "s\<lparr>loadedModules := loadedModules s @ [ModName m]\<rparr>"
    obtain q u where l: "loadModules n env sh (map ModName (requires md)) ?s1 = Some (q, u)"
      using "4.prems"(2) False md by (auto simp: Let_def split: option.splits)
    then have "\<not> isl q" using "4.IH"(2) [OF False refl md] req "4.prems"(3) by blast
    then obtain bs where q: "q = Inr bs" by (cases q) auto
    obtain y u' where queue: "seqM (runInvokeQueue env (invokeQueue md)) (runInvokeQueue env (configBlocks md)) u = (y, u')"
      by fastforce
    then have "\<not> isl y" using queues_never_fail [OF "4.prems"(3)] by (metis fst_conv)
    then obtain z where y: "y = Inr z" by (cases y) auto
    obtain q' v where rest: "loadModules (Suc n) env sh ms u' = Some (q', v)"
      using "4.prems"(2) False md l q queue y by (auto simp: Let_def split: option.splits)
    have "\<not> isl q'"
      using "4.IH"(3) [OF False refl md l _ q queue [symmetric] y] rest "4.prems" by auto
    with "4.prems"(2) False md l q queue y rest show ?thesis by (cases q') (auto simp: Let_def)
  qed
qed (auto split: if_splits)

section \<open>Two modules that require each other\<close>

definition circle_env :: "(nat, unit) loader_env" where
  "circle_env = \<lparr>reg = snd (run_scripts [DeclareModule ''a'' [''b''], DeclareModule ''b'' [''a''],
       RegisterOn ''b'' Run '''' 7] no_modules),
     apply_recipe = (\<lambda>r. ret ()), invoke_fn = (\<lambda>f. ret None), stack = (\<lambda>e. [])\<rparr>"

definition nothing_loaded :: "(nat, unit) loader" where
  "nothing_loaded = \<lparr>loadedModules = [], inj = ()\<rparr>"

lemma circle_loads:
  "loadModules 3 circle_env (\<lambda>_. []) (map ModName [''a'']) nothing_loaded =
    Some (Inr [Some 7], \<lparr>loadedModules = [ModName ''a'', ModName ''b''], inj = ()\<rparr>)"
  by code_simp

theorem loading_is_closure_witness:
  "\<exists>r t. loadModules 3 circle_env (\<lambda>_. []) (map ModName [''a'']) nothing_loaded = Some (r, t) \<and>
     distinct (loadedModules t) \<and> \<not> isl r \<and>
     (\<forall>m. (''a'', m) \<in> (required circle_env)\<^sup>* \<longrightarrow> ModName m \<in> set (loadedModules t))"
proof (intro exI conjI)
  note closure = loading_is_closure [OF circle_loads [unfolded nothing_loaded_def]]
  show "distinct (loadedModules \<lparr>loadedModules = [ModName ''a'', ModName ''b''] :: nat mod_item list, inj = ()\<rparr>)"
    "\<forall>m. (''a'', m) \<in> (required circle_env)\<^sup>* \<longrightarrow>
       ModName m \<in> set (loadedModules \<lparr>loadedModules = [ModName ''a'', ModName ''b''] :: nat mod_item list, inj = ()\<rparr>)"
    using closure by auto
qed (rule circle_loads, simp)

theorem loading_returns_witness:
  "loadModules 3 circle_env (\<lambda>_. []) (map ModName [''a'']) nothing_loaded \<noteq> None"
proof (rule loading_returns)
  have "set (akeys (table (reg circle_env))) = {''a'', ''b''}" by code_simp
  then have "unloaded circle_env nothing_loaded \<subseteq> {''a'', ''b''}"
    using module_of_table by (auto simp: unloaded_def)
  then have "card (unloaded circle_env nothing_loaded) \<le> card {''a'', ''b''}"
    by (intro card_mono) auto
  then show "card (unloaded circle_env nothing_loaded) < 3" by simp
qed

end
