(* ===== verification/SiebogApp.thy ===== *)
theory SiebogApp
  imports NgLoader ScrollGlue
begin

text \<open>
  How the client is put together: what the scripts of \<open>war/index.html\<close> declare on
  Angular's modules, in the order the page loads them, and the states its three route
  files give to the router. A registered function is named by its function in the code.
\<close>

section \<open>Scripts\<close>





















section \<open>Routes\<close>








section \<open>Loading the application\<close>



















section \<open>The states fit together\<close>









end
