(* ===== verification/NgQ.thy ===== *)
theory NgQ
  imports JsValue Interfaces
begin

text \<open>
  Angular's promises, \<open>qFactory\<close> of \<open>js/angular.js\<close>, which every request of
  \<open>xjaf.service.js\<close> returns. The state is the heap of promises (a deferred is its promise),
  the arrays of pending callbacks, the cells of \<open>callOnce\<close>, the counters of \<open>all\<close>, the queue
  of \<open>nextTick\<close>, and logs of the calls of user functions and of the exception handler.
  User functions \<open>'f\<close> are interpreted by a parameter: given an argument, the actions they
  take on deferreds and what they return or throw. Promises of other libraries are not
  modelled.
\<close>

datatype 'v qval =
    Undef
  | Val 'v
  | Promise nat
  | QCycleError nat
  | Results "(string \<times> 'v qval) list"

text \<open>
  What can be passed to \<open>then\<close>: nothing, something that is no function, a user's function,
  and the functions the library itself passes.
\<close>

datatype ('v, 'f) handler =
    NoHandler
  | NotAFunction
  | User 'f
  | ResolveOnce nat
  | RejectOnce nat
  | NotifyDeferred nat
  | Finally bool "('v, 'f) handler"
  | MakePromise "'v qval" bool
  | MakeRejected
  | AllResolved nat string
  | AllRejected nat string

type_synonym ('v, 'f) entry = "nat \<times> ('v, 'f) handler \<times> ('v, 'f) handler \<times> ('v, 'f) handler"

record 'v promise_state =
  status :: int
  settled_value :: "'v qval"
  pending :: "nat option"
  processScheduled :: bool

datatype 'v tick = ProcessQueue nat | NotifyAll nat "'v qval"

record 'v all_state =
  all_deferred :: nat
  counter :: nat
  results :: "(string \<times> 'v qval) list"

record ('v, 'f) qstate =
  promises :: "'v promise_state list"
  arrays :: "('v, 'f) entry list list"
  cells :: "(nat \<times> bool) list"
  alls :: "'v all_state list"
  ticks :: "'v tick list"
  user_calls :: "('f \<times> 'v qval) list"
  exceptions :: "'v qval list"

definition empty_q :: "('v, 'f) qstate" where
  "empty_q = \<lparr>promises = [], arrays = [], cells = [], alls = [], ticks = [], user_calls = [], exceptions = []\<rparr>"

section \<open>Deferreds\<close>

definition update_promise :: "nat \<Rightarrow> ('v promise_state \<Rightarrow> 'v promise_state) \<Rightarrow> ('v, 'f) qstate \<Rightarrow> ('v, 'f) qstate" where
  "update_promise d f s = s\<lparr>promises := (promises s)[d := f (promises s ! d)]\<rparr>"

definition new_deferred :: "('v, 'f) qstate \<Rightarrow> nat \<times> ('v, 'f) qstate" where
  "new_deferred s = (length (promises s), s\<lparr>promises := promises s @
     [\<lparr>status = 0, settled_value = Undef, pending = None, processScheduled = False\<rparr>]\<rparr>)"

text \<open>
  A deferred exists once it has been created; the operations below do nothing on any other
  number, which the code has no reference to.
\<close>

definition exists_in :: "('v, 'f) qstate \<Rightarrow> nat \<Rightarrow> bool" where
  "exists_in s d \<longleftrightarrow> d < length (promises s)"

text \<open>\<open>scheduleProcessQueue(state)\<close>.\<close>

definition scheduleProcessQueue :: "nat \<Rightarrow> ('v, 'f) qstate \<Rightarrow> ('v, 'f) qstate" where
  "scheduleProcessQueue d s =
    (if processScheduled (promises s ! d) \<or> pending (promises s ! d) = None then s
     else (update_promise d (\<lambda>p. p\<lparr>processScheduled := True\<rparr>) s)\<lparr>ticks := ticks s @ [ProcessQueue d]\<rparr>)"

text \<open>The part of \<open>then\<close> that appends to the promise's array, which it creates at need.\<close>

definition push_pending :: "nat \<Rightarrow> ('v, 'f) entry \<Rightarrow> ('v, 'f) qstate \<Rightarrow> ('v, 'f) qstate" where
  "push_pending d e s =
    (case pending (promises s ! d) of
       Some a \<Rightarrow> s\<lparr>arrays := (arrays s)[a := arrays s ! a @ [e]]\<rparr>
     | None \<Rightarrow> (update_promise d (\<lambda>p. p\<lparr>pending := Some (length (arrays s))\<rparr>) s)
         \<lparr>arrays := arrays s @ [[e]]\<rparr>)"

definition q_then ::
  "nat \<Rightarrow> ('v, 'f) handler \<Rightarrow> ('v, 'f) handler \<Rightarrow> ('v, 'f) handler \<Rightarrow> ('v, 'f) qstate
    \<Rightarrow> nat \<times> ('v, 'f) qstate" where
  "q_then d onFulfilled onRejected progressBack s =
    (if \<not> exists_in s d \<or> onFulfilled = NoHandler \<and> onRejected = NoHandler \<and> progressBack = NoHandler
     then (d, s)
     else
       (case new_deferred s of (r, s1) \<Rightarrow>
          let s2 = push_pending d (r, onFulfilled, onRejected, progressBack) s1
          in (r, if status (promises s2 ! d) > 0 then scheduleProcessQueue d s2 else s2)))"

definition q_catch :: "nat \<Rightarrow> ('v, 'f) handler \<Rightarrow> ('v, 'f) qstate \<Rightarrow> nat \<times> ('v, 'f) qstate" where
  "q_catch d callback = q_then d NotAFunction callback NoHandler"

definition q_finally :: "nat \<Rightarrow> ('v, 'f) handler \<Rightarrow> ('v, 'f) handler \<Rightarrow> ('v, 'f) qstate \<Rightarrow> nat \<times> ('v, 'f) qstate" where
  "q_finally d callback progressBack = q_then d (Finally True callback) (Finally False callback) progressBack"

text \<open>
  \<open>$$reject\<close> and \<open>$$resolve\<close>, which do not look at the status. A cell of \<open>callOnce\<close> is its
  deferred and whether one of its two functions has been called.
\<close>

definition settle_rejected :: "nat \<Rightarrow> 'v qval \<Rightarrow> ('v, 'f) qstate \<Rightarrow> ('v, 'f) qstate" where
  "settle_rejected d reason s =
    scheduleProcessQueue d (update_promise d (\<lambda>p. p\<lparr>settled_value := reason, status := 2\<rparr>) s)"

definition settle_resolved :: "nat \<Rightarrow> 'v qval \<Rightarrow> ('v, 'f) qstate \<Rightarrow> ('v, 'f) qstate" where
  "settle_resolved d val s =
    (case val of
       Promise p \<Rightarrow>
         let c = length (cells s);
             s1 = (update_promise d (\<lambda>p. p\<lparr>status := -1\<rparr>) s)\<lparr>cells := cells s @ [(d, False)]\<rparr>
         in snd (q_then p (ResolveOnce c) (RejectOnce c) (NotifyDeferred d) s1)
     | _ \<Rightarrow> scheduleProcessQueue d (update_promise d (\<lambda>p. p\<lparr>settled_value := val, status := 1\<rparr>) s))"

definition q_reject :: "nat \<Rightarrow> 'v qval \<Rightarrow> ('v, 'f) qstate \<Rightarrow> ('v, 'f) qstate" where
  "q_reject d reason s = (if \<not> exists_in s d \<or> status (promises s ! d) \<noteq> 0 then s else settle_rejected d reason s)"

definition q_resolve :: "nat \<Rightarrow> 'v qval \<Rightarrow> ('v, 'f) qstate \<Rightarrow> ('v, 'f) qstate" where
  "q_resolve d val s =
    (if \<not> exists_in s d \<or> status (promises s ! d) \<noteq> 0 then s
     else if val = Promise d then settle_rejected d (QCycleError d) s
     else settle_resolved d val s)"

definition q_notify :: "nat \<Rightarrow> 'v qval \<Rightarrow> ('v, 'f) qstate \<Rightarrow> ('v, 'f) qstate" where
  "q_notify d progress s =
    (case (if exists_in s d then pending (promises s ! d) else None) of
       Some a \<Rightarrow> (if status (promises s ! d) \<le> 0 \<and> arrays s ! a \<noteq> []
                  then s\<lparr>ticks := ticks s @ [NotifyAll a progress]\<rparr> else s)
     | None \<Rightarrow> s)"

definition makePromise :: "'v qval \<Rightarrow> bool \<Rightarrow> ('v, 'f) qstate \<Rightarrow> nat \<times> ('v, 'f) qstate" where
  "makePromise val resolved s =
    (case new_deferred s of (d, s1) \<Rightarrow> (d, if resolved then q_resolve d val s1 else q_reject d val s1))"

definition q_when ::
  "'v qval \<Rightarrow> ('v, 'f) handler \<Rightarrow> ('v, 'f) handler \<Rightarrow> ('v, 'f) handler \<Rightarrow> ('v, 'f) qstate
    \<Rightarrow> nat \<times> ('v, 'f) qstate" where
  "q_when val callback errback progressBack s =
    (case new_deferred s of (d, s1) \<Rightarrow> q_then d callback errback progressBack (q_resolve d val s1))"

section \<open>Calling the callbacks\<close>

text \<open>What a user function does with its argument.\<close>

datatype 'v action = DoResolve nat "'v qval" | DoReject nat "'v qval" | DoNotify nat "'v qval"

datatype 'v outcome = Returns "'v qval" | Throws "'v qval"

type_synonym ('v, 'f) users = "'f \<Rightarrow> 'v qval \<Rightarrow> 'v action list \<times> 'v outcome"

fun do_action :: "'v action \<Rightarrow> ('v, 'f) qstate \<Rightarrow> ('v, 'f) qstate" where
  "do_action (DoResolve d v) = q_resolve d v"
| "do_action (DoReject d v) = q_reject d v"
| "do_action (DoNotify d v) = q_notify d v"

definition call_user :: "('v, 'f) users \<Rightarrow> 'f \<Rightarrow> 'v qval \<Rightarrow> ('v, 'f) qstate \<Rightarrow> 'v outcome \<times> ('v, 'f) qstate" where
  "call_user users f v s =
    (case users f v of (acts, r) \<Rightarrow> (r, fold do_action acts (s\<lparr>user_calls := user_calls s @ [(f, v)]\<rparr>)))"

fun is_function :: "('v, 'f) handler \<Rightarrow> bool" where
  "is_function NoHandler = False"
| "is_function NotAFunction = False"
| "is_function _ = True"

text \<open>The call of a handler; \<open>Finally\<close> is \<open>handleCallback\<close> with its callback.\<close>

fun call_handler ::
  "('v, 'f) users \<Rightarrow> ('v, 'f) handler \<Rightarrow> 'v qval \<Rightarrow> ('v, 'f) qstate \<Rightarrow> 'v outcome \<times> ('v, 'f) qstate" where
  "call_handler users NoHandler v s = (Returns Undef, s)"
| "call_handler users NotAFunction v s = (Returns Undef, s)"
| "call_handler users (User f) v s = call_user users f v s"
| "call_handler users (ResolveOnce c) v s =
    (if c \<ge> length (cells s) \<or> snd (cells s ! c) then (Returns Undef, s)
     else (Returns Undef, settle_resolved (fst (cells s ! c)) v (s\<lparr>cells := (cells s)[c := (fst (cells s ! c), True)]\<rparr>)))"
| "call_handler users (RejectOnce c) v s =
    (if c \<ge> length (cells s) \<or> snd (cells s ! c) then (Returns Undef, s)
     else (Returns Undef, settle_rejected (fst (cells s ! c)) v (s\<lparr>cells := (cells s)[c := (fst (cells s ! c), True)]\<rparr>)))"
| "call_handler users (NotifyDeferred d) v s = (Returns Undef, q_notify d v s)"
| "call_handler users (Finally ok callback) v s =
    (case (if is_function callback then call_handler users callback Undef s else (Returns Undef, s)) of
       (Throws e, t) \<Rightarrow> (case makePromise e False t of (p, u) \<Rightarrow> (Returns (Promise p), u))
     | (Returns (Promise p), t) \<Rightarrow>
         (case q_then p (MakePromise v ok) MakeRejected NoHandler t of (r, u) \<Rightarrow> (Returns (Promise r), u))
     | (Returns w, t) \<Rightarrow> (case makePromise v ok t of (p, u) \<Rightarrow> (Returns (Promise p), u)))"
| "call_handler users (MakePromise w ok) v s =
    (case makePromise w ok s of (p, t) \<Rightarrow> (Returns (Promise p), t))"
| "call_handler users MakeRejected v s =
    (case makePromise v False s of (p, t) \<Rightarrow> (Returns (Promise p), t))"
| "call_handler users (AllResolved i k) v s =
    (let a = alls s ! i in
     if k \<in> set (map fst (results a)) then (Returns Undef, s)
     else
       (let a' = a\<lparr>results := results a @ [(k, v)], counter := counter a - 1\<rparr>;
            t = s\<lparr>alls := (alls s)[i := a']\<rparr>
        in (Returns Undef, if counter a' = 0 then q_resolve (all_deferred a) (Results (results a')) t else t)))"
| "call_handler users (AllRejected i k) v s =
    (let a = alls s ! i in
     if k \<in> set (map fst (results a)) then (Returns Undef, s)
     else (Returns Undef, q_reject (all_deferred a) v s))"

text \<open>One entry of \<open>processQueue\<close>.\<close>

definition process_entry :: "('v, 'f) users \<Rightarrow> nat \<Rightarrow> ('v, 'f) entry \<Rightarrow> ('v, 'f) qstate \<Rightarrow> ('v, 'f) qstate" where
  "process_entry users p e s =
    (case e of (d, onFulfilled, onRejected, progressBack) \<Rightarrow>
      let st = status (promises s ! p); v = settled_value (promises s ! p);
          fn = (if st = 1 then onFulfilled else onRejected)
      in if is_function fn then
           (case call_handler users fn v s of
              (Returns w, t) \<Rightarrow> q_resolve d w t
            | (Throws x, t) \<Rightarrow> (q_reject d x t)\<lparr>exceptions := exceptions t @ [x]\<rparr>)
         else if st = 1 then q_resolve d v s
         else q_reject d v s)"

definition processQueue :: "('v, 'f) users \<Rightarrow> nat \<Rightarrow> ('v, 'f) qstate \<Rightarrow> ('v, 'f) qstate" where
  "processQueue users p s =
    (case pending (promises s ! p) of
       None \<Rightarrow> s
     | Some a \<Rightarrow> fold (process_entry users p) (arrays s ! a)
         (update_promise p (\<lambda>q. q\<lparr>processScheduled := False, pending := None\<rparr>) s))"

text \<open>One entry of the notification of progress.\<close>

definition notify_entry :: "('v, 'f) users \<Rightarrow> 'v qval \<Rightarrow> ('v, 'f) entry \<Rightarrow> ('v, 'f) qstate \<Rightarrow> ('v, 'f) qstate" where
  "notify_entry users progress e s =
    (case e of (d, onFulfilled, onRejected, progressBack) \<Rightarrow>
      if is_function progressBack then
        (case call_handler users progressBack progress s of
           (Returns w, t) \<Rightarrow> q_notify d w t
         | (Throws x, t) \<Rightarrow> t\<lparr>exceptions := exceptions t @ [x]\<rparr>)
      else q_notify d progress s)"

fun run_tick :: "('v, 'f) users \<Rightarrow> 'v tick \<Rightarrow> ('v, 'f) qstate \<Rightarrow> ('v, 'f) qstate" where
  "run_tick users (ProcessQueue p) s = processQueue users p s"
| "run_tick users (NotifyAll a progress) s = fold (notify_entry users progress) (arrays s ! a) s"

definition next_tick :: "('v, 'f) users \<Rightarrow> ('v, 'f) qstate \<Rightarrow> ('v, 'f) qstate" where
  "next_tick users s =
    (case ticks s of [] \<Rightarrow> s | t # ts \<Rightarrow> run_tick users t (s\<lparr>ticks := ts\<rparr>))"

section \<open>Combining promises\<close>

text \<open>\<open>all(promises)\<close>, of an array (keys its indices) or an object.\<close>

definition all_entry :: "nat \<Rightarrow> string \<times> 'v qval \<Rightarrow> ('v, 'f) qstate \<Rightarrow> ('v, 'f) qstate" where
  "all_entry i kv s =
    (case kv of (k, v) \<Rightarrow>
      (case q_when v NoHandler NoHandler NoHandler
          (s\<lparr>alls := (alls s)[i := (alls s ! i)\<lparr>counter := Suc (counter (alls s ! i))\<rparr>]\<rparr>) of
         (p, t) \<Rightarrow> snd (q_then p (AllResolved i k) (AllRejected i k) NoHandler t)))"

definition q_all :: "(string \<times> 'v qval) list \<Rightarrow> ('v, 'f) qstate \<Rightarrow> nat \<times> ('v, 'f) qstate" where
  "q_all kvs s =
    (case new_deferred s of (d, s1) \<Rightarrow>
      let i = length (alls s1);
          s2 = fold (all_entry i) kvs (s1\<lparr>alls := alls s1 @ [\<lparr>all_deferred = d, counter = 0, results = []\<rparr>]\<rparr>)
      in (d, if counter (alls s2 ! i) = 0 then q_resolve d (Results []) s2 else s2))"

text \<open>\<open>$q(resolver)\<close>: the resolver's actions on the new deferred; a throw goes to the caller.\<close>

definition q_construct :: "(nat \<Rightarrow> 'v action list \<times> 'v outcome) \<Rightarrow> ('v, 'f) qstate \<Rightarrow> ('v qval + nat) \<times> ('v, 'f) qstate" where
  "q_construct resolver s =
    (case new_deferred s of (d, s1) \<Rightarrow>
      (case resolver d of
         (acts, Returns _) \<Rightarrow> (Inr d, fold do_action acts s1)
       | (acts, Throws e) \<Rightarrow> (Inl e, fold do_action acts s1)))"

section \<open>A settled promise stays settled\<close>

definition settled :: "('v, 'f) qstate \<Rightarrow> nat \<Rightarrow> bool" where
  "settled s p \<longleftrightarrow> p < length (promises s) \<and> status (promises s ! p) > 0"

text \<open>
  A deferred waiting for another promise (status -1) can be settled only through its one
  cell that has not been called.
\<close>

definition q_inv :: "('v, 'f) qstate \<Rightarrow> bool" where
  "q_inv s \<longleftrightarrow>
     (\<forall>c < length (cells s). \<not> snd (cells s ! c) \<longrightarrow>
        fst (cells s ! c) < length (promises s) \<and> status (promises s ! fst (cells s ! c)) = -1) \<and>
     (\<forall>c < length (cells s). \<forall>c' < length (cells s). \<not> snd (cells s ! c) \<longrightarrow> \<not> snd (cells s ! c') \<longrightarrow>
        fst (cells s ! c) = fst (cells s ! c') \<longrightarrow> c = c')"

definition advances :: "('v, 'f) qstate \<Rightarrow> ('v, 'f) qstate \<Rightarrow> bool" where
  "advances s t \<longleftrightarrow> q_inv t \<and> length (promises s) \<le> length (promises t) \<and>
     (\<forall>p. settled s p \<longrightarrow> settled t p \<and> status (promises t ! p) = status (promises s ! p) \<and>
        settled_value (promises t ! p) = settled_value (promises s ! p))"

lemma advances_refl: "q_inv s \<Longrightarrow> advances s s"
  by (simp add: advances_def)

lemma advances_trans: "advances s t \<Longrightarrow> advances t u \<Longrightarrow> advances s u"
  by (simp add: advances_def)

lemma advances_inv: "advances s t \<Longrightarrow> q_inv t"
  by (simp add: advances_def)

text \<open>What only touches the bookkeeping of callbacks.\<close>

definition same_settlement :: "('v, 'f) qstate \<Rightarrow> ('v, 'f) qstate \<Rightarrow> bool" where
  "same_settlement s t \<longleftrightarrow> cells t = cells s \<and> length (promises s) \<le> length (promises t) \<and>
     (\<forall>p < length (promises s). status (promises t ! p) = status (promises s ! p) \<and>
        settled_value (promises t ! p) = settled_value (promises s ! p))"

lemma same_settlement_refl [simp]: "same_settlement s s"
  by (simp add: same_settlement_def)

lemma same_settlement_trans: "same_settlement s t \<Longrightarrow> same_settlement t u \<Longrightarrow> same_settlement s u"
  by (simp add: same_settlement_def)

lemma same_settlement_advances: "q_inv s \<Longrightarrow> same_settlement s t \<Longrightarrow> advances s t"
proof -
  assume inv: "q_inv s" and same: "same_settlement s t"
  have "q_inv t"
    unfolding q_inv_def
  proof (intro conjI allI impI)
    fix c assume c: "c < length (cells t)" "\<not> snd (cells t ! c)"
    with inv same have d: "fst (cells s ! c) < length (promises s)" "status (promises s ! fst (cells s ! c)) = -1"
      by (auto simp: q_inv_def same_settlement_def)
    with same show "fst (cells t ! c) < length (promises t)" "status (promises t ! fst (cells t ! c)) = - 1"
      by (auto simp: same_settlement_def)
  next
    fix c c' assume "c < length (cells t)" "c' < length (cells t)" "\<not> snd (cells t ! c)" "\<not> snd (cells t ! c')"
      "fst (cells t ! c) = fst (cells t ! c')"
    with inv same show "c = c'" by (simp add: q_inv_def same_settlement_def)
  qed
  with same show ?thesis by (auto simp: advances_def same_settlement_def settled_def)
qed

lemma same_schedule: "same_settlement s (scheduleProcessQueue d s)"
  by (auto simp: same_settlement_def scheduleProcessQueue_def update_promise_def nth_update)

lemma same_new_deferred: "new_deferred s = (d, t) \<Longrightarrow> same_settlement s t"
  by (auto simp: same_settlement_def new_deferred_def nth_append)

lemma same_push: "same_settlement s (push_pending d e s)"
  by (auto simp: same_settlement_def push_pending_def update_promise_def nth_update split: option.split)

lemma same_then: "q_then d f g h s = (r, t) \<Longrightarrow> same_settlement s t"
  by (auto simp: q_then_def Let_def split: prod.splits if_splits
      intro: same_settlement_trans [OF same_new_deferred same_settlement_trans [OF same_push same_schedule]]
        same_settlement_trans [OF same_new_deferred same_push])

lemma same_notify: "same_settlement s (q_notify d v s)"
  by (auto simp: same_settlement_def q_notify_def split: option.split)

text \<open>Settling a deferred that is not settled and that no cell can settle any more.\<close>

definition unowned :: "('v, 'f) qstate \<Rightarrow> nat \<Rightarrow> bool" where
  "unowned s d \<longleftrightarrow> d < length (promises s) \<and> status (promises s ! d) \<le> 0 \<and>
     (\<forall>c < length (cells s). \<not> snd (cells s ! c) \<longrightarrow> fst (cells s ! c) \<noteq> d)"

lemma advances_write:
  assumes inv: "q_inv s" and d: "unowned s d"
  shows "advances s (update_promise d f s)"
proof -
  have "q_inv (update_promise d f s)"
    using inv d by (auto simp: q_inv_def unowned_def update_promise_def nth_update)
  with d show ?thesis
    by (auto simp: advances_def settled_def unowned_def update_promise_def nth_update)
qed

lemma advances_settle_rejected:
  "q_inv s \<Longrightarrow> unowned s d \<Longrightarrow> advances s (settle_rejected d v s)"
  unfolding settle_rejected_def
  by (meson advances_inv advances_trans advances_write same_schedule same_settlement_advances)

lemma advances_settle_resolved:
  assumes inv: "q_inv s" and d: "unowned s d"
  shows "advances s (settle_resolved d v s)"
proof (cases "\<exists>p. v = Promise p")
  case True
  then obtain p where p: "v = Promise p" ..
  let ?s = "(update_promise d (\<lambda>p. p\<lparr>status := -1\<rparr>) s)\<lparr>cells := cells s @ [(d, False)]\<rparr>"
  have "q_inv ?s"
    using inv d by (auto simp: q_inv_def unowned_def update_promise_def nth_update nth_append less_Suc_eq)
  then have "advances s ?s"
    using d by (auto simp: advances_def settled_def unowned_def update_promise_def nth_update)
  moreover have "advances ?s (snd (q_then p f g h ?s))" for f g h
    using \<open>q_inv ?s\<close> same_then [OF prod.collapse [symmetric]] by (intro same_settlement_advances)
  ultimately have "advances s (snd (q_then p f g h ?s))" for f g h by (rule advances_trans)
  then show ?thesis by (simp add: settle_resolved_def p Let_def)
next
  case False
  then have "settle_resolved d v s =
      scheduleProcessQueue d (update_promise d (\<lambda>p. p\<lparr>settled_value := v, status := 1\<rparr>) s)"
    by (cases v) (auto simp: settle_resolved_def)
  with assms show ?thesis
    by (metis advances_inv advances_trans advances_write same_schedule same_settlement_advances)
qed

lemma unowned_open:
  "q_inv s \<Longrightarrow> d < length (promises s) \<Longrightarrow> status (promises s ! d) = 0 \<Longrightarrow> unowned s d"
  by (auto simp: q_inv_def unowned_def)

lemma unowned_called:
  assumes "q_inv s" "c < length (cells s)" "\<not> snd (cells s ! c)"
  shows "unowned (s\<lparr>cells := (cells s)[c := (fst (cells s ! c), True)]\<rparr>) (fst (cells s ! c)) \<and>
    advances s (s\<lparr>cells := (cells s)[c := (fst (cells s ! c), True)]\<rparr>)"
proof -
  have "q_inv (s\<lparr>cells := (cells s)[c := (fst (cells s ! c), True)]\<rparr>)"
    using assms by (auto simp: q_inv_def nth_update)
  with assms show ?thesis
    by (auto simp: unowned_def advances_def settled_def q_inv_def nth_update split: if_splits)
qed

lemma advances_reject: "q_inv s \<Longrightarrow> advances s (q_reject d v s)"
  by (auto simp: q_reject_def exists_in_def advances_refl intro: advances_settle_rejected unowned_open)

lemma advances_resolve: "q_inv s \<Longrightarrow> advances s (q_resolve d v s)"
  by (auto simp: q_resolve_def exists_in_def advances_refl
      intro: advances_settle_rejected advances_settle_resolved unowned_open)

lemma advances_same: "q_inv s \<Longrightarrow> same_settlement s t \<Longrightarrow> q_inv t \<and> advances s t"
  using same_settlement_advances advances_inv by blast

lemma advances_new_deferred: "q_inv s \<Longrightarrow> advances s (snd (new_deferred s))"
  by (intro same_settlement_advances same_new_deferred [OF prod.collapse [symmetric]])

lemma advances_then: "q_inv s \<Longrightarrow> advances s (snd (q_then d f g h s))"
  by (intro same_settlement_advances same_then [OF prod.collapse [symmetric]])

lemma advances_notify: "q_inv s \<Longrightarrow> advances s (q_notify d v s)"
  by (intro same_settlement_advances same_notify)

lemma advances_makePromise: "q_inv s \<Longrightarrow> advances s (snd (makePromise v ok s))"
proof -
  assume inv: "q_inv s"
  obtain d t where n: "new_deferred s = (d, t)" by fastforce
  have t: "advances s t" using advances_new_deferred [OF inv] n by simp
  have "advances t (if ok then q_resolve d v t else q_reject d v t)"
    using advances_inv [OF t] by (simp add: advances_resolve advances_reject)
  with t n show ?thesis by (auto simp: makePromise_def intro: advances_trans)
qed

lemma advances_made: "q_inv s \<Longrightarrow> makePromise v ok s = (d, t) \<Longrightarrow> advances s t"
  using advances_makePromise [of s v ok] by simp

lemma advances_after:
  assumes "advances s t"
  shows "advances s (q_resolve d v t)" "advances s (q_reject d v t)" "advances s (q_notify d v t)"
  using assms by (meson advances_inv advances_resolve advances_reject advances_notify advances_trans)+

lemma advances_when: "q_inv s \<Longrightarrow> advances s (snd (q_when v f g h s))"
proof -
  assume inv: "q_inv s"
  obtain d t where n: "new_deferred s = (d, t)" by fastforce
  have t: "advances s t" using advances_new_deferred [OF inv] n by simp
  then have r: "advances s (q_resolve d v t)"
    by (meson advances_inv advances_resolve advances_trans)
  then have "advances s (snd (q_then d f g h (q_resolve d v t)))"
    by (meson advances_inv advances_then advances_trans)
  with n show ?thesis by (simp add: q_when_def)
qed

lemma advances_actions: "q_inv s \<Longrightarrow> advances s (fold do_action acts s)"
proof (induction acts arbitrary: s)
  case (Cons a acts)
  have a: "advances s (do_action a s)"
    using Cons.prems by (cases a) (simp_all add: advances_resolve advances_reject advances_notify)
  with Cons.IH [OF advances_inv [OF a]] show ?case by (auto intro: advances_trans)
qed (simp add: advances_refl)

lemma advances_call_user: "q_inv s \<Longrightarrow> advances s (snd (call_user users f v s))"
proof -
  assume inv: "q_inv s"
  let ?s = "s\<lparr>user_calls := user_calls s @ [(f, v)]\<rparr>"
  have "advances s ?s" using inv by (intro same_settlement_advances) (simp_all add: same_settlement_def)
  then have "advances s (fold do_action acts ?s)" for acts
    by (meson advances_inv advances_actions advances_trans)
  then show ?thesis by (simp add: call_user_def split: prod.split)
qed

lemma advances_handler: "q_inv s \<Longrightarrow> advances s (snd (call_handler users h v s))"
proof (induction users h v s rule: call_handler.induct)
  case (4 users c v s)
  show ?case
  proof (cases "c \<ge> length (cells s) \<or> snd (cells s ! c)")
    case False
    with unowned_called [OF "4.prems", of c] show ?thesis
      by (auto intro: advances_trans [OF _ advances_settle_resolved] advances_inv)
  qed (use "4.prems" in \<open>auto simp: advances_refl\<close>)
next
  case (5 users c v s)
  show ?case
  proof (cases "c \<ge> length (cells s) \<or> snd (cells s ! c)")
    case False
    with unowned_called [OF "5.prems", of c] show ?thesis
      by (auto intro: advances_trans [OF _ advances_settle_rejected] advances_inv)
  qed (use "5.prems" in \<open>auto simp: advances_refl\<close>)
next
  case (7 users ok callback v s)
  obtain r t where c: "(if is_function callback then call_handler users callback Undef s else (Returns Undef, s)) = (r, t)"
    by fastforce
  with "7.IH" "7.prems" have t: "advances s t" by (auto simp: advances_refl split: if_splits)
  have m: "advances s (snd (makePromise w b t))" for w b
    using t by (meson advances_inv advances_makePromise advances_trans)
  have q: "advances s (snd (q_then p f g h t))" for p f g h
    using t by (meson advances_inv advances_then advances_trans)
  show ?case
    using c m q by (auto split: outcome.split qval.split prod.split) (metis snd_conv)+
next
  case (10 users i k v s)
  have same: "q_inv (s\<lparr>alls := as\<rparr>) \<and> advances s (s\<lparr>alls := as\<rparr>)" for as
    using "10.prems" by (intro advances_same) (simp_all add: same_settlement_def)
  then show ?case
    using "10.prems" by (auto simp: Let_def advances_refl intro: advances_trans [OF _ advances_resolve])
qed (auto simp: advances_refl advances_call_user advances_notify advances_reject Let_def
    split: prod.split intro: advances_made)

lemma advances_process_entry: "q_inv s \<Longrightarrow> advances s (process_entry users p e s)"
proof -
  assume inv: "q_inv s"
  obtain d f r g where e: "e = (d, f, r, g)" by (cases e)
  have h: "advances s t" if "call_handler users fn v s = (x, t)" for fn v x t
    using advances_handler [OF inv, of users fn v] that by simp
  have exc: "advances s (t\<lparr>exceptions := l\<rparr>)" if "advances s t" for t l
    using that advances_same [OF advances_inv [OF that], of "t\<lparr>exceptions := l\<rparr>"]
    by (auto simp: same_settlement_def intro: advances_trans)
  show ?thesis
    using h inv
    by (auto simp: process_entry_def e Let_def advances_resolve advances_reject split: prod.split outcome.split
        intro!: exc advances_after)
qed

lemma advances_fold:
  assumes "\<And>e s. q_inv s \<Longrightarrow> advances s (f e s)" "q_inv s"
  shows "advances s (fold f es s)"
  using assms(2)
proof (induction es arbitrary: s)
  case (Cons e es)
  from assms(1) [OF Cons.prems] Cons.IH show ?case by (auto intro: advances_trans advances_inv)
qed (simp add: advances_refl)

lemma advances_processQueue: "q_inv s \<Longrightarrow> advances s (processQueue users p s)"
proof -
  assume inv: "q_inv s"
  let ?s = "update_promise p (\<lambda>q. q\<lparr>processScheduled := False, pending := None\<rparr>) s"
  have s: "advances s ?s"
    using inv by (intro same_settlement_advances) (auto simp: same_settlement_def update_promise_def nth_update)
  have "advances s (fold (process_entry users p) es ?s)" for es
    by (rule advances_trans [OF s advances_fold [OF advances_process_entry advances_inv [OF s]]])
  with inv show ?thesis by (auto simp: processQueue_def advances_refl split: option.split)
qed

lemma advances_notify_entry: "q_inv s \<Longrightarrow> advances s (notify_entry users v e s)"
proof -
  assume inv: "q_inv s"
  obtain d f r g where e: "e = (d, f, r, g)" by (cases e)
  have h: "advances s t" if "call_handler users fn v s = (x, t)" for fn v x t
    using advances_handler [OF inv, of users fn v] that by simp
  have exc: "advances s (t\<lparr>exceptions := l\<rparr>)" if "advances s t" for t l
    using that advances_same [OF advances_inv [OF that], of "t\<lparr>exceptions := l\<rparr>"]
    by (auto simp: same_settlement_def intro: advances_trans)
  show ?thesis
    using h inv
    by (auto simp: notify_entry_def e advances_notify split: prod.split outcome.split
        intro!: exc advances_after)
qed

lemma advances_tick: "q_inv s \<Longrightarrow> advances s (next_tick users s)"
proof -
  assume inv: "q_inv s"
  have s: "advances s (s\<lparr>ticks := ts\<rparr>)" for ts
    using inv by (intro same_settlement_advances) (simp_all add: same_settlement_def)
  have "advances s (run_tick users t (s\<lparr>ticks := ts\<rparr>))" for t ts
  proof (cases t)
    case (ProcessQueue p)
    with s [of ts] show ?thesis
      by (auto intro: advances_trans [OF _ advances_processQueue] advances_inv)
  next
    case (NotifyAll a v)
    with s [of ts] show ?thesis
      by (auto intro!: advances_trans [OF s] advances_fold advances_notify_entry advances_inv)
  qed
  with inv show ?thesis by (auto simp: next_tick_def advances_refl split: list.split)
qed

lemma advances_all: "q_inv s \<Longrightarrow> advances s (snd (q_all kvs s))"
proof -
  assume inv: "q_inv s"
  obtain d s1 where n: "new_deferred s = (d, s1)" by fastforce
  have s1: "advances s s1" using advances_new_deferred [OF inv] n by simp
  have entry: "advances t (all_entry i kv t)" if "q_inv t" for i kv and t :: "('a, 'b) qstate"
  proof -
    obtain k v where kv: "kv = (k, v)" by (cases kv)
    let ?t = "t\<lparr>alls := (alls t)[i := (alls t ! i)\<lparr>counter := Suc (counter (alls t ! i))\<rparr>]\<rparr>"
    obtain p u where w: "q_when v NoHandler NoHandler NoHandler ?t = (p, u)" by fastforce
    have "q_inv ?t \<and> advances t ?t" using that by (intro advances_same) (simp_all add: same_settlement_def)
    then have "advances t u" using advances_when [of ?t v NoHandler NoHandler NoHandler] w
      by (auto intro: advances_trans)
    then have "advances t (snd (q_then p f g h u))" for f g h
      by (meson advances_inv advances_then advances_trans)
    with w kv show ?thesis by (simp add: all_entry_def)
  qed
  let ?s = "s1\<lparr>alls := alls s1 @ [\<lparr>all_deferred = d, counter = 0, results = []\<rparr>]\<rparr>"
  have "q_inv ?s \<and> advances s1 ?s"
    using advances_inv [OF s1] by (intro advances_same) (simp_all add: same_settlement_def)
  then have "advances s (fold (all_entry i) kvs ?s)" for i
    using s1 advances_fold [of "all_entry i" ?s kvs] entry by (meson advances_trans)
  then have "advances s (if b then q_resolve d w (fold (all_entry i) kvs ?s) else fold (all_entry i) kvs ?s)" for b i w
    by (auto intro: advances_trans [OF _ advances_resolve] advances_inv)
  with n show ?thesis by (simp add: q_all_def Let_def)
qed

text \<open>Everything a program can do with promises, in any order, and the ticks in between.\<close>

inductive q_step :: "('v, 'f) users \<Rightarrow> ('v, 'f) qstate \<Rightarrow> ('v, 'f) qstate \<Rightarrow> bool" for users where
  step_defer: "q_step users s (snd (new_deferred s))"
| step_then: "q_step users s (snd (q_then d f g h s))"
| step_catch: "q_step users s (snd (q_catch d f s))"
| step_finally: "q_step users s (snd (q_finally d f g s))"
| step_resolve: "q_step users s (q_resolve d v s)"
| step_reject: "q_step users s (q_reject d v s)"
| step_notify: "q_step users s (q_notify d v s)"
| step_when: "q_step users s (snd (q_when v f g h s))"
| step_all: "q_step users s (snd (q_all kvs s))"
| step_construct: "q_step users s (snd (q_construct resolver s))"
| step_tick: "q_step users s (next_tick users s)"

lemma advances_construct: "q_inv s \<Longrightarrow> advances s (snd (q_construct resolver s))"
proof -
  assume inv: "q_inv s"
  obtain d s1 where n: "new_deferred s = (d, s1)" by fastforce
  have "advances s s1" using advances_new_deferred [OF inv] n by simp
  then have "advances s (fold do_action acts s1)" for acts
    by (meson advances_inv advances_actions advances_trans)
  with n show ?thesis by (auto simp: q_construct_def split: prod.split outcome.split)
qed

lemma advances_step: "q_step users s t \<Longrightarrow> q_inv s \<Longrightarrow> advances s t"
  by (induction rule: q_step.induct)
    (simp_all add: advances_new_deferred advances_then q_catch_def q_finally_def advances_resolve
      advances_reject advances_notify advances_when advances_all advances_construct advances_tick)

lemma q_inv_empty: "q_inv empty_q"
  by (simp add: q_inv_def empty_q_def)

interpretation promises: invariant_system "\<lambda>s. s = empty_q" "q_step users" q_inv for users
  by unfold_locales (auto intro: q_inv_empty advances_inv advances_step)

text \<open>
  C16. A promise is settled at most once: whatever a program does with deferreds and
  promises, and whatever the callbacks do, once a promise is fulfilled or rejected its
  status and its value never change again.
\<close>

theorem settled_forever:
  assumes "reachable (\<lambda>s. s = empty_q) (q_step users) s" and "(q_step users)\<^sup>*\<^sup>* s t" and "settled s p"
  shows "settled t p \<and> status (promises t ! p) = status (promises s ! p) \<and>
    settled_value (promises t ! p) = settled_value (promises s ! p)"
proof -
  have "advances s t"
    using assms(2)
  proof (induction rule: rtranclp_induct)
    case base
    show ?case using promises.reachable_inv [OF assms(1)] by (rule advances_refl)
  next
    case (step t u)
    then show ?case by (meson advances_inv advances_step advances_trans)
  qed
  with assms(3) show ?thesis by (simp add: advances_def)
qed

theorem settled_forever_witness:
  "settled (q_reject 0 (Val 2) (q_resolve 0 (Val (1::nat)) (snd (new_deferred (empty_q :: (nat, nat) qstate))))) 0"
proof -
  let ?d = "snd (new_deferred (empty_q :: (nat, nat) qstate))"
  let ?s = "q_resolve 0 (Val (1::nat)) ?d"
  let ?u = "\<lambda>_ _. ([], Returns Undef) :: nat action list \<times> nat outcome"
  have "reachable (\<lambda>s. s = empty_q) (q_step ?u) ?s"
    by (rule reachable_step, rule reachable_step, rule reachable_init, simp, rule step_defer, rule step_resolve)
  moreover have "(q_step ?u)\<^sup>*\<^sup>* ?s (q_reject 0 (Val 2) ?s)" by (meson r_into_rtranclp step_reject)
  moreover have "settled ?s 0" by code_simp
  ultimately show ?thesis using settled_forever by blast
qed

section \<open>Which functions are called\<close>

text \<open>The user functions a handler calls, given its argument.\<close>

fun called_by :: "('v, 'f) handler \<Rightarrow> 'v qval \<Rightarrow> ('f \<times> 'v qval) list" where
  "called_by (User f) v = [(f, v)]"
| "called_by (Finally ok callback) v = (if is_function callback then called_by callback Undef else [])"
| "called_by _ v = []"

lemma user_calls_write [simp]: "user_calls (update_promise d f s) = user_calls s"
  by (simp add: update_promise_def)

lemma user_calls_schedule [simp]: "user_calls (scheduleProcessQueue d s) = user_calls s"
  by (simp add: scheduleProcessQueue_def)

lemma user_calls_push [simp]: "user_calls (push_pending d e s) = user_calls s"
  by (simp add: push_pending_def split: option.split)

lemma user_calls_new [simp]: "new_deferred s = (d, t) \<Longrightarrow> user_calls t = user_calls s"
  by (auto simp: new_deferred_def)

lemma user_calls_then [simp]: "user_calls (snd (q_then d f g h s)) = user_calls s"
  by (auto simp: q_then_def Let_def split: prod.split)

lemma user_calls_then_pair [simp]: "q_then d f g h s = (r, t) \<Longrightarrow> user_calls t = user_calls s"
  using user_calls_then [of d f g h s] by simp

lemma user_calls_settle [simp]:
  "user_calls (settle_rejected d v s) = user_calls s" "user_calls (settle_resolved d v s) = user_calls s"
  by (simp_all add: settle_rejected_def settle_resolved_def Let_def split: qval.split)

lemma user_calls_deferred [simp]:
  "user_calls (q_resolve d v s) = user_calls s" "user_calls (q_reject d v s) = user_calls s"
  "user_calls (q_notify d v s) = user_calls s"
  by (simp_all add: q_resolve_def q_reject_def q_notify_def split: option.split)

lemma user_calls_make [simp]: "makePromise v ok s = (d, t) \<Longrightarrow> user_calls t = user_calls s"
  by (auto simp: makePromise_def split: prod.splits)

lemma user_calls_actions [simp]: "user_calls (fold do_action acts s) = user_calls s"
proof (induction acts arbitrary: s)
  case (Cons a acts)
  then show ?case by (cases a) auto
qed simp

lemma user_calls_handler: "call_handler users h v s = (r, t) \<Longrightarrow> user_calls t = user_calls s @ called_by h v"
proof (induction users h v s arbitrary: r t rule: call_handler.induct)
  case (7 users ok callback v s)
  obtain x u where c: "(if is_function callback then call_handler users callback Undef s else (Returns Undef, s)) = (x, u)"
    by fastforce
  with "7.IH" have "user_calls u = user_calls s @ called_by (Finally ok callback) v"
    by (auto split: if_splits)
  with "7.prems" c show ?case by (auto split: outcome.splits qval.splits prod.splits)
qed (auto simp: call_user_def Let_def split: prod.splits if_splits)

text \<open>What one processing of the queue of a settled promise calls.\<close>

lemma process_calls:
  assumes "q_inv s" and "settled s p" and "pending (promises s ! p) = Some a"
  shows "user_calls (processQueue users p s) = user_calls s @
    concat (map (\<lambda>(d, onFulfilled, onRejected, progressBack).
      called_by (if status (promises s ! p) = 1 then onFulfilled else onRejected) (settled_value (promises s ! p)))
      (arrays s ! a))"
proof -
  let ?s = "update_promise p (\<lambda>q. q\<lparr>processScheduled := False, pending := None\<rparr>) s"
  have one: "user_calls (process_entry users p (d, f, r, g) t) =
      user_calls t @ called_by (if status (promises t ! p) = 1 then f else r) (settled_value (promises t ! p))"
    for d f r g t
  proof -
    let ?h = "if status (promises t ! p) = 1 then f else r"
    show ?thesis
    proof (cases "is_function ?h")
      case True
      then show ?thesis
        using user_calls_handler [of users ?h "settled_value (promises t ! p)" t]
        by (auto simp: process_entry_def Let_def split: prod.splits outcome.splits)
    next
      case False
      then have "called_by ?h v = []" for v by (cases ?h) auto
      with False show ?thesis by (auto simp: process_entry_def Let_def)
    qed
  qed
  have "user_calls (fold (process_entry users p) es t) = user_calls t @
    concat (map (\<lambda>(d, f, r, g). called_by (if status (promises t ! p) = 1 then f else r) (settled_value (promises t ! p))) es)"
    if "q_inv t" "settled t p" for es t
    using that
  proof (induction es arbitrary: t)
    case (Cons e es)
    obtain d f r g where e: "e = (d, f, r, g)" by (cases e)
    have adv: "advances t (process_entry users p e t)" by (rule advances_process_entry [OF Cons.prems(1)])
    with Cons.prems(2) have same: "settled (process_entry users p e t) p"
      "status (promises (process_entry users p e t) ! p) = status (promises t ! p)"
      "settled_value (promises (process_entry users p e t) ! p) = settled_value (promises t ! p)"
      by (simp_all add: advances_def)
    from Cons.IH [OF advances_inv [OF adv] same(1)] same(2,3) show ?case
      by (simp add: e one)
  qed simp
  moreover have "q_inv ?s" "settled ?s p" "status (promises ?s ! p) = status (promises s ! p)"
    "settled_value (promises ?s ! p) = settled_value (promises s ! p)"
    using assms by (auto simp: q_inv_def settled_def update_promise_def nth_update)
  ultimately show ?thesis using assms(3) by (simp add: processQueue_def)
qed

text \<open>
  C17. When the queue of a settled promise is processed, every callback registered for this
  outcome (and no other) is called, once, in the order of registration, with the promise's
  value; a callback that throws does not keep the later ones from being called.
\<close>

theorem callbacks_in_order:
  assumes "q_inv s" and "settled s p" and "pending (promises s ! p) = Some a"
  shows "user_calls (processQueue users p s) = user_calls s @
    concat (map (\<lambda>(d, onFulfilled, onRejected, progressBack).
      called_by (if status (promises s ! p) = 1 then onFulfilled else onRejected) (settled_value (promises s ! p)))
      (arrays s ! a))"
  using assms by (rule process_calls)

definition two_callbacks :: "(nat, nat) qstate" where
  "two_callbacks = q_resolve 0 (Val 5) (snd (q_then 0 (User 2) NoHandler NoHandler
     (snd (q_then 0 (User 1) NoHandler NoHandler (snd (new_deferred empty_q))))))"

theorem callbacks_in_order_witness:
  "user_calls (processQueue (\<lambda>f v. ([], if f = 1 then Throws Undef else Returns v)) 0 two_callbacks) =
     [(1, Val 5), (2, Val 5)]"
proof -
  have inv: "q_inv two_callbacks"
    unfolding two_callbacks_def
    by (intro advances_inv [OF advances_resolve] advances_inv [OF advances_then]
        advances_inv [OF advances_new_deferred] q_inv_empty)
  have "settled two_callbacks 0" "pending (promises two_callbacks ! 0) = Some 0" by code_simp+
  moreover have "user_calls two_callbacks = []"
    "arrays two_callbacks ! 0 = [(1, User 1, NoHandler, NoHandler), (2, User 2, NoHandler, NoHandler)]"
    "status (promises two_callbacks ! 0) = 1" "settled_value (promises two_callbacks ! 0) = Val 5"
    by code_simp+
  ultimately show ?thesis using callbacks_in_order [OF inv] by simp
qed

end
