(* ===== verification/NgScope.thy ===== *)
theory NgScope
  imports NgUtil Prelude
begin

text \<open>
  Angular's scopes, \<open>$RootScopeProvider\<close> of \<open>js/angular.js\<close>: the tree of scopes with its
  sibling pointers, watchers, event listeners, and the queues of deferred work. A scope is
  its number in creation order, 0 the root. Watches, arrays of listeners, events and watch
  groups are objects with an identity, kept in lists of their own.

  What the functions given by the application do is the parameter \<open>run\<close> of the
  environment: any effect on the whole state, so also calls of the operations below.
  Watched expressions are functions without a watch delegate of \<open>$parse\<close>.
\<close>

section \<open>State\<close>

text \<open>A function: the application's, or one the scopes' own code passes.\<close>

datatype 'f fn =
    UserFn 'f
  | NoopFn
  | DestroyChildScope
  | GroupFirst nat
  | GroupOnly nat
  | GroupSub nat nat
  | GroupAction nat

text \<open>The arguments of a call.\<close>

datatype 'v call =
    GetValue nat
  | Changed 'v 'v nat
  | Evaluate nat
  | GroupChanged "'v option list" "'v option list" nat
  | OnEvent nat "'v list"
  | NoArguments

record ('v, 'f) watch =
  w_fn :: "'f fn"
  w_last :: "'v option"
  w_get :: "'f fn"
  w_eq :: bool

text \<open>
  \<open>proto\<close> is the scope it inherits from (None for the root and isolate scopes). A count of
  None is NaN. \<open>cleared\<close> says that \<open>$$watchers\<close> has been reset to null, the array itself
  lives on in the functions that deregister; \<open>disabled\<close> that its methods have been replaced
  by empty ones.
\<close>

record scope =
  proto :: "nat option"
  parent :: "nat option"
  next_sibling :: "nat option"
  prev_sibling :: "nat option"
  child_head :: "nat option"
  child_tail :: "nat option"
  watchers :: "nat list"
  cleared :: bool
  watchersCount :: int
  listeners :: "(string \<times> nat) list"
  listenerCount :: "(string \<times> int option) list"
  own_destroyed :: bool
  disabled :: bool

record event =
  e_name :: string
  e_target :: nat
  e_current :: "nat option"
  e_stopped :: bool
  e_prevented :: bool

record ('v, 'f) group =
  g_scope :: nat
  g_listener :: 'f
  newValues :: "'v option list"
  oldValues :: "'v option list"
  changeReactionScheduled :: bool
  firstRun :: bool
  shouldCall :: bool

datatype timer = DigestIfQueued | ApplyFlush

record ('m, 'v, 'f) rootscope =
  model :: 'm
  scopes :: "scope list"
  watches :: "('v, 'f) watch list"
  larrays :: "'f fn option list list"
  events :: "event list"
  groups :: "('v, 'f) group list"
  asyncQueue :: "(nat \<times> 'f fn) list"
  postDigestQueue :: "'f fn list"
  applyAsyncQueue :: "(nat \<times> 'f fn) list"
  applyAsyncId :: "nat option"
  timers :: "(nat \<times> timer) list"
  next_timer :: nat
  phase :: "string option"
  lastDirtyWatch :: "nat option"
  TTL :: nat
  handled :: "js_error list"
  trace :: "('f \<times> 'v call) list"

text \<open>
  The environment: the application's functions, the three comparisons and the copy of
  watched values (on the heap in the model), the text of a watch log, and the browser's
  check for a changed address.
\<close>

record ('m, 'v, 'f) scope_env =
  run :: "'f \<Rightarrow> 'v call \<Rightarrow> (('m, 'v, 'f) rootscope, 'v) comp"
  strict_eq :: "'v \<Rightarrow> 'v \<Rightarrow> bool"
  deep_eq :: "'m \<Rightarrow> 'v \<Rightarrow> 'v \<Rightarrow> bool"
  is_nan :: "'v \<Rightarrow> bool"
  copy_value :: "'m \<Rightarrow> 'v \<Rightarrow> 'v \<times> 'm"
  undef :: 'v
  log_text :: "(nat \<times> nat \<times> 'v \<times> 'v option) list \<Rightarrow> string"
  check_url :: "(('m, 'v, 'f) rootscope, unit) comp"
  application_destroyed :: "('m, 'v, 'f) rootscope \<Rightarrow> ('m, 'v, 'f) rootscope"

definition new_scope :: scope where
  "new_scope = \<lparr>proto = None, parent = None, next_sibling = None, prev_sibling = None,
     child_head = None, child_tail = None, watchers = [], cleared = False, watchersCount = 0,
     listeners = [], listenerCount = [], own_destroyed = False, disabled = False\<rparr>"

definition root_only :: "'m \<Rightarrow> ('m, 'v, 'f) rootscope" where
  "root_only m = \<lparr>model = m, scopes = [new_scope], watches = [], larrays = [], events = [], groups = [],
     asyncQueue = [], postDigestQueue = [], applyAsyncQueue = [], applyAsyncId = None, timers = [],
     next_timer = 0, phase = None, lastDirtyWatch = None, TTL = 10, handled = [], trace = []\<rparr>"

definition digestTtl :: "nat option \<Rightarrow> ('m, 'v, 'f) rootscope \<Rightarrow> nat \<times> ('m, 'v, 'f) rootscope" where
  "digestTtl value s = (let t = (case value of None \<Rightarrow> s | Some n \<Rightarrow> s\<lparr>TTL := n\<rparr>) in (TTL t, t))"

definition update_scope :: "nat \<Rightarrow> (scope \<Rightarrow> scope) \<Rightarrow> ('m, 'v, 'f) rootscope \<Rightarrow> ('m, 'v, 'f) rootscope" where
  "update_scope i f s = s\<lparr>scopes := (scopes s)[i := f (scopes s ! i)]\<rparr>"

definition update_opt :: "nat option \<Rightarrow> (scope \<Rightarrow> scope) \<Rightarrow> ('m, 'v, 'f) rootscope \<Rightarrow> ('m, 'v, 'f) rootscope" where
  "update_opt i f = (case i of None \<Rightarrow> id | Some i \<Rightarrow> update_scope i f)"

section \<open>Up the tree\<close>

text \<open>
  A scope and its parents. A parent is always created before its child, so the test for a
  smaller number never fails in a state the program can reach; it makes the definition
  total. The same holds for the scopes a scope inherits from.
\<close>

fun chain :: "scope list \<Rightarrow> nat \<Rightarrow> nat list" where
  "chain ss i = i # (case parent (ss ! i) of
     None \<Rightarrow> [] | Some p \<Rightarrow> if p < i then chain ss p else [])"

fun protos :: "scope list \<Rightarrow> nat \<Rightarrow> nat list" where
  "protos ss i = i # (case proto (ss ! i) of
     None \<Rightarrow> [] | Some p \<Rightarrow> if p < i then protos ss p else [])"

declare chain.simps [simp del] protos.simps [simp del]

text \<open>\<open>$$destroyed\<close> and the replaced methods, as inherited properties.\<close>

definition is_destroyed :: "('m, 'v, 'f) rootscope \<Rightarrow> nat \<Rightarrow> bool" where
  "is_destroyed s i \<longleftrightarrow> (\<exists>j \<in> set (protos (scopes s) i). own_destroyed (scopes s ! j))"

definition is_disabled :: "('m, 'v, 'f) rootscope \<Rightarrow> nat \<Rightarrow> bool" where
  "is_disabled s i \<longleftrightarrow> (\<exists>j \<in> set (protos (scopes s) i). disabled (scopes s ! j))"

definition incrementWatchersCount :: "nat \<Rightarrow> int \<Rightarrow> ('m, 'v, 'f) rootscope \<Rightarrow> ('m, 'v, 'f) rootscope" where
  "incrementWatchersCount i count s =
    fold (\<lambda>j. update_scope j (\<lambda>c. c\<lparr>watchersCount := watchersCount c + count\<rparr>)) (chain (scopes s) i) s"

text \<open>A missing count is undefined; any arithmetic with it gives NaN, which is not 0.\<close>

definition minus_count :: "int option option \<Rightarrow> int option \<Rightarrow> int option" where
  "minus_count old count = (case (old, count) of (Some (Some n), Some k) \<Rightarrow> Some (n - k) | _ \<Rightarrow> None)"

definition lower_count :: "string \<Rightarrow> int option \<Rightarrow> scope \<Rightarrow> scope" where
  "lower_count name count c =
    (let n = minus_count (map_of (listenerCount c) name) count in
     c\<lparr>listenerCount := (if n = Some 0 then adel name (listenerCount c) else aput name n (listenerCount c))\<rparr>)"

definition decrementListenerCount :: "nat \<Rightarrow> int option \<Rightarrow> string \<Rightarrow> ('m, 'v, 'f) rootscope \<Rightarrow> ('m, 'v, 'f) rootscope" where
  "decrementListenerCount i count name s =
    fold (\<lambda>j. update_scope j (lower_count name count)) (chain (scopes s) i) s"

text \<open>\<open>if (!count[name]) count[name] = 0; count[name]++\<close>.\<close>

definition raise_count :: "string \<Rightarrow> scope \<Rightarrow> scope" where
  "raise_count name c =
    (let n = (case map_of (listenerCount c) name of Some (Some k) \<Rightarrow> k | _ \<Rightarrow> 0)
     in c\<lparr>listenerCount := aput name (Some (n + 1)) (listenerCount c)\<rparr>)"

definition count_truthy :: "string \<Rightarrow> scope \<Rightarrow> bool" where
  "count_truthy name c \<longleftrightarrow> (case map_of (listenerCount c) name of Some (Some k) \<Rightarrow> k \<noteq> 0 | _ \<Rightarrow> False)"

section \<open>Listening to events\<close>

text \<open>\<open>$on(name, listener)\<close>; the result is the array for the function that deregisters.\<close>

definition s_on :: "nat \<Rightarrow> string \<Rightarrow> 'f fn \<Rightarrow> ('m, 'v, 'f) rootscope \<Rightarrow> nat option \<times> ('m, 'v, 'f) rootscope" where
  "s_on i name listener s =
    (if is_disabled s i then (None, s)
     else
       (let (a, s1) = (case map_of (listeners (scopes s ! i)) name of
              Some a \<Rightarrow> (a, s)
            | None \<Rightarrow> (let a = length (larrays s) in
                (a, (update_scope i (\<lambda>c. c\<lparr>listeners := aput name a (listeners c)\<rparr>) s)\<lparr>larrays := larrays s @ [[]]\<rparr>)));
            s2 = s1\<lparr>larrays := (larrays s1)[a := larrays s1 ! a @ [Some listener]]\<rparr>
        in (Some a, fold (\<lambda>j. update_scope j (raise_count name)) (chain (scopes s2) i) s2)))"

fun clear_first :: "'a \<Rightarrow> 'a option list \<Rightarrow> 'a option list" where
  "clear_first f [] = []"
| "clear_first f (x # xs) = (if x = Some f then None # xs else x # clear_first f xs)"

definition s_off :: "nat \<Rightarrow> string \<Rightarrow> nat \<Rightarrow> 'f fn \<Rightarrow> ('m, 'v, 'f) rootscope \<Rightarrow> ('m, 'v, 'f) rootscope" where
  "s_off i name a listener s =
    (if Some listener \<in> set (larrays s ! a)
     then decrementListenerCount i (Some 1) name
       (s\<lparr>larrays := (larrays s)[a := clear_first listener (larrays s ! a)]\<rparr>)
     else s)"

section \<open>Creating scopes\<close>

definition s_new :: "bool \<Rightarrow> nat \<Rightarrow> nat option \<Rightarrow> ('m, 'v, 'f) rootscope \<Rightarrow> nat \<times> ('m, 'v, 'f) rootscope" where
  "s_new isolate this par s =
    (let p = (case par of None \<Rightarrow> this | Some p \<Rightarrow> p);
         c = length (scopes s);
         child = new_scope\<lparr>proto := (if isolate then None else Some this), parent := Some p,
                           prev_sibling := child_tail (scopes s ! p)\<rparr>;
         s1 = s\<lparr>scopes := scopes s @ [child]\<rparr>;
         s2 = (if child_head (scopes s ! p) \<noteq> None
               then update_scope p (\<lambda>x. x\<lparr>child_tail := Some c\<rparr>)
                      (update_opt (child_tail (scopes s ! p)) (\<lambda>x. x\<lparr>next_sibling := Some c\<rparr>) s1)
               else update_scope p (\<lambda>x. x\<lparr>child_head := Some c, child_tail := Some c\<rparr>) s1)
     in (c, if isolate \<or> p \<noteq> this then snd (s_on c ''$destroy'' DestroyChildScope s2) else s2))"

section \<open>Watching\<close>

text \<open>\<open>$watch\<close>; the listener is \<open>NoopFn\<close> when it is no function. The result is the watch.\<close>

definition s_watch :: "nat \<Rightarrow> 'f fn \<Rightarrow> 'f fn \<Rightarrow> bool \<Rightarrow> ('m, 'v, 'f) rootscope \<Rightarrow> nat option \<times> ('m, 'v, 'f) rootscope" where
  "s_watch i get listener eq s =
    (if is_disabled s i then (None, s)
     else
       (let w = length (watches s);
            s1 = s\<lparr>watches := watches s @ [\<lparr>w_fn = listener, w_last = None, w_get = get, w_eq = eq\<rparr>],
                   lastDirtyWatch := None\<rparr>
        in (Some w, incrementWatchersCount i 1 (update_scope i (\<lambda>c. c\<lparr>watchers := w # watchers c\<rparr>) s1))))"

definition s_unwatch :: "nat \<Rightarrow> nat \<Rightarrow> ('m, 'v, 'f) rootscope \<Rightarrow> ('m, 'v, 'f) rootscope" where
  "s_unwatch i w s =
    (if w \<in> set (watchers (scopes s ! i))
     then incrementWatchersCount i (-1) (update_scope i (\<lambda>c. c\<lparr>watchers := remove1 w (watchers c)\<rparr>) s)
     else s)\<lparr>lastDirtyWatch := None\<rparr>"

section \<open>Deferred work\<close>

definition browser_defer :: "timer \<Rightarrow> ('m, 'v, 'f) rootscope \<Rightarrow> nat \<times> ('m, 'v, 'f) rootscope" where
  "browser_defer t s = (next_timer s, s\<lparr>timers := timers s @ [(next_timer s, t)], next_timer := Suc (next_timer s)\<rparr>)"

definition s_evalAsync :: "nat \<Rightarrow> 'f fn \<Rightarrow> ('m, 'v, 'f) rootscope \<Rightarrow> ('m, 'v, 'f) rootscope" where
  "s_evalAsync i expr s =
    (if is_disabled s i then s
     else
       (let s1 = (if phase s = None \<and> asyncQueue s = [] then snd (browser_defer DigestIfQueued s) else s)
        in s1\<lparr>asyncQueue := asyncQueue s1 @ [(i, expr)]\<rparr>))"

definition s_postDigest :: "'f fn \<Rightarrow> ('m, 'v, 'f) rootscope \<Rightarrow> ('m, 'v, 'f) rootscope" where
  "s_postDigest fn s = s\<lparr>postDigestQueue := postDigestQueue s @ [fn]\<rparr>"

definition scheduleApplyAsync :: "('m, 'v, 'f) rootscope \<Rightarrow> ('m, 'v, 'f) rootscope" where
  "scheduleApplyAsync s =
    (if applyAsyncId s = None
     then (case browser_defer ApplyFlush s of (k, t) \<Rightarrow> t\<lparr>applyAsyncId := Some k\<rparr>) else s)"

definition s_applyAsync :: "nat \<Rightarrow> 'f fn option \<Rightarrow> ('m, 'v, 'f) rootscope \<Rightarrow> ('m, 'v, 'f) rootscope" where
  "s_applyAsync i expr s =
    (if is_disabled s i then s
     else scheduleApplyAsync (case expr of None \<Rightarrow> s
       | Some f \<Rightarrow> s\<lparr>applyAsyncQueue := applyAsyncQueue s @ [(i, f)]\<rparr>))"

section \<open>Calling functions\<close>

definition call_user :: "('m, 'v, 'f) scope_env \<Rightarrow> 'f \<Rightarrow> 'v call \<Rightarrow> (('m, 'v, 'f) rootscope, 'v) comp" where
  "call_user env f c s = run env f c (s\<lparr>trace := trace s @ [(f, c)]\<rparr>)"

definition update_group :: "nat \<Rightarrow> (('v, 'f) group \<Rightarrow> ('v, 'f) group) \<Rightarrow> ('m, 'v, 'f) rootscope \<Rightarrow> ('m, 'v, 'f) rootscope" where
  "update_group g f s = s\<lparr>groups := (groups s)[g := f (groups s ! g)]\<rparr>"

definition group_values :: "nat \<Rightarrow> 'v \<Rightarrow> 'v \<Rightarrow> ('v, 'f) group \<Rightarrow> ('v, 'f) group" where
  "group_values k v old g = g\<lparr>newValues := (newValues g)[k := Some v], oldValues := (oldValues g)[k := Some old]\<rparr>"

text \<open>
  \<open>DestroyChildScope\<close> is \<open>destroyChildScope\<close>; the group functions are the local functions
  of \<open>$watchGroup\<close>: \<open>GroupFirst\<close> the one for no expression, \<open>GroupOnly\<close> the listener for a
  single one, \<open>GroupSub\<close> and \<open>GroupAction\<close> those for several.
\<close>

fun call_fn :: "('m, 'v, 'f) scope_env \<Rightarrow> 'f fn \<Rightarrow> 'v call \<Rightarrow> (('m, 'v, 'f) rootscope, 'v) comp" where
  "call_fn env (UserFn f) c s = call_user env f c s"
| "call_fn env DestroyChildScope (OnEvent e args) s =
    (Inr (undef env), update_opt (e_current (events s ! e)) (\<lambda>x. x\<lparr>own_destroyed := True\<rparr>) s)"
| "call_fn env (GroupFirst g) (Evaluate i) s =
    (let r = groups s ! g in
     if shouldCall r then call_user env (g_listener r) (GroupChanged (newValues r) (newValues r) (g_scope r)) s
     else (Inr (undef env), s))"
| "call_fn env (GroupOnly g) (Changed v old i) s =
    (let s1 = update_group g (group_values 0 v old) s; r = groups s1 ! g
     in call_user env (g_listener r)
          (GroupChanged (newValues r) (if strict_eq env v old then newValues r else oldValues r) i) s1)"
| "call_fn env (GroupSub g k) (Changed v old i) s =
    (let s1 = update_group g (group_values k v old) s; r = groups s1 ! g
     in (Inr (undef env),
         if changeReactionScheduled r then s1
         else s_evalAsync (g_scope r) (GroupAction g) (update_group g (\<lambda>x. x\<lparr>changeReactionScheduled := True\<rparr>) s1)))"
| "call_fn env (GroupAction g) (Evaluate i) s =
    (let r = groups s ! g;
         s1 = update_group g (\<lambda>x. x\<lparr>changeReactionScheduled := False, firstRun := False\<rparr>) s
     in call_user env (g_listener r)
          (GroupChanged (newValues r) (if firstRun r then newValues r else oldValues r) (g_scope r)) s1)"
| "call_fn env fn c s = (Inr (undef env), s)"

text \<open>A call inside \<open>try\<close>, its error given to \<open>$exceptionHandler\<close> (which logs it).\<close>

definition exceptionHandler :: "js_error \<Rightarrow> ('m, 'v, 'f) rootscope \<Rightarrow> ('m, 'v, 'f) rootscope" where
  "exceptionHandler e s = s\<lparr>handled := handled s @ [e]\<rparr>"

definition try_call :: "('m, 'v, 'f) scope_env \<Rightarrow> 'f fn \<Rightarrow> 'v call \<Rightarrow> ('m, 'v, 'f) rootscope \<Rightarrow> ('m, 'v, 'f) rootscope" where
  "try_call env fn c s = (case call_fn env fn c s of (Inl e, t) \<Rightarrow> exceptionHandler e t | (Inr _, t) \<Rightarrow> t)"

section \<open>Watching several expressions\<close>

text \<open>\<open>$watchGroup\<close>; the result is the group and its watches, for the function that deregisters.\<close>

definition new_group :: "nat \<Rightarrow> nat \<Rightarrow> 'f \<Rightarrow> ('v, 'f) group" where
  "new_group n i listener = \<lparr>g_scope = i, g_listener = listener, newValues = replicate n None,
     oldValues = replicate n None, changeReactionScheduled = False, firstRun = True, shouldCall = True\<rparr>"

definition watch_sub :: "nat \<Rightarrow> nat \<Rightarrow> nat \<times> 'f fn \<Rightarrow> nat list \<times> ('m, 'v, 'f) rootscope \<Rightarrow> nat list \<times> ('m, 'v, 'f) rootscope" where
  "watch_sub i g ke ws =
    (case s_watch i (snd ke) (GroupSub g (fst ke)) False (snd ws) of
       (Some w, t) \<Rightarrow> (fst ws @ [w], t) | (None, t) \<Rightarrow> (fst ws, t))"

definition s_watchGroup :: "nat \<Rightarrow> 'f fn list \<Rightarrow> 'f \<Rightarrow> ('m, 'v, 'f) rootscope \<Rightarrow> (nat \<times> nat list) option \<times> ('m, 'v, 'f) rootscope" where
  "s_watchGroup i exprs listener s =
    (if is_disabled s i then (None, s)
     else
       (let g = length (groups s);
            s1 = s\<lparr>groups := groups s @ [new_group (length exprs) i listener]\<rparr>
        in case exprs of
             [] \<Rightarrow> (Some (g, []), s_evalAsync i (GroupFirst g) s1)
           | [e] \<Rightarrow> (case s_watch i e (GroupOnly g) False s1 of
               (Some w, t) \<Rightarrow> (Some (g, [w]), t) | (None, t) \<Rightarrow> (Some (g, []), t))
           | _ \<Rightarrow> (case fold (watch_sub i g) (enumerate 0 exprs) ([], s1) of (ws, t) \<Rightarrow> (Some (g, ws), t))))"

definition s_unwatchGroup :: "nat \<Rightarrow> nat \<times> nat list \<Rightarrow> ('m, 'v, 'f) rootscope \<Rightarrow> ('m, 'v, 'f) rootscope" where
  "s_unwatchGroup i gw s =
    (if snd gw = [] then update_group (fst gw) (\<lambda>x. x\<lparr>shouldCall := False\<rparr>) s
     else fold (s_unwatch i) (snd gw) s)"

end
