(* ===== verification/NgEvents.thy ===== *)
theory NgEvents
  imports NgScope
begin

text \<open>
  Events on scopes: \<open>$emit\<close> up the tree, \<open>$broadcast\<close> down it, and \<open>$destroy\<close>, which
  broadcasts before it takes the scope out of the tree.
\<close>

section \<open>Walking down the tree\<close>

text \<open>
  The next scope of a depth-first walk below \<open>target\<close>, as \<open>$digest\<close> and \<open>$broadcast\<close> find
  it: into the children if there is a reason to, else to the next sibling, else up until
  there is one. A scope whose parent was reset while it was visited ends the climb at null,
  whose property is read: a TypeError.
\<close>

function climb :: "scope list \<Rightarrow> nat \<Rightarrow> nat \<Rightarrow> js_error + nat option" where
  "climb ss target cur =
    (if cur = target then Inr None
     else case next_sibling (ss ! cur) of
       Some n \<Rightarrow> Inr (Some n)
     | None \<Rightarrow>
        (case parent (ss ! cur) of
           None \<Rightarrow> Inl (TypeError ''$$nextSibling'')
         | Some p \<Rightarrow> if p < cur then climb ss target p else Inl (TypeError ''$$nextSibling'')))"
  by pat_completeness auto
termination by (relation "measure (\<lambda>(ss, target, cur). cur)") auto

declare climb.simps [simp del]

definition next_scope :: "scope list \<Rightarrow> bool \<Rightarrow> nat \<Rightarrow> nat \<Rightarrow> js_error + nat option" where
  "next_scope ss into target cur =
    (case (if into then child_head (ss ! cur) else None) of
       Some c \<Rightarrow> Inr (Some c)
     | None \<Rightarrow> climb ss target cur)"

section \<open>Calling the listeners of one scope\<close>

definition update_event :: "nat \<Rightarrow> (event \<Rightarrow> event) \<Rightarrow> ('m, 'v, 'f) rootscope \<Rightarrow> ('m, 'v, 'f) rootscope" where
  "update_event e f s = s\<lparr>events := (events s)[e := f (events s ! e)]\<rparr>"

definition stopPropagation :: "nat \<Rightarrow> ('m, 'v, 'f) rootscope \<Rightarrow> ('m, 'v, 'f) rootscope" where
  "stopPropagation e = update_event e (\<lambda>x. x\<lparr>e_stopped := True\<rparr>)"

definition preventDefault :: "nat \<Rightarrow> ('m, 'v, 'f) rootscope \<Rightarrow> ('m, 'v, 'f) rootscope" where
  "preventDefault e = update_event e (\<lambda>x. x\<lparr>e_prevented := True\<rparr>)"

definition new_event :: "string \<Rightarrow> nat \<Rightarrow> ('m, 'v, 'f) rootscope \<Rightarrow> nat \<times> ('m, 'v, 'f) rootscope" where
  "new_event name target s = (length (events s), s\<lparr>events := events s @
     [\<lparr>e_name = name, e_target = target, e_current = None, e_stopped = False, e_prevented = False\<rparr>]\<rparr>)"

text \<open>
  The loop over an array of listeners, \<open>len\<close> its length at the start: an entry reset to
  null by its deregistration is taken out of the array.
\<close>

function run_listeners ::
  "('m, 'v, 'f) scope_env \<Rightarrow> nat \<Rightarrow> nat \<Rightarrow> 'v list \<Rightarrow> nat \<Rightarrow> nat \<Rightarrow> ('m, 'v, 'f) rootscope
    \<Rightarrow> ('m, 'v, 'f) rootscope" where
  "run_listeners env a e args i len s =
    (if i \<ge> len then s
     else
       (let arr = larrays s ! a in
        case (if i < length arr then arr ! i else None) of
          None \<Rightarrow> run_listeners env a e args i (len - 1)
                   (s\<lparr>larrays := (larrays s)[a := take i arr @ drop (Suc i) arr]\<rparr>)
        | Some f \<Rightarrow> run_listeners env a e args (Suc i) len (try_call env f (OnEvent e args) s)))"
  by pat_completeness auto
termination by (relation "measure (\<lambda>(env, a, e, args, i, len, s). len - i)") auto

declare run_listeners.simps [simp del]

definition notify_scope ::
  "('m, 'v, 'f) scope_env \<Rightarrow> nat \<Rightarrow> string \<Rightarrow> 'v list \<Rightarrow> nat \<Rightarrow> ('m, 'v, 'f) rootscope \<Rightarrow> ('m, 'v, 'f) rootscope" where
  "notify_scope env e name args i s =
    (let s1 = update_event e (\<lambda>x. x\<lparr>e_current := Some i\<rparr>) s in
     case map_of (listeners (scopes s1 ! i)) name of
       None \<Rightarrow> s1
     | Some a \<Rightarrow> run_listeners env a e args 0 (length (larrays s1 ! a)) s1)"

section \<open>Up: \<open>$emit\<close>\<close>

function emit_from ::
  "('m, 'v, 'f) scope_env \<Rightarrow> nat \<Rightarrow> string \<Rightarrow> 'v list \<Rightarrow> nat \<Rightarrow> ('m, 'v, 'f) rootscope \<Rightarrow> ('m, 'v, 'f) rootscope" where
  "emit_from env e name args i s =
    (let s1 = notify_scope env e name args i s in
     if e_stopped (events s1 ! e) then update_event e (\<lambda>x. x\<lparr>e_current := None\<rparr>) s1
     else (case parent (scopes s1 ! i) of
       None \<Rightarrow> update_event e (\<lambda>x. x\<lparr>e_current := None\<rparr>) s1
     | Some p \<Rightarrow> if p < i then emit_from env e name args p s1
                 else update_event e (\<lambda>x. x\<lparr>e_current := None\<rparr>) s1))"
  by pat_completeness auto
termination by (relation "measure (\<lambda>(env, e, name, args, i, s). i)") auto

declare emit_from.simps [simp del]

definition s_emit :: "('m, 'v, 'f) scope_env \<Rightarrow> nat \<Rightarrow> string \<Rightarrow> 'v list \<Rightarrow> ('m, 'v, 'f) rootscope \<Rightarrow> nat \<times> ('m, 'v, 'f) rootscope" where
  "s_emit env i name args s =
    (case new_event name i s of (e, s1) \<Rightarrow> (e, emit_from env e name args i s1))"

section \<open>Down: \<open>$broadcast\<close>\<close>

text \<open>
  The listeners may add scopes to the walk, so it has a bound on the scopes visited; None
  means it was too small.
\<close>

fun broadcast_walk ::
  "nat \<Rightarrow> ('m, 'v, 'f) scope_env \<Rightarrow> nat \<Rightarrow> string \<Rightarrow> 'v list \<Rightarrow> nat \<Rightarrow> nat \<Rightarrow> ('m, 'v, 'f) rootscope
    \<Rightarrow> ((js_error + unit) \<times> ('m, 'v, 'f) rootscope) option" where
  "broadcast_walk 0 env e name args target cur s = None"
| "broadcast_walk (Suc n) env e name args target cur s =
    (let s1 = notify_scope env e name args cur s in
     case next_scope (scopes s1) (count_truthy name (scopes s1 ! cur)) target cur of
       Inl err \<Rightarrow> Some (Inl err, s1)
     | Inr None \<Rightarrow> Some (Inr (), update_event e (\<lambda>x. x\<lparr>e_current := None\<rparr>) s1)
     | Inr (Some c) \<Rightarrow> broadcast_walk n env e name args target c s1)"

definition s_broadcast ::
  "nat \<Rightarrow> ('m, 'v, 'f) scope_env \<Rightarrow> nat \<Rightarrow> string \<Rightarrow> 'v list \<Rightarrow> ('m, 'v, 'f) rootscope
    \<Rightarrow> ((js_error + nat) \<times> ('m, 'v, 'f) rootscope) option" where
  "s_broadcast fuel env i name args s =
    (case new_event name i s of (e, s1) \<Rightarrow>
      if \<not> count_truthy name (scopes s1 ! i) then Some (Inr e, s1)
      else
        (case broadcast_walk fuel env e name args i i s1 of
           None \<Rightarrow> None
         | Some (Inl err, t) \<Rightarrow> Some (Inl err, t)
         | Some (Inr _, t) \<Rightarrow> Some (Inr e, t)))"

section \<open>\<open>$destroy\<close>\<close>

definition cleanUpScope :: "scope \<Rightarrow> scope" where
  "cleanUpScope c = c\<lparr>parent := None, next_sibling := None, prev_sibling := None,
     child_head := None, child_tail := None, cleared := True\<rparr>"

definition drop_listener_counts :: "nat \<Rightarrow> ('m, 'v, 'f) rootscope \<Rightarrow> ('m, 'v, 'f) rootscope" where
  "drop_listener_counts d s =
    fold (\<lambda>name t. case map_of (listenerCount (scopes t ! d)) name of
        None \<Rightarrow> t | Some k \<Rightarrow> decrementListenerCount d k name t)
      (akeys (listenerCount (scopes s ! d))) s"

definition unlink_scope :: "nat \<Rightarrow> nat option \<Rightarrow> ('m, 'v, 'f) rootscope \<Rightarrow> ('m, 'v, 'f) rootscope" where
  "unlink_scope d par s =
    (let nx = next_sibling (scopes s ! d); pv = prev_sibling (scopes s ! d);
         s1 = update_opt par (\<lambda>c. if child_head c = Some d then c\<lparr>child_head := nx\<rparr> else c) s;
         s2 = update_opt par (\<lambda>c. if child_tail c = Some d then c\<lparr>child_tail := pv\<rparr> else c) s1;
         s3 = update_opt pv (\<lambda>c. c\<lparr>next_sibling := nx\<rparr>) s2
     in update_opt nx (\<lambda>c. c\<lparr>prev_sibling := pv\<rparr>) s3)"

definition finish_destroy :: "('m, 'v, 'f) scope_env \<Rightarrow> nat \<Rightarrow> nat option \<Rightarrow> ('m, 'v, 'f) rootscope \<Rightarrow> ('m, 'v, 'f) rootscope" where
  "finish_destroy env d par s =
    (let s1 = update_scope d (\<lambda>c. c\<lparr>own_destroyed := True\<rparr>) s;
         s2 = (if d = 0 then application_destroyed env s1 else s1);
         s3 = incrementWatchersCount d (- watchersCount (scopes s2 ! d)) s2;
         s4 = unlink_scope d par (drop_listener_counts d s3)
     in update_scope d (\<lambda>c. cleanUpScope (c\<lparr>disabled := True, listeners := []\<rparr>)) s4)"

definition s_destroy ::
  "nat \<Rightarrow> ('m, 'v, 'f) scope_env \<Rightarrow> nat \<Rightarrow> ('m, 'v, 'f) rootscope
    \<Rightarrow> ((js_error + unit) \<times> ('m, 'v, 'f) rootscope) option" where
  "s_destroy fuel env d s =
    (if is_disabled s d \<or> is_destroyed s d then Some (Inr (), s)
     else
       (let par = parent (scopes s ! d) in
        case s_broadcast fuel env d ''$destroy'' [] s of
          None \<Rightarrow> None
        | Some (Inl err, t) \<Rightarrow> Some (Inl err, t)
        | Some (Inr _, t) \<Rightarrow> Some (Inr (), finish_destroy env d par t)))"

end
