(* ===== verification/NgScopeTree.thy ===== *)
theory NgScopeTree
  imports NgEvents Interfaces
begin

text \<open>
  The tree of scopes stays a tree: parents, sibling pointers and the ends of the lists of
  children agree, and the counts of watchers and listeners that prune the walks are the
  sums over the subtrees, whatever is created, watched, listened to and destroyed.
\<close>

section \<open>Ancestors\<close>

definition below :: "scope list \<Rightarrow> nat \<Rightarrow> nat set" where
  "below ss i = {j. j < length ss \<and> i \<in> set (chain ss j)}"

lemma finite_below [simp]: "finite (below ss i)"
  by (rule finite_subset [of _ "{..<length ss}"]) (auto simp: below_def)

text \<open>The root has not been destroyed, and the scope is still connected to it.\<close>

definition attached :: "scope list \<Rightarrow> nat \<Rightarrow> bool" where
  "attached ss i \<longleftrightarrow> i \<in> below ss 0 \<and> \<not> cleared (ss ! 0)"

lemma chain_self [simp]: "i \<in> set (chain ss i)"
  by (subst chain.simps) simp

lemma chain_cases:
  assumes "j \<in> set (chain ss i)"
  obtains "j = i" | p where "parent (ss ! i) = Some p" "p < i" "j \<in> set (chain ss p)"
  using assms by (cases "parent (ss ! i)") (auto simp: chain.simps [of ss i] split: if_splits)

lemma chain_le: "j \<in> set (chain ss i) \<Longrightarrow> j \<le> i"
proof (induction ss i rule: chain.induct)
  case (1 ss i)
  from "1.prems" show ?case
    by (cases rule: chain_cases) (use "1.IH" in \<open>auto dest: less_imp_le\<close>)
qed

lemma distinct_chain [simp]: "distinct (chain ss i)"
proof (induction ss i rule: chain.induct)
  case (1 ss i)
  then show ?case
    by (auto simp: chain.simps [of ss i] split: option.split dest: chain_le)
qed

lemma chain_parent: "parent (ss ! i) = Some p \<Longrightarrow> p < i \<Longrightarrow> chain ss i = i # chain ss p"
  by (simp add: chain.simps [of ss i])

lemma chain_top: "parent (ss ! i) = None \<Longrightarrow> chain ss i = [i]"
  by (simp add: chain.simps)

lemma chain_zero: "chain ss 0 = [0]"
  by (simp add: chain.simps split: option.split)

lemma chain_cong:
  "(\<And>j. j \<le> i \<Longrightarrow> parent (ss ! j) = parent (ts ! j)) \<Longrightarrow> chain ss i = chain ts i"
proof (induction ss i rule: chain.induct)
  case (1 ss i)
  have p: "parent (ss ! i) = parent (ts ! i)" using "1.prems" by simp
  have "chain ss q = chain ts q" if "parent (ss ! i) = Some q" "q < i" for q
    using "1.IH" [OF that] "1.prems" that by simp
  with p show ?case by (auto simp: chain.simps [of _ i] split: option.split)
qed

text \<open>Two scopes above the same one are above each other.\<close>

lemma chain_suffix: "k \<in> set (chain ss i) \<Longrightarrow> \<exists>xs. chain ss i = xs @ chain ss k"
proof (induction ss i rule: chain.induct)
  case (1 ss i)
  show ?case
  proof (cases "k = i")
    case False
    with "1.prems" obtain p where p: "parent (ss ! i) = Some p" "p < i" "k \<in> set (chain ss p)"
      by (auto elim: chain_cases)
    with "1.IH" obtain xs where "chain ss p = xs @ chain ss k" by blast
    with p show ?thesis by (intro exI [of _ "i # xs"]) (simp add: chain_parent)
  qed auto
qed

lemma chain_trans: "k \<in> set (chain ss j) \<Longrightarrow> j \<in> set (chain ss i) \<Longrightarrow> k \<in> set (chain ss i)"
  using chain_suffix [of j ss i] by auto

lemma chain_linear:
  assumes "j \<in> set (chain ss i)" "k \<in> set (chain ss i)"
  shows "j \<in> set (chain ss k) \<or> k \<in> set (chain ss j)"
proof -
  obtain xs ys where e: "chain ss i = xs @ chain ss j" "chain ss i = ys @ chain ss k"
    using assms chain_suffix by blast
  then consider zs where "chain ss j = zs @ chain ss k" | zs where "chain ss k = zs @ chain ss j"
    by (metis append_eq_append_conv2)
  then show ?thesis by cases auto
qed

lemma below_chain: "j \<in> below ss i \<Longrightarrow> i \<in> set (chain ss j)"
  by (simp add: below_def)

lemma below_trans: "i \<in> set (chain ss k) \<Longrightarrow> k \<in> set (chain ss j) \<Longrightarrow> j < length ss \<Longrightarrow> j \<in> below ss i"
  by (auto simp: below_def intro: chain_trans)

lemma attached_chain: "attached ss i \<Longrightarrow> j \<in> set (chain ss i) \<Longrightarrow> attached ss j"
proof -
  assume a: "attached ss i" and j: "j \<in> set (chain ss i)"
  then have "0 \<in> set (chain ss j) \<or> j \<in> set (chain ss 0)"
    using chain_linear [of 0 ss i j] by (simp add: attached_def below_def)
  then have "0 \<in> set (chain ss j)" by (auto simp: chain_zero)
  with a chain_le [OF j] show ?thesis by (auto simp: attached_def below_def)
qed

lemma attached_less: "attached ss i \<Longrightarrow> i < length ss"
  by (simp add: attached_def below_def)

section \<open>The shape of the tree\<close>

definition tree_ok :: "scope list \<Rightarrow> bool" where
  "tree_ok ss \<longleftrightarrow> 0 < length ss \<and> (\<forall>i < length ss.
     (\<forall>p. parent (ss ! i) = Some p \<longrightarrow> p < i) \<and> (\<forall>p. proto (ss ! i) = Some p \<longrightarrow> p < i) \<and>
     (cleared (ss ! i) \<longrightarrow> parent (ss ! i) = None \<and> disabled (ss ! i)))"

definition next_ok :: "scope list \<Rightarrow> bool" where
  "next_ok ss \<longleftrightarrow> (\<forall>i < length ss. \<forall>j. next_sibling (ss ! i) = Some j \<longrightarrow>
     i < j \<and> j < length ss \<and> prev_sibling (ss ! j) = Some i \<and> parent (ss ! j) = parent (ss ! i) \<and> parent (ss ! i) \<noteq> None)"

definition prev_ok :: "scope list \<Rightarrow> bool" where
  "prev_ok ss \<longleftrightarrow> (\<forall>j < length ss. \<forall>i. prev_sibling (ss ! j) = Some i \<longrightarrow>
     i < length ss \<and> next_sibling (ss ! i) = Some j)"

definition ends_ok :: "scope list \<Rightarrow> bool" where
  "ends_ok ss \<longleftrightarrow> (\<forall>p < length ss.
     (\<forall>h. child_head (ss ! p) = Some h \<longrightarrow> h < length ss \<and> parent (ss ! h) = Some p \<and> prev_sibling (ss ! h) = None) \<and>
     (\<forall>l. child_tail (ss ! p) = Some l \<longrightarrow> l < length ss \<and> parent (ss ! l) = Some p \<and> next_sibling (ss ! l) = None) \<and>
     (\<not> cleared (ss ! p) \<longrightarrow> (child_head (ss ! p) = None \<longleftrightarrow> child_tail (ss ! p) = None)))"

definition kids_ok :: "scope list \<Rightarrow> bool" where
  "kids_ok ss \<longleftrightarrow> (\<forall>k < length ss. \<forall>p. parent (ss ! k) = Some p \<longrightarrow> \<not> cleared (ss ! p) \<longrightarrow>
     (prev_sibling (ss ! k) = None \<longrightarrow> child_head (ss ! p) = Some k) \<and>
     (next_sibling (ss ! k) = None \<longrightarrow> child_tail (ss ! p) = Some k))"

definition links_ok :: "scope list \<Rightarrow> bool" where
  "links_ok ss \<longleftrightarrow> next_ok ss \<and> prev_ok ss \<and> ends_ok ss \<and> kids_ok ss"

lemma tree_okD:
  assumes "tree_ok ss" "i < length ss"
  shows "parent (ss ! i) = Some p \<Longrightarrow> p < i" "proto (ss ! i) = Some q \<Longrightarrow> q < i"
    "cleared (ss ! i) \<Longrightarrow> parent (ss ! i) = None" "cleared (ss ! i) \<Longrightarrow> disabled (ss ! i)"
  using assms unfolding tree_ok_def by blast+

lemma tree_ok_pos: "tree_ok ss \<Longrightarrow> 0 < length ss"
  by (simp add: tree_ok_def)

lemma links_next:
  assumes "links_ok ss" "next_sibling (ss ! i) = Some j" "i < length ss"
  shows "i < j" "j < length ss" "prev_sibling (ss ! j) = Some i" "parent (ss ! j) = parent (ss ! i)" "parent (ss ! i) \<noteq> None"
  using assms unfolding links_ok_def next_ok_def by blast+

lemma links_prev:
  assumes "links_ok ss" "prev_sibling (ss ! j) = Some i" "j < length ss"
  shows "i < length ss" "next_sibling (ss ! i) = Some j"
  using assms unfolding links_ok_def prev_ok_def by blast+

lemma links_head:
  assumes "links_ok ss" "child_head (ss ! p) = Some h" "p < length ss"
  shows "h < length ss" "parent (ss ! h) = Some p" "prev_sibling (ss ! h) = None"
  using assms unfolding links_ok_def ends_ok_def by blast+

lemma links_tail:
  assumes "links_ok ss" "child_tail (ss ! p) = Some l" "p < length ss"
  shows "l < length ss" "parent (ss ! l) = Some p" "next_sibling (ss ! l) = None"
  using assms unfolding links_ok_def ends_ok_def by blast+

lemma links_ends: "links_ok ss \<Longrightarrow> p < length ss \<Longrightarrow> \<not> cleared (ss ! p) \<Longrightarrow> child_head (ss ! p) = None \<longleftrightarrow> child_tail (ss ! p) = None"
  unfolding links_ok_def ends_ok_def by blast

lemma links_kid:
  assumes "links_ok ss" "parent (ss ! k) = Some p" "\<not> cleared (ss ! p)" "k < length ss"
  shows "prev_sibling (ss ! k) = None \<Longrightarrow> child_head (ss ! p) = Some k"
    "next_sibling (ss ! k) = None \<Longrightarrow> child_tail (ss ! p) = Some k"
  using assms unfolding links_ok_def kids_ok_def by blast+

text \<open>What of a scope the shape depends on.\<close>

definition shape :: "scope \<Rightarrow> nat option list \<times> bool \<times> bool" where
  "shape c = ([proto c, parent c, next_sibling c, prev_sibling c, child_head c, child_tail c], cleared c, disabled c)"

definition same_shape :: "scope list \<Rightarrow> scope list \<Rightarrow> bool" where
  "same_shape ss ts \<longleftrightarrow> length ts = length ss \<and> (\<forall>i < length ss. shape (ts ! i) = shape (ss ! i))"

lemma same_shape_length: "same_shape ss ts \<Longrightarrow> length ts = length ss"
  by (simp add: same_shape_def)

lemma same_shape_fields:
  assumes "same_shape ss ts" "i < length ss"
  shows "proto (ts ! i) = proto (ss ! i)" "parent (ts ! i) = parent (ss ! i)"
    "next_sibling (ts ! i) = next_sibling (ss ! i)" "prev_sibling (ts ! i) = prev_sibling (ss ! i)"
    "child_head (ts ! i) = child_head (ss ! i)" "child_tail (ts ! i) = child_tail (ss ! i)"
    "cleared (ts ! i) = cleared (ss ! i)" "disabled (ts ! i) = disabled (ss ! i)"
  using assms by (simp_all add: same_shape_def shape_def)

lemma same_shape_tree_ok:
  assumes "same_shape ss ts" "tree_ok ss"
  shows "tree_ok ts"
  using assms(2) by (simp add: tree_ok_def same_shape_length [OF assms(1)] same_shape_fields [OF assms(1)])

lemma same_shape_chain:
  assumes "same_shape ss ts" "i < length ss"
  shows "chain ts i = chain ss i"
  by (rule chain_cong) (simp add: same_shape_fields [OF assms(1)] assms(2) le_less_trans)

lemma same_shape_below:
  assumes "same_shape ss ts"
  shows "below ts i = below ss i"
  by (auto simp: below_def same_shape_length [OF assms] same_shape_chain [OF assms])

lemma same_shape_attached:
  assumes "same_shape ss ts" "0 < length ss"
  shows "attached ts i = attached ss i"
  using same_shape_fields(7) [OF assms] by (simp add: attached_def same_shape_below [OF assms(1)])

lemma same_shape_links_ok:
  assumes sh: "same_shape ss ts" and ok: "links_ok ss" "tree_ok ss"
  shows "links_ok ts"
proof -
  note f = same_shape_fields [OF sh] and l = same_shape_length [OF sh]
  have "next_ok ts"
    unfolding next_ok_def l using f links_next [OF ok(1)] by metis
  moreover have "prev_ok ts"
    unfolding prev_ok_def l using f links_prev [OF ok(1)] by metis
  moreover have "ends_ok ts"
  proof -
    have "ends_ok ts = ends_ok ss"
      unfolding ends_ok_def l by (simp add: f cong: conj_cong)
    with ok(1) show ?thesis by (simp add: links_ok_def)
  qed
  moreover have "kids_ok ts"
    unfolding kids_ok_def l
  proof (intro allI impI)
    fix k p assume k: "k < length ss" "parent (ts ! k) = Some p" "\<not> cleared (ts ! p)"
    then have "parent (ss ! k) = Some p" using f(2) by simp
    moreover from this have "p < length ss" using tree_okD(1) [OF ok(2) k(1)] k(1) by simp
    ultimately show "(prev_sibling (ts ! k) = None \<longrightarrow> child_head (ts ! p) = Some k) \<and>
        (next_sibling (ts ! k) = None \<longrightarrow> child_tail (ts ! p) = Some k)"
      using k links_kid [OF ok(1), of k p] f [of k] f [of p] by simp
  qed
  ultimately show ?thesis by (simp add: links_ok_def)
qed

section \<open>Sums over subtrees\<close>

definition sums_ok :: "scope list \<Rightarrow> (nat \<Rightarrow> int) \<Rightarrow> (nat \<Rightarrow> int) \<Rightarrow> bool" where
  "sums_ok ss cnt wt \<longleftrightarrow> (\<forall>i. attached ss i \<longrightarrow> cnt i = (\<Sum>j \<in> below ss i. wt j))"

lemma sums_okD: "sums_ok ss cnt wt \<Longrightarrow> attached ss i \<Longrightarrow> cnt i = (\<Sum>j \<in> below ss i. wt j)"
  by (simp add: sums_ok_def)

lemma sums_ok_cong:
  assumes "sums_ok ss cnt wt" "\<And>i. attached ss i \<Longrightarrow> cnt' i = cnt i" "\<And>j. j < length ss \<Longrightarrow> wt' j = wt j"
  shows "sums_ok ss cnt' wt'"
  unfolding sums_ok_def
proof (intro allI impI)
  fix i assume i: "attached ss i"
  have "(\<Sum>j \<in> below ss i. wt j) = (\<Sum>j \<in> below ss i. wt' j)"
    by (rule sum.cong) (auto simp: below_def assms(3))
  with assms(1,2) i show "cnt' i = (\<Sum>j \<in> below ss i. wt' j)" by (simp add: sums_ok_def)
qed

lemma same_shape_sums:
  assumes "same_shape ss ts" "0 < length ss"
  shows "sums_ok ts cnt wt = sums_ok ss cnt wt"
  by (simp add: sums_ok_def same_shape_attached [OF assms] same_shape_below [OF assms(1)])

text \<open>One more of something at a scope, counted along its chain.\<close>

lemma sums_ok_add:
  assumes "sums_ok ss cnt wt" "i < length ss"
    and "\<And>k. attached ss k \<Longrightarrow> cnt' k = (if k \<in> set (chain ss i) then cnt k + c else cnt k)"
    and "\<And>j. j < length ss \<Longrightarrow> wt' j = (if j = i then wt j + c else wt j)"
  shows "sums_ok ss cnt' wt'"
  unfolding sums_ok_def
proof (intro allI impI)
  fix k assume k: "attached ss k"
  have "(\<Sum>j \<in> below ss k. wt' j) = (\<Sum>j \<in> below ss k. wt j + (if j = i then c else 0))"
    by (rule sum.cong) (auto simp: below_def assms(4))
  also have "\<dots> = (\<Sum>j \<in> below ss k. wt j) + (if i \<in> below ss k then c else 0)"
    by (simp add: sum.distrib sum.delta')
  also have "i \<in> below ss k \<longleftrightarrow> k \<in> set (chain ss i)" by (simp add: below_def assms(2))
  finally show "cnt' k = (\<Sum>j \<in> below ss k. wt' j)"
    using assms(3) [OF k] sums_okD [OF assms(1) k] by simp
qed

text \<open>A scope taken out of the tree: what it counted is taken off its chain.\<close>

definition cut_at :: "nat \<Rightarrow> scope list \<Rightarrow> scope list \<Rightarrow> bool" where
  "cut_at d ss ts \<longleftrightarrow> length ts = length ss \<and> d < length ss \<and>
     (\<forall>i < length ss. parent (ts ! i) = (if i = d then None else parent (ss ! i)) \<and>
        cleared (ts ! i) = (i = d \<or> cleared (ss ! i)))"

lemma cut_chain:
  assumes "cut_at d ss ts" "j < length ss"
  shows "set (chain ts j) = (if d \<in> set (chain ss j) then {i \<in> set (chain ss j). d \<in> set (chain ss i)} else set (chain ss j))"
  using assms(2)
proof (induction j rule: less_induct)
  case (less j)
  have par: "parent (ts ! j) = (if j = d then None else parent (ss ! j))"
    using assms(1) less.prems by (simp add: cut_at_def)
  show ?case
  proof (cases "\<exists>p. parent (ss ! j) = Some p \<and> p < j")
    case False
    then have "chain ss j = [j]" by (auto simp: chain.simps split: option.split)
    moreover have "chain ts j = [j]" using False par by (auto simp: chain.simps split: option.split)
    ultimately show ?thesis by auto
  next
    case True
    then obtain p where p: "parent (ss ! j) = Some p" "p < j" by blast
    then have css: "chain ss j = j # chain ss p" by (rule chain_parent)
    show ?thesis
    proof (cases "j = d")
      case True
      have "d \<notin> set (chain ss i)" if "i \<in> set (chain ss p)" for i
        using chain_le [OF that] chain_le [of d ss i] p(2) True by auto
      with True par css show ?thesis by (auto simp: chain_top)
    next
      case False
      with par p have "chain ts j = j # chain ts p" by (simp add: chain_parent)
      with less.IH [of p] p less.prems css False show ?thesis by auto
    qed
  qed
qed

lemma cut_below:
  assumes "cut_at d ss ts" "d \<notin> set (chain ss i)"
  shows "below ts i = below ss i - below ss d"
proof -
  have l: "length ts = length ss" using assms(1) by (simp add: cut_at_def)
  have "i \<in> set (chain ts j) \<longleftrightarrow> i \<in> set (chain ss j) \<and> d \<notin> set (chain ss j)" if "j < length ss" for j
    using cut_chain [OF assms(1) that] assms(2) by auto
  then show ?thesis by (auto simp: below_def l)
qed

lemma cut_attached:
  assumes "cut_at d ss ts" "tree_ok ss" "attached ts i"
  shows "attached ss i" "d \<notin> set (chain ss i)"
proof -
  have l: "length ts = length ss" and d: "d < length ss" using assms(1) by (simp_all add: cut_at_def)
  have "d \<noteq> 0" "\<not> cleared (ss ! 0)"
    using assms(1,3) tree_ok_pos [OF assms(2)] by (auto simp: cut_at_def attached_def)
  moreover have i: "i < length ss" "0 \<in> set (chain ts i)"
    using assms(3) l by (auto simp: attached_def below_def)
  ultimately show "attached ss i" "d \<notin> set (chain ss i)"
    using cut_chain [OF assms(1) i(1)]
    by (auto simp: attached_def below_def chain_zero split: if_splits)
qed

lemma cut_sums:
  assumes cut: "cut_at d ss ts" and ok: "tree_ok ss" and sums: "sums_ok ss cnt wt"
    and cnt: "\<And>i. attached ts i \<Longrightarrow> cnt' i = (if i \<in> set (chain ss d) then cnt i - cnt d else cnt i)"
    and wt: "\<And>j. j < length ss \<Longrightarrow> d \<notin> set (chain ss j) \<Longrightarrow> wt' j = wt j"
  shows "sums_ok ts cnt' wt'"
  unfolding sums_ok_def
proof (intro allI impI)
  fix i assume i: "attached ts i"
  note a = cut_attached [OF cut ok i]
  have b: "below ts i = below ss i - below ss d" by (rule cut_below [OF cut a(2)])
  have "(\<Sum>j \<in> below ts i. wt' j) = (\<Sum>j \<in> below ss i - below ss d. wt j)"
    unfolding b by (rule sum.cong) (auto simp: below_def wt)
  also have "\<dots> = cnt' i"
  proof (cases "i \<in> set (chain ss d)")
    case True
    have d: "d < length ss" using cut by (simp add: cut_at_def)
    have "0 \<in> set (chain ss i)" using a(1) by (simp add: attached_def below_def)
    then have "0 \<in> set (chain ss d)" using True by (rule chain_trans)
    with a(1) d have "attached ss d" by (simp add: attached_def below_def)
    moreover have "below ss d \<subseteq> below ss i" using True by (auto simp: below_def intro: chain_trans)
    ultimately show ?thesis
      using True cnt [OF i] sums_okD [OF sums] a(1) by (simp add: sum_diff)
  next
    case False
    have "below ss i \<inter> below ss d = {}"
      using False a(2) chain_linear by (auto simp: below_def)
    then have "below ss i - below ss d = below ss i" by blast
    with False cnt [OF i] sums_okD [OF sums a(1)] show ?thesis by simp
  qed
  finally show "cnt' i = (\<Sum>j \<in> below ts i. wt' j)" by simp
qed

section \<open>The invariant\<close>

definition live_entries :: "'a option list \<Rightarrow> nat" where
  "live_entries xs = length (filter (\<lambda>x. x \<noteq> None) xs)"

definition heard :: "('m, 'v, 'f) rootscope \<Rightarrow> string \<Rightarrow> nat \<Rightarrow> int" where
  "heard s name j = (case map_of (listeners (scopes s ! j)) name of
     None \<Rightarrow> 0 | Some a \<Rightarrow> int (live_entries (larrays s ! a)))"

definition watched :: "('m, 'v, 'f) rootscope \<Rightarrow> nat \<Rightarrow> int" where
  "watched s j = int (length (watchers (scopes s ! j)))"

text \<open>A count as a number, a missing one 0; in the tree no count is NaN or 0.\<close>

definition count_of :: "string \<Rightarrow> scope \<Rightarrow> int" where
  "count_of name c = (case map_of (listenerCount c) name of Some (Some k) \<Rightarrow> k | _ \<Rightarrow> 0)"

definition counts_clean :: "scope \<Rightarrow> bool" where
  "counts_clean c \<longleftrightarrow> (\<forall>name k. map_of (listenerCount c) name = Some k \<longrightarrow> k \<noteq> None \<and> k \<noteq> Some 0)"

definition watches_ok :: "('m, 'v, 'f) rootscope \<Rightarrow> bool" where
  "watches_ok s \<longleftrightarrow> (\<forall>i < length (scopes s). distinct (watchers (scopes s ! i)) \<and>
      (\<forall>w \<in> set (watchers (scopes s ! i)). w < length (watches s)) \<and>
      (\<forall>j < length (scopes s). i \<noteq> j \<longrightarrow> set (watchers (scopes s ! i)) \<inter> set (watchers (scopes s ! j)) = {}))"

definition arrays_ok :: "('m, 'v, 'f) rootscope \<Rightarrow> bool" where
  "arrays_ok s \<longleftrightarrow> (\<forall>i < length (scopes s). distinct (akeys (listenerCount (scopes s ! i))) \<and>
      (\<forall>name a. map_of (listeners (scopes s ! i)) name = Some a \<longrightarrow> a < length (larrays s) \<and>
        (\<forall>j < length (scopes s). \<forall>other. map_of (listeners (scopes s ! j)) other = Some a \<longrightarrow> j = i \<and> other = name)))"

definition counts_ok :: "('m, 'v, 'f) rootscope \<Rightarrow> bool" where
  "counts_ok s \<longleftrightarrow> (\<forall>i. attached (scopes s) i \<longrightarrow> counts_clean (scopes s ! i)) \<and>
     sums_ok (scopes s) (\<lambda>i. watchersCount (scopes s ! i)) (watched s) \<and>
     (\<forall>name. sums_ok (scopes s) (\<lambda>i. count_of name (scopes s ! i)) (heard s name))"

definition scope_inv :: "('m, 'v, 'f) rootscope \<Rightarrow> bool" where
  "scope_inv s \<longleftrightarrow> tree_ok (scopes s) \<and> links_ok (scopes s) \<and> watches_ok s \<and> arrays_ok s \<and> counts_ok s"

lemma scope_invI:
  "\<lbrakk>tree_ok (scopes s); links_ok (scopes s); watches_ok s; arrays_ok s; counts_ok s\<rbrakk> \<Longrightarrow> scope_inv s"
  by (simp add: scope_inv_def)

lemma scope_invD:
  assumes "scope_inv s"
  shows "tree_ok (scopes s)" "links_ok (scopes s)" "watches_ok s" "arrays_ok s" "counts_ok s"
  using assms by (simp_all add: scope_inv_def)

text \<open>The parts of a state the invariant is about.\<close>

lemma scope_inv_frame:
  assumes "scopes t = scopes s" "length (watches t) = length (watches s)" "larrays t = larrays s"
  shows "scope_inv t = scope_inv s"
proof -
  have "watched t = watched s" "heard t = heard s"
    by (auto simp: watched_def heard_def fun_eq_iff assms split: option.split)
  then show ?thesis
    by (simp add: scope_inv_def watches_ok_def arrays_ok_def counts_ok_def assms)
qed

lemma scope_inv_root_only: "scope_inv (root_only m)"
proof (rule scope_invI)
  have one: "chain [new_scope] 0 = [0]" by (simp add: chain_zero)
  then have b: "below [new_scope] 0 = {0}" by (auto simp: below_def)
  have a: "attached [new_scope] i \<longleftrightarrow> i = 0" for i
    unfolding attached_def b by (auto simp: new_scope_def)
  show "tree_ok (scopes (root_only m))" "links_ok (scopes (root_only m))"
    "watches_ok (root_only m)" "arrays_ok (root_only m)"
    by (simp_all add: root_only_def tree_ok_def links_ok_def next_ok_def prev_ok_def ends_ok_def kids_ok_def
        watches_ok_def arrays_ok_def new_scope_def akeys_def)
  show "counts_ok (root_only m)"
    by (simp add: counts_ok_def sums_ok_def a b root_only_def watched_def heard_def count_of_def
        counts_clean_def) (simp add: new_scope_def)
qed

section \<open>Updates along a chain\<close>

lemma update_scope_scopes: "scopes (update_scope i f s) = (scopes s)[i := f (scopes s ! i)]"
  by (simp add: update_scope_def)

lemma update_scope_frame [simp]:
  "watches (update_scope i f s) = watches s" "larrays (update_scope i f s) = larrays s"
  "model (update_scope i f s) = model s" "events (update_scope i f s) = events s"
  "length (scopes (update_scope i f s)) = length (scopes s)" "trace (update_scope i f s) = trace s"
  by (simp_all add: update_scope_def)

lemma update_opt_frame [simp]:
  "watches (update_opt i f s) = watches s" "larrays (update_opt i f s) = larrays s"
  "model (update_opt i f s) = model s" "events (update_opt i f s) = events s"
  "length (scopes (update_opt i f s)) = length (scopes s)" "trace (update_opt i f s) = trace s"
  by (cases i; simp add: update_opt_def)+

lemma fold_update_frame [simp]:
  "watches (fold (\<lambda>j. update_scope j f) is s) = watches s" "larrays (fold (\<lambda>j. update_scope j f) is s) = larrays s"
  "length (scopes (fold (\<lambda>j. update_scope j f) is s)) = length (scopes s)"
  "events (fold (\<lambda>j. update_scope j f) is s) = events s"
  by (induction "is" arbitrary: s) simp_all

lemma fold_update_nth:
  "distinct is \<Longrightarrow> k < length (scopes s) \<Longrightarrow>
    scopes (fold (\<lambda>j. update_scope j f) is s) ! k = (if k \<in> set is then f (scopes s ! k) else scopes s ! k)"
  by (induction "is" arbitrary: s) (auto simp: update_scope_scopes nth_update)

lemma fold_update_shape:
  assumes "\<And>c. shape (f c) = shape c"
  shows "same_shape (scopes s) (scopes (fold (\<lambda>j. update_scope j f) (chain ss i) s))"
  using assms by (simp add: same_shape_def fold_update_nth)

lemma same_shape_refl [simp]: "same_shape ss ss"
  by (simp add: same_shape_def)

lemma same_shape_trans: "same_shape ss ts \<Longrightarrow> same_shape ts us \<Longrightarrow> same_shape ss us"
  by (simp add: same_shape_def)

lemma update_scope_shape: "(\<And>c. shape (f c) = shape c) \<Longrightarrow> same_shape (scopes s) (scopes (update_scope i f s))"
  by (simp add: same_shape_def update_scope_scopes nth_update)

text \<open>The shape part of the invariant, for updates that keep it.\<close>

lemma shape_parts:
  assumes "scope_inv s" "same_shape (scopes s) (scopes t)"
  shows "tree_ok (scopes t)" "links_ok (scopes t)"
  using assms same_shape_tree_ok same_shape_links_ok scope_invD by blast+

lemma inc_frame [simp]:
  "watches (incrementWatchersCount i c s) = watches s" "larrays (incrementWatchersCount i c s) = larrays s"
  "length (scopes (incrementWatchersCount i c s)) = length (scopes s)"
  by (simp_all add: incrementWatchersCount_def)

lemma inc_nth:
  "k < length (scopes s) \<Longrightarrow> scopes (incrementWatchersCount i c s) ! k =
    (if k \<in> set (chain (scopes s) i) then (scopes s ! k)\<lparr>watchersCount := watchersCount (scopes s ! k) + c\<rparr>
     else scopes s ! k)"
  by (simp add: incrementWatchersCount_def fold_update_nth)

lemma dec_frame [simp]:
  "watches (decrementListenerCount i c m s) = watches s" "larrays (decrementListenerCount i c m s) = larrays s"
  "length (scopes (decrementListenerCount i c m s)) = length (scopes s)"
  by (simp_all add: decrementListenerCount_def)

lemma dec_nth:
  "k < length (scopes s) \<Longrightarrow> scopes (decrementListenerCount i c m s) ! k =
    (if k \<in> set (chain (scopes s) i) then lower_count m c (scopes s ! k) else scopes s ! k)"
  by (simp add: decrementListenerCount_def fold_update_nth)

text \<open>Raising and lowering a count that is a number.\<close>

lemma count_of_raise: "count_of m (raise_count name c) = count_of m c + (if m = name then 1 else 0)"
  by (auto simp: count_of_def raise_count_def Let_def split: option.splits)

lemma count_of_lower:
  assumes "counts_clean c" "k = 0 \<longrightarrow> count_of name c \<noteq> 0" "count_of name c \<noteq> 0"
  shows "count_of m (lower_count name (Some k) c) = count_of m c - (if m = name then k else 0)"
  using assms
  by (auto simp: count_of_def lower_count_def minus_count_def Let_def counts_clean_def split: option.splits)

lemma counts_clean_raise:
  assumes "counts_clean c" "0 \<le> count_of name c"
  shows "counts_clean (raise_count name c)"
  using assms
  by (auto simp: counts_clean_def count_of_def raise_count_def Let_def split: option.splits)

lemma counts_clean_lower:
  assumes "counts_clean c" "count_of name c \<noteq> 0"
  shows "counts_clean (lower_count name (Some k) c)"
  using assms
  by (auto simp: counts_clean_def count_of_def lower_count_def minus_count_def Let_def split: option.splits)

lemma count_keys [simp]:
  "distinct (akeys (listenerCount c)) \<Longrightarrow> distinct (akeys (listenerCount (raise_count name c)))"
  "distinct (akeys (listenerCount c)) \<Longrightarrow> distinct (akeys (listenerCount (lower_count name k c)))"
  by (simp_all add: raise_count_def lower_count_def Let_def)

lemma count_fields [simp]:
  "shape (raise_count name c) = shape c" "shape (lower_count name k c) = shape c"
  "watchers (raise_count name c) = watchers c" "watchers (lower_count name k c) = watchers c"
  "watchersCount (raise_count name c) = watchersCount c" "watchersCount (lower_count name k c) = watchersCount c"
  "listeners (raise_count name c) = listeners c" "listeners (lower_count name k c) = listeners c"
  by (simp_all add: raise_count_def lower_count_def Let_def shape_def)

text \<open>Counts of listeners are sums of numbers of listeners, so never negative.\<close>

lemma heard_nonneg: "0 \<le> heard s name j"
  by (simp add: heard_def split: option.split)

lemma counts_okD:
  assumes "counts_ok s" "attached (scopes s) i"
  shows "counts_clean (scopes s ! i)"
    "watchersCount (scopes s ! i) = (\<Sum>j \<in> below (scopes s) i. watched s j)"
    "count_of name (scopes s ! i) = (\<Sum>j \<in> below (scopes s) i. heard s name j)"
  using assms unfolding counts_ok_def sums_ok_def by blast+

lemma count_of_nonneg: "counts_ok s \<Longrightarrow> attached (scopes s) i \<Longrightarrow> 0 \<le> count_of name (scopes s ! i)"
  by (simp add: counts_okD(3) sum_nonneg heard_nonneg)

text \<open>
  Keeping the counts when the shape is kept: it is enough to look at the scopes one by one
  and to account for what was added at scope \<open>i\<close>.
\<close>

lemma counts_ok_update:
  assumes inv: "scope_inv s" and sh: "same_shape (scopes s) (scopes t)" and i: "i < length (scopes s)"
    and clean: "\<And>k. attached (scopes s) k \<Longrightarrow> counts_clean (scopes t ! k)"
    and wc: "\<And>k. attached (scopes s) k \<Longrightarrow> watchersCount (scopes t ! k) =
        watchersCount (scopes s ! k) + (if k \<in> set (chain (scopes s) i) then c else 0)"
    and wt: "\<And>j. j < length (scopes s) \<Longrightarrow> watched t j = watched s j + (if j = i then c else 0)"
    and lc: "\<And>k m. attached (scopes s) k \<Longrightarrow> count_of m (scopes t ! k) =
        count_of m (scopes s ! k) + (if k \<in> set (chain (scopes s) i) then d m else 0)"
    and lt: "\<And>j m. j < length (scopes s) \<Longrightarrow> heard t m j = heard s m j + (if j = i then d m else 0)"
  shows "counts_ok t"
proof -
  have pos: "0 < length (scopes s)" using scope_invD(1) [OF inv] by (rule tree_ok_pos)
  have sums: "sums_ok (scopes s) (\<lambda>k. watchersCount (scopes s ! k)) (watched s)"
    "sums_ok (scopes s) (\<lambda>k. count_of m (scopes s ! k)) (heard s m)" for m
    using scope_invD(5) [OF inv] unfolding counts_ok_def by blast+
  have "sums_ok (scopes s) (\<lambda>k. watchersCount (scopes t ! k)) (watched t)"
    by (rule sums_ok_add [OF sums(1) i, where c = c]) (simp_all add: wc wt)
  moreover have "sums_ok (scopes s) (\<lambda>k. count_of m (scopes t ! k)) (heard t m)" for m
    by (rule sums_ok_add [OF sums(2) [of m] i, where c = "d m"]) (simp_all add: lc lt)
  ultimately show ?thesis
    by (simp add: counts_ok_def same_shape_sums [OF sh pos] same_shape_attached [OF sh pos] clean)
qed

section \<open>Watching keeps the invariant\<close>

lemma watch_inv:
  assumes inv: "scope_inv s" and i: "i < length (scopes s)"
  shows "scope_inv (snd (s_watch i get listener eq s))"
proof (cases "is_disabled s i")
  case True
  with inv show ?thesis by (simp add: s_watch_def)
next
  case False
  let ?w = "length (watches s)"
  let ?s1 = "s\<lparr>watches := watches s @ [\<lparr>w_fn = listener, w_last = None, w_get = get, w_eq = eq\<rparr>], lastDirtyWatch := None\<rparr>"
  let ?s2 = "update_scope i (\<lambda>c. c\<lparr>watchers := ?w # watchers c\<rparr>) ?s1"
  let ?t = "incrementWatchersCount i 1 ?s2"
  have t: "snd (s_watch i get listener eq s) = ?t" using False by (simp add: s_watch_def Let_def)
  have sh2: "same_shape (scopes s) (scopes ?s2)"
    using update_scope_shape [of "\<lambda>c. c\<lparr>watchers := ?w # watchers c\<rparr>" ?s1 i] by (simp add: shape_def)
  have ch: "chain (scopes ?s2) i = chain (scopes s) i" by (rule same_shape_chain [OF sh2 i])
  have nth: "scopes ?t ! k = (scopes s ! k)\<lparr>watchers := (if k = i then ?w # watchers (scopes s ! k) else watchers (scopes s ! k)),
      watchersCount := watchersCount (scopes s ! k) + (if k \<in> set (chain (scopes s) i) then 1 else 0)\<rparr>"
    if "k < length (scopes s)" for k
    using that i ch by (auto simp: inc_nth update_scope_scopes nth_update)
  have sh: "same_shape (scopes s) (scopes ?t)" by (simp add: same_shape_def nth shape_def)
  show ?thesis
    unfolding t
  proof (rule scope_invI)
    show "tree_ok (scopes ?t)" "links_ok (scopes ?t)" using shape_parts [OF inv sh] by simp_all
    show "watches_ok ?t"
      using scope_invD(3) [OF inv] by (fastforce simp: watches_ok_def nth)
    show "arrays_ok ?t"
      using scope_invD(4) [OF inv] by (simp add: arrays_ok_def nth)
    show "counts_ok ?t"
      by (rule counts_ok_update [OF inv sh i, where c = 1 and d = "\<lambda>m. 0"])
        (auto simp: nth attached_less watched_def heard_def count_of_def counts_clean_def
          counts_okD(1) [OF scope_invD(5) [OF inv], unfolded counts_clean_def] cong: option.case_cong)
  qed
qed

lemma unwatch_inv:
  assumes inv: "scope_inv s" and i: "i < length (scopes s)"
  shows "scope_inv (s_unwatch i w s)"
proof (cases "w \<in> set (watchers (scopes s ! i))")
  case False
  then have "s_unwatch i w s = s\<lparr>lastDirtyWatch := None\<rparr>" by (simp add: s_unwatch_def)
  with inv show ?thesis by (simp add: scope_inv_frame [of "s\<lparr>lastDirtyWatch := None\<rparr>" s])
next
  case True
  let ?s2 = "update_scope i (\<lambda>c. c\<lparr>watchers := remove1 w (watchers c)\<rparr>) s"
  let ?t = "incrementWatchersCount i (-1) ?s2"
  have sh2: "same_shape (scopes s) (scopes ?s2)"
    by (rule update_scope_shape) (simp add: shape_def)
  have ch: "chain (scopes ?s2) i = chain (scopes s) i" by (rule same_shape_chain [OF sh2 i])
  have nth: "scopes ?t ! k = (scopes s ! k)\<lparr>watchers := (if k = i then remove1 w (watchers (scopes s ! k)) else watchers (scopes s ! k)),
      watchersCount := watchersCount (scopes s ! k) + (if k \<in> set (chain (scopes s) i) then -1 else 0)\<rparr>"
    if "k < length (scopes s)" for k
    using that i ch by (auto simp: inc_nth update_scope_scopes nth_update)
  have sh: "same_shape (scopes s) (scopes ?t)" by (simp add: same_shape_def nth shape_def)
  have "scope_inv ?t"
  proof (rule scope_invI)
    show "tree_ok (scopes ?t)" "links_ok (scopes ?t)" using shape_parts [OF inv sh] by simp_all
    have "set (remove1 w xs) \<subseteq> set xs" for xs by (rule set_remove1_subset)
    with scope_invD(3) [OF inv] show "watches_ok ?t"
      unfolding watches_ok_def by (simp add: nth) blast
    show "arrays_ok ?t"
      using scope_invD(4) [OF inv] by (simp add: arrays_ok_def nth)
    have "Suc (length (remove1 w (watchers (scopes s ! i)))) = length (watchers (scopes s ! i))"
      using True length_pos_if_in_set [OF True] by (simp add: length_remove1)
    then show "counts_ok ?t"
      by (intro counts_ok_update [OF inv sh i, where c = "-1" and d = "\<lambda>m. 0"])
        (auto simp: nth attached_less watched_def heard_def count_of_def counts_clean_def
          counts_okD(1) [OF scope_invD(5) [OF inv], unfolded counts_clean_def] cong: option.case_cong)
  qed
  moreover have "s_unwatch i w s = ?t\<lparr>lastDirtyWatch := None\<rparr>" using True by (simp add: s_unwatch_def)
  ultimately show ?thesis by (simp add: scope_inv_frame [of "?t\<lparr>lastDirtyWatch := None\<rparr>" ?t])
qed

section \<open>Listening keeps the invariant\<close>

lemma arrays_okD:
  assumes "arrays_ok s" "i < length (scopes s)"
  shows "distinct (akeys (listenerCount (scopes s ! i)))"
    "map_of (listeners (scopes s ! i)) name = Some a \<Longrightarrow> a < length (larrays s)"
    "map_of (listeners (scopes s ! i)) name = Some a \<Longrightarrow> j < length (scopes s) \<Longrightarrow>
      map_of (listeners (scopes s ! j)) other = Some a \<Longrightarrow> j = i \<and> other = name"
  using assms unfolding arrays_ok_def by blast+

lemma live_entries_simps [simp]:
  "live_entries [] = 0" "live_entries (x # xs) = (if x = None then 0 else 1) + live_entries xs"
  "live_entries (xs @ ys) = live_entries xs + live_entries ys"
  by (simp_all add: live_entries_def)

lemma live_entries_clear: "Some f \<in> set xs \<Longrightarrow> live_entries (clear_first f xs) + 1 = live_entries xs"
  by (induction xs) auto

lemma heard_array:
  assumes "arrays_ok s" "i < length (scopes s)" "map_of (listeners (scopes s ! i)) name = Some a" "j < length (scopes s)"
    and "larrays t = (larrays s)[a := xs]" "\<And>k. k < length (scopes s) \<Longrightarrow> listeners (scopes t ! k) = listeners (scopes s ! k)"
  shows "heard t m j = (if j = i \<and> m = name then int (live_entries xs) else heard s m j)"
proof (cases "map_of (listeners (scopes s ! j)) m")
  case None
  with assms(3,4,6) show ?thesis by (auto simp: heard_def)
next
  case (Some b)
  have a: "a < length (larrays s)" by (rule arrays_okD(2) [OF assms(1-3)])
  show ?thesis
  proof (cases "b = a")
    case True
    with Some arrays_okD(3) [OF assms(1-4), of m] have "j = i \<and> m = name" by simp
    with a assms(3,4,5,6) show ?thesis by (simp add: heard_def)
  next
    case False
    with Some assms(3) have "\<not> (j = i \<and> m = name)" by auto
    with Some False assms(4,5,6) show ?thesis by (auto simp: heard_def)
  qed
qed

lemma count_listeners [simp]:
  "counts_clean (c\<lparr>listeners := l\<rparr>) = counts_clean c" "count_of m (c\<lparr>listeners := l\<rparr>) = count_of m c"
  by (simp_all add: counts_clean_def count_of_def)

text \<open>A new, empty array for a name.\<close>

definition with_array :: "nat \<Rightarrow> string \<Rightarrow> ('m, 'v, 'f) rootscope \<Rightarrow> ('m, 'v, 'f) rootscope" where
  "with_array i name s =
    (update_scope i (\<lambda>c. c\<lparr>listeners := aput name (length (larrays s)) (listeners c)\<rparr>) s)\<lparr>larrays := larrays s @ [[]]\<rparr>"

lemma with_array_nth: "k < length (scopes s) \<Longrightarrow> scopes (with_array i name s) ! k =
   (if k = i then (scopes s ! k)\<lparr>listeners := aput name (length (larrays s)) (listeners (scopes s ! k))\<rparr> else scopes s ! k)"
  by (simp add: with_array_def update_scope_scopes nth_update)

lemma with_array_frame [simp]:
  "larrays (with_array i name s) = larrays s @ [[]]" "watches (with_array i name s) = watches s"
  "length (scopes (with_array i name s)) = length (scopes s)"
  by (simp_all add: with_array_def update_scope_def)

lemma with_array_inv:
  assumes inv: "scope_inv s" and i: "i < length (scopes s)" and none: "map_of (listeners (scopes s ! i)) name = None"
  shows "scope_inv (with_array i name s)"
proof (rule scope_invI)
  let ?t = "with_array i name s"
  have sh: "same_shape (scopes s) (scopes ?t)"
    by (simp add: same_shape_def with_array_nth shape_def)
  then show "tree_ok (scopes ?t)" "links_ok (scopes ?t)" by (rule shape_parts [OF inv])+
  show "watches_ok ?t"
    using scope_invD(3) [OF inv] by (simp add: watches_ok_def with_array_nth)
  note arr = arrays_okD [OF scope_invD(4) [OF inv]]
  have "heard ?t m j = heard s m j" if "j < length (scopes s)" for m j
    using arr(2) [OF that, of m] that none i
    by (auto simp: heard_def with_array_nth nth_append split: option.split)
  then show "counts_ok ?t"
    by (intro counts_ok_update [OF inv sh i, where c = 0 and d = "\<lambda>m. 0"])
      (auto simp: with_array_nth attached_less watched_def counts_okD(1) [OF scope_invD(5) [OF inv]])
  have "a \<noteq> length (larrays s)" if "map_of (listeners (scopes s ! k)) m = Some a" "k < length (scopes s)" for k m a
    using arr(2) [OF that(2,1)] by simp
  then show "arrays_ok ?t"
    using arr unfolding arrays_ok_def
    by (auto simp: with_array_nth split: if_splits intro: less_SucI)
qed

definition with_listener :: "nat \<Rightarrow> string \<Rightarrow> nat \<Rightarrow> 'f fn \<Rightarrow> ('m, 'v, 'f) rootscope \<Rightarrow> ('m, 'v, 'f) rootscope" where
  "with_listener i name a f s = (let s2 = s\<lparr>larrays := (larrays s)[a := larrays s ! a @ [Some f]]\<rparr> in
     fold (\<lambda>j. update_scope j (raise_count name)) (chain (scopes s2) i) s2)"

lemma with_listener_nth: "k < length (scopes s) \<Longrightarrow> scopes (with_listener i name a f s) ! k =
   (if k \<in> set (chain (scopes s) i) then raise_count name (scopes s ! k) else scopes s ! k)"
  by (simp add: with_listener_def Let_def fold_update_nth)

lemma with_listener_frame [simp]:
  "larrays (with_listener i name a f s) = (larrays s)[a := larrays s ! a @ [Some f]]"
  "watches (with_listener i name a f s) = watches s"
  "length (scopes (with_listener i name a f s)) = length (scopes s)"
  by (simp_all add: with_listener_def Let_def)

lemma with_listener_inv:
  assumes inv: "scope_inv s" and i: "i < length (scopes s)" and a: "map_of (listeners (scopes s ! i)) name = Some a"
  shows "scope_inv (with_listener i name a f s)"
proof (rule scope_invI)
  let ?t = "with_listener i name a f s"
  have sh: "same_shape (scopes s) (scopes ?t)"
    by (simp add: same_shape_def with_listener_nth)
  then show "tree_ok (scopes ?t)" "links_ok (scopes ?t)" by (rule shape_parts [OF inv])+
  show "watches_ok ?t"
    using scope_invD(3) [OF inv] by (simp add: watches_ok_def with_listener_nth)
  note arr = arrays_okD [OF scope_invD(4) [OF inv]]
  show "arrays_ok ?t"
    using scope_invD(4) [OF inv] by (simp add: arrays_ok_def with_listener_nth)
  have heard: "heard ?t m j = heard s m j + (if j = i then if m = name then 1 else 0 else 0)" if "j < length (scopes s)" for m j
    using a by (subst heard_array [OF scope_invD(4) [OF inv] i a that, where xs = "larrays s ! a @ [Some f]"])
      (simp_all add: with_listener_nth, simp add: heard_def)
  show "counts_ok ?t"
    by (rule counts_ok_update [OF inv sh i, where c = 0 and d = "\<lambda>m. if m = name then 1 else 0"])
      (simp_all add: heard with_listener_nth attached_less watched_def counts_clean_raise count_of_raise
        counts_okD(1) [OF scope_invD(5) [OF inv]] count_of_nonneg [OF scope_invD(5) [OF inv]])
qed

lemma s_on_enabled:
  assumes "\<not> is_disabled s i" "i < length (scopes s)"
  shows "s_on i name f s = (case map_of (listeners (scopes s ! i)) name of
      Some a \<Rightarrow> (Some a, with_listener i name a f s)
    | None \<Rightarrow> (Some (length (larrays s)), with_listener i name (length (larrays s)) f (with_array i name s)))"
  using assms by (auto simp: s_on_def Let_def with_listener_def with_array_def split: option.split)

lemma on_inv:
  assumes "scope_inv s" "i < length (scopes s)"
  shows "scope_inv (snd (s_on i name f s))"
proof (cases "is_disabled s i")
  case True
  with assms show ?thesis by (simp add: s_on_def)
next
  case False
  then show ?thesis
    using assms by (auto simp: s_on_enabled with_array_nth split: option.split
        intro!: with_listener_inv with_array_inv)
qed

text \<open>
  Deregistering: the array is the one the listener was put in, so either still that of the
  name at the scope, or the scope has been destroyed since and no scope has it.
\<close>

definition array_belongs :: "('m, 'v, 'f) rootscope \<Rightarrow> nat \<Rightarrow> string \<Rightarrow> nat \<Rightarrow> bool" where
  "array_belongs s i name a \<longleftrightarrow> map_of (listeners (scopes s ! i)) name = Some a \<or>
     cleared (scopes s ! i) \<and> (\<forall>j < length (scopes s). \<forall>m. map_of (listeners (scopes s ! j)) m \<noteq> Some a)"

lemma cleared_not_above:
  assumes "scope_inv s" "i < length (scopes s)" "cleared (scopes s ! i)"
  shows "set (chain (scopes s) i) = {i}" "\<not> attached (scopes s) i"
proof -
  have "parent (scopes s ! i) = None" using tree_okD(3) [OF scope_invD(1)] assms by blast
  then show "set (chain (scopes s) i) = {i}" by (simp add: chain_top)
  then show "\<not> attached (scopes s) i" using assms(3) by (auto simp: attached_def below_def)
qed

lemma off_inv:
  assumes inv: "scope_inv s" and i: "i < length (scopes s)" and a: "array_belongs s i name a"
  shows "scope_inv (s_off i name a f s)"
proof (cases "Some f \<in> set (larrays s ! a)")
  case False
  with inv show ?thesis by (simp add: s_off_def)
next
  case f: True
  let ?t = "decrementListenerCount i (Some 1) name (s\<lparr>larrays := (larrays s)[a := clear_first f (larrays s ! a)]\<rparr>)"
  have t: "s_off i name a f s = ?t" using f by (simp add: s_off_def)
  note arr = arrays_okD [OF scope_invD(4) [OF inv]]
  have sh: "same_shape (scopes s) (scopes ?t)" by (simp add: same_shape_def dec_nth)
  show ?thesis
    unfolding t
  proof (rule scope_invI)
    show "tree_ok (scopes ?t)" "links_ok (scopes ?t)" using shape_parts [OF inv sh] by simp_all
    show "watches_ok ?t"
      using scope_invD(3) [OF inv] by (simp add: watches_ok_def dec_nth)
    show "arrays_ok ?t"
      using scope_invD(4) [OF inv] by (simp add: arrays_ok_def dec_nth)
    show "counts_ok ?t"
    proof (cases "map_of (listeners (scopes s ! i)) name = Some a")
      case True
      have heard: "heard ?t m j = heard s m j + (if j = i then if m = name then -1 else 0 else 0)" if "j < length (scopes s)" for m j
        using live_entries_clear [OF f] True
        by (subst heard_array [OF scope_invD(4) [OF inv] i True that, where xs = "clear_first f (larrays s ! a)"])
          (simp_all add: dec_nth, simp add: heard_def)
      have some: "count_of name (scopes s ! k) \<noteq> 0" if k: "attached (scopes s) k" "k \<in> set (chain (scopes s) i)" for k
      proof -
        have "0 < heard s name i" using True live_entries_clear [OF f] by (simp add: heard_def)
        then have "0 < (\<Sum>j \<in> below (scopes s) k. heard s name j)"
          using k(2) i by (intro sum_pos2 [of _ i]) (auto simp: below_def heard_nonneg)
        then show ?thesis using counts_okD(3) [OF scope_invD(5) [OF inv] k(1)] by simp
      qed
      show ?thesis
        by (rule counts_ok_update [OF inv sh i, where c = 0 and d = "\<lambda>m. if m = name then -1 else 0"])
          (simp_all add: heard dec_nth attached_less watched_def counts_clean_lower count_of_lower some
            counts_okD(1) [OF scope_invD(5) [OF inv]])
    next
      case False
      with a have c: "cleared (scopes s ! i)" "\<forall>j < length (scopes s). \<forall>m. map_of (listeners (scopes s ! j)) m \<noteq> Some a"
        by (simp_all add: array_belongs_def)
      have heard: "heard ?t m j = heard s m j" if "j < length (scopes s)" for m j
        using c(2) that by (auto simp: heard_def dec_nth nth_update split: option.split)
      have "k \<notin> set (chain (scopes s) i)" if "attached (scopes s) k" for k
        using cleared_not_above [OF inv i c(1)] that by auto
      then show ?thesis
        by (intro counts_ok_update [OF inv sh i, where c = 0 and d = "\<lambda>m. 0"])
          (simp_all add: heard dec_nth attached_less watched_def counts_okD(1) [OF scope_invD(5) [OF inv]])
    qed
  qed
qed

end
