(* ===== verification/NgWalk.thy ===== *)
theory NgWalk
  imports NgScopeTree
begin

text \<open>
  The walk of \<open>$digest\<close> and \<open>$broadcast\<close> along the pointers visits the tree below its target
  in preorder, each scope once, and what it leaves out has nothing to offer: the counts say
  so. The preorder is the specification the pointer walk refines.
\<close>

section \<open>Children and preorder\<close>

function sibs :: "scope list \<Rightarrow> nat \<Rightarrow> nat list" where
  "sibs ss i = i # (case next_sibling (ss ! i) of None \<Rightarrow> []
     | Some j \<Rightarrow> if i < j \<and> j < length ss then sibs ss j else [])"
  by pat_completeness auto
termination by (relation "measure (\<lambda>(ss, i). length ss - i)") auto

declare sibs.simps [simp del]

definition kids :: "scope list \<Rightarrow> nat \<Rightarrow> nat list" where
  "kids ss p = (case child_head (ss ! p) of None \<Rightarrow> [] | Some h \<Rightarrow> sibs ss h)"

function preorder :: "(nat \<Rightarrow> bool) \<Rightarrow> scope list \<Rightarrow> nat \<Rightarrow> nat list" where
  "preorder into ss i = i # (if into i then
     concat (map (preorder into ss) (filter (\<lambda>k. i < k \<and> k < length ss) (kids ss i))) else [])"
  by pat_completeness auto
termination by (relation "measure (\<lambda>(into, ss, i). length ss - i)") auto

declare preorder.simps [simp del]

lemma sibs_next:
  assumes "links_ok ss" "i < length ss"
  shows "sibs ss i = i # (case next_sibling (ss ! i) of None \<Rightarrow> [] | Some j \<Rightarrow> sibs ss j)"
  using links_next(1,2) [OF assms(1) _ assms(2)] by (subst sibs.simps) (auto split: option.split)

lemma sibs_in:
  "links_ok ss \<Longrightarrow> i < length ss \<Longrightarrow> k \<in> set (sibs ss i) \<Longrightarrow> i \<le> k \<and> k < length ss \<and> parent (ss ! k) = parent (ss ! i)"
proof (induction ss i rule: sibs.induct)
  case (1 ss i)
  show ?case
  proof (cases "next_sibling (ss ! i)")
    case None
    with "1.prems" show ?thesis by (simp add: sibs.simps [of ss i])
  next
    case (Some j)
    note n = links_next [OF "1.prems"(1) Some "1.prems"(2)]
    from "1.IH" [OF Some] n "1.prems" Some show ?thesis
      by (auto simp: sibs.simps [of ss i])
  qed
qed

lemma sibs_distinct: "i < length ss \<Longrightarrow> sorted_wrt (<) (sibs ss i) \<and> (\<forall>k \<in> set (sibs ss i). i \<le> k)"
proof (induction ss i rule: sibs.induct)
  case (1 ss i)
  show ?case
  proof (cases "\<exists>j. next_sibling (ss ! i) = Some j \<and> i < j \<and> j < length ss")
    case True
    then obtain j where j: "next_sibling (ss ! i) = Some j" "i < j" "j < length ss" by blast
    with "1.IH" [OF j(1)] have "sorted_wrt (<) (sibs ss j)" "\<forall>k \<in> set (sibs ss j). j \<le> k" by auto
    with j show ?thesis by (subst sibs.simps, subst sibs.simps) (fastforce)
  next
    case False
    then have "sibs ss i = [i]" by (subst sibs.simps) (auto split: option.split)
    then show ?thesis by simp
  qed
qed

lemma sibs_step:
  assumes ok: "links_ok ss"
  shows "h < length ss \<Longrightarrow> m \<in> set (sibs ss h) \<Longrightarrow> next_sibling (ss ! m) = Some k \<Longrightarrow> k \<in> set (sibs ss h)"
proof (induction "length ss - h" arbitrary: h rule: less_induct)
  case less
  show ?case
  proof (cases "next_sibling (ss ! h)")
    case None
    with less.prems show ?thesis by (simp add: sibs_next [OF ok])
  next
    case (Some j)
    note n = links_next [OF ok Some less.prems(1)]
    show ?thesis
    proof (cases "m = h")
      case True
      with Some less.prems n show ?thesis by (auto simp: sibs_next [OF ok] split: option.split)
    next
      case False
      with less.prems Some have "m \<in> set (sibs ss j)" by (simp add: sibs_next [OF ok])
      with less.hyps [OF _ n(2)] n less.prems Some show ?thesis by (simp add: sibs_next [OF ok less.prems(1)])
    qed
  qed
qed

lemma kids_parent:
  assumes "links_ok ss" "tree_ok ss" "p < length ss" "k \<in> set (kids ss p)"
  shows "parent (ss ! k) = Some p" "p < k" "k < length ss"
proof -
  from assms(4) obtain h where h: "child_head (ss ! p) = Some h" "k \<in> set (sibs ss h)"
    by (cases "child_head (ss ! p)") (auto simp: kids_def)
  note head = links_head [OF assms(1) h(1) assms(3)]
  from sibs_in [OF assms(1) head(1) h(2)] head show "parent (ss ! k) = Some p" "k < length ss" by simp_all
  then show "p < k" using tree_okD(1) [OF assms(2)] by blast
qed

lemma kids_complete:
  assumes ok: "links_ok ss" and alive: "p < length ss" "\<not> cleared (ss ! p)"
  shows "k < length ss \<Longrightarrow> parent (ss ! k) = Some p \<Longrightarrow> k \<in> set (kids ss p)"
proof (induction k rule: less_induct)
  case (less k)
  show ?case
  proof (cases "prev_sibling (ss ! k)")
    case None
    with links_kid(1) [OF ok less.prems(2) alive(2) less.prems(1)] have "child_head (ss ! p) = Some k" by simp
    then show ?thesis by (simp add: kids_def sibs.simps [of ss k])
  next
    case (Some m)
    note v = links_prev [OF ok Some less.prems(1)]
    note n = links_next [OF ok v(2,1)]
    from less.IH [OF n(1) v(1)] n(4) less.prems have "m \<in> set (kids ss p)" by simp
    then obtain h where h: "child_head (ss ! p) = Some h" "m \<in> set (sibs ss h)"
      by (cases "child_head (ss ! p)") (auto simp: kids_def)
    from sibs_step [OF ok links_head(1) [OF ok h(1) alive(1)] h(2) v(2)] h(1) show ?thesis by (simp add: kids_def)
  qed
qed

lemma preorder_unfold:
  assumes "links_ok ss" "tree_ok ss" "i < length ss"
  shows "preorder into ss i = i # (if into i then concat (map (preorder into ss) (kids ss i)) else [])"
proof -
  have "filter (\<lambda>k. i < k \<and> k < length ss) (kids ss i) = kids ss i"
    using kids_parent [OF assms] by (auto intro: filter_True)
  then show ?thesis by (simp add: preorder.simps [of into ss i])
qed

section \<open>The pointer walk is the preorder\<close>

text \<open>\<open>xs\<close> are the scopes visited one after the other, \<open>r\<close> is where the walk goes next.\<close>

fun walks_to :: "(nat \<Rightarrow> js_error + nat option) \<Rightarrow> nat list \<Rightarrow> js_error + nat option \<Rightarrow> bool" where
  "walks_to nx [] r = False"
| "walks_to nx [x] r = (nx x = r)"
| "walks_to nx (x # y # ys) r = (nx x = Inr (Some y) \<and> walks_to nx (y # ys) r)"

lemma walks_to_append:
  "walks_to nx xs (Inr (Some (hd ys))) \<Longrightarrow> walks_to nx ys r \<Longrightarrow> walks_to nx (xs @ ys) r"
proof (induction nx xs "Inr (Some (hd ys)) :: js_error + nat option" rule: walks_to.induct)
  case (2 nx x)
  then show ?case by (cases ys) simp_all
qed simp_all

lemma walks_to_Cons: "nx x = Inr (Some (hd ys)) \<Longrightarrow> walks_to nx ys r \<Longrightarrow> walks_to nx (x # ys) r"
  by (cases ys) simp_all

lemma hd_preorder [simp]: "hd (preorder into ss i) = i" "preorder into ss i \<noteq> []"
  by (subst preorder.simps, simp)+

lemma climb_sibling:
  assumes "links_ok ss" "tree_ok ss" "k \<noteq> t" "k < length ss" "parent (ss ! k) = Some i"
  shows "climb ss t k = (case next_sibling (ss ! k) of Some j \<Rightarrow> Inr (Some j) | None \<Rightarrow> climb ss t i)"
  using assms tree_okD(1) [OF assms(2,4,5)] by (subst climb.simps) (auto split: option.split)

lemma preorder_walk:
  assumes ok: "links_ok ss" "tree_ok ss"
  shows "i < length ss \<Longrightarrow> t \<le> i \<Longrightarrow>
    walks_to (\<lambda>c. next_scope ss (into c) t c) (preorder into ss i) (climb ss t i)"
proof (induction "length ss - i" arbitrary: i rule: less_induct)
  case less
  let ?w = "walks_to (\<lambda>c. next_scope ss (into c) t c)"
  have list: "?w (concat (map (preorder into ss) (sibs ss h))) (climb ss t i)"
    if "h < length ss" "parent (ss ! h) = Some i" for h
    using that
  proof (induction "length ss - h" arbitrary: h rule: less_induct)
    case (less h)
    have ih: "i < h" using tree_okD(1) [OF ok(2) less.prems] .
    have w: "?w (preorder into ss h) (climb ss t h)"
      using \<open>\<And>j. \<lbrakk>length ss - j < length ss - i; j < length ss; t \<le> j\<rbrakk> \<Longrightarrow> ?w (preorder into ss j) (climb ss t j)\<close>
        less.prems(1) ih \<open>t \<le> i\<close> \<open>i < length ss\<close> by simp
    note c = climb_sibling [OF ok _ less.prems, of t]
    show ?case
    proof (cases "next_sibling (ss ! h)")
      case None
      with w c ih \<open>t \<le> i\<close> show ?thesis by (simp add: sibs_next [OF ok(1) less.prems(1)])
    next
      case (Some j)
      note n = links_next [OF ok(1) Some less.prems(1)]
      let ?rest = "concat (map (preorder into ss) (sibs ss j))"
      have "hd ?rest = j" by (subst sibs.simps) (simp add: hd_append)
      moreover have "?w ?rest (climb ss t i)" using n less.prems less.hyps [of j] by simp
      ultimately have "?w (preorder into ss h @ ?rest) (climb ss t i)"
        using w c Some ih \<open>t \<le> i\<close> by (intro walks_to_append) simp_all
      then show ?thesis by (simp add: sibs_next [OF ok(1) less.prems(1)] Some)
    qed
  qed
  show ?case
  proof (cases "into i \<and> child_head (ss ! i) \<noteq> None")
    case True
    then obtain h where h: "child_head (ss ! i) = Some h" by blast
    note head = links_head [OF ok(1) h less.prems(1)]
    let ?rest = "concat (map (preorder into ss) (sibs ss h))"
    have "hd ?rest = h" by (subst sibs.simps) (simp add: hd_append)
    with list [OF head(1,2)] True h have "?w (i # ?rest) (climb ss t i)"
      by (intro walks_to_Cons) (simp_all add: next_scope_def)
    with True h show ?thesis by (simp add: preorder_unfold [OF ok less.prems(1)] kids_def)
  next
    case False
    then show ?thesis
      by (auto simp: preorder_unfold [OF ok less.prems(1)] kids_def next_scope_def)
  qed
qed

lemma walk_from_target:
  assumes "links_ok ss" "tree_ok ss" "t < length ss"
  shows "walks_to (\<lambda>c. next_scope ss (into c) t c) (preorder into ss t) (Inr None)"
  using preorder_walk [OF assms(1,2,3) order_refl] by (simp add: climb.simps [of ss t t])

section \<open>What the walk reaches\<close>

lemma kids_sorted:
  assumes "links_ok ss" "p < length ss"
  shows "sorted_wrt (<) (kids ss p)"
proof (cases "child_head (ss ! p)")
  case None
  then show ?thesis by (simp add: kids_def)
next
  case (Some h)
  with sibs_distinct [of h ss] links_head(1) [OF assms(1) Some assms(2)] show ?thesis by (simp add: kids_def)
qed

lemma kid_below:
  assumes "links_ok ss" "tree_ok ss" "p < length ss" "k \<in> set (kids ss p)"
  shows "below ss k \<subseteq> below ss p" "p \<notin> below ss k"
proof -
  note k = kids_parent [OF assms]
  have "chain ss k = k # chain ss p" by (rule chain_parent [OF k(1,2)])
  then have "p \<in> set (chain ss k)" by simp
  then show "below ss k \<subseteq> below ss p" by (auto simp: below_def dest: chain_trans)
  show "p \<notin> below ss k" using chain_le [of k ss p] k(2) by (auto simp: below_def)
qed

lemma kids_disjoint:
  assumes "links_ok ss" "tree_ok ss" "p < length ss" "k \<in> set (kids ss p)" "l \<in> set (kids ss p)" "k \<noteq> l"
  shows "below ss k \<inter> below ss l = {}"
proof -
  note k = kids_parent [OF assms(1-4)] and l = kids_parent [OF assms(1-3,5)]
  have "k \<notin> set (chain ss l)" "l \<notin> set (chain ss k)"
    using chain_le [of k ss p] chain_le [of l ss p] k l assms(6) by (auto simp: chain_parent)
  then show ?thesis using chain_linear by (fastforce simp: below_def)
qed

lemma preorder_below:
  assumes ok: "links_ok ss" "tree_ok ss"
  shows "i < length ss \<Longrightarrow> set (preorder into ss i) \<subseteq> below ss i \<and> distinct (preorder into ss i)"
proof (induction "length ss - i" arbitrary: i rule: less_induct)
  case less
  note unf = preorder_unfold [OF ok less.prems]
  have IH: "set (preorder into ss k) \<subseteq> below ss k \<and> distinct (preorder into ss k)" if "k \<in> set (kids ss i)" for k
    using kids_parent [OF ok less.prems that] less.hyps [of k] by simp
  have "distinct (concat (map (preorder into ss) ks))" if "set ks \<subseteq> set (kids ss i)" "distinct ks" for ks
    using that
  proof (induction ks)
    case (Cons k ks)
    have "set (preorder into ss k) \<inter> set (preorder into ss l) = {}" if "l \<in> set ks" for l
    proof -
      have "l \<in> set (kids ss i)" "k \<noteq> l" "k \<in> set (kids ss i)" using Cons.prems that by auto
      with kids_disjoint [OF ok less.prems, of k l] IH show ?thesis by blast
    qed
    with Cons IH show ?case by auto
  qed simp
  moreover have "distinct (kids ss i)"
    using kids_sorted [OF ok(1) less.prems] by (simp add: strict_sorted_iff)
  moreover have "i \<notin> set (preorder into ss k)" "set (preorder into ss k) \<subseteq> below ss i" if "k \<in> set (kids ss i)" for k
    using IH [OF that] kid_below [OF ok less.prems that] by blast+
  ultimately show ?case
    using less.prems by (auto simp: unf below_def)
qed

lemma preorder_length:
  assumes "links_ok ss" "tree_ok ss" "i < length ss"
  shows "length (preorder into ss i) \<le> length ss"
proof -
  have "set (preorder into ss i) \<subseteq> {..<length ss}" "distinct (preorder into ss i)"
    using preorder_below [OF assms] by (auto simp: below_def)
  then show ?thesis using card_mono [of "{..<length ss}" "set (preorder into ss i)"] by (simp add: distinct_card)
qed

lemma below_alive:
  assumes "tree_ok ss" "attached ss i" "j \<in> below ss i"
  shows "attached ss j" "\<not> cleared (ss ! j)"
proof -
  have "0 \<in> set (chain ss i)" "i \<in> set (chain ss j)" "j < length ss"
    using assms(2,3) by (simp_all add: attached_def below_def)
  then have 0: "0 \<in> set (chain ss j)" by (blast intro: chain_trans)
  with assms(2) \<open>j < length ss\<close> show "attached ss j" by (simp add: attached_def below_def)
  show "\<not> cleared (ss ! j)"
  proof
    assume c: "cleared (ss ! j)"
    then have "chain ss j = [j]" using tree_okD(3) [OF assms(1) \<open>j < length ss\<close>] by (simp add: chain_top)
    with 0 have "j = 0" by simp
    with c assms(2) show False by (simp add: attached_def)
  qed
qed

lemma child_towards:
  assumes "tree_ok ss" "j \<in> below ss i" "j \<noteq> i"
  shows "\<exists>k. parent (ss ! k) = Some i \<and> k < length ss \<and> j \<in> below ss k"
  using assms(2,3)
proof (induction j rule: less_induct)
  case (less j)
  from below_chain [OF less.prems(1)] show ?case
  proof (cases rule: chain_cases)
    case 1
    with less.prems(2) show ?thesis by simp
  next
    case (2 p)
    have j: "j < length ss" using less.prems(1) by (simp add: below_def)
    show ?thesis
    proof (cases "p = i")
      case True
      with 2 j show ?thesis by (auto simp: below_def)
    next
      case False
      have "p \<in> below ss i" using 2 j by (simp add: below_def)
      from less.IH [OF 2(2) this False] obtain k where k: "parent (ss ! k) = Some i" "k < length ss" "p \<in> below ss k" by blast
      have "chain ss j = j # chain ss p" by (rule chain_parent [OF 2(1,2)])
      with k j show ?thesis by (auto simp: below_def)
    qed
  qed
qed

text \<open>
  A pruned walk visits every scope with a positive weight, if a scope is only skipped when
  the weights below it sum up to 0.
\<close>

lemma preorder_covers:
  assumes ok: "links_ok ss" "tree_ok ss" and weights: "\<And>j. 0 \<le> wt j"
    and prune: "\<And>i. attached ss i \<Longrightarrow> \<not> into i \<Longrightarrow> (\<Sum>j \<in> below ss i. wt j) = (0 :: int)"
  shows "attached ss i \<Longrightarrow> j \<in> below ss i \<Longrightarrow> wt j \<noteq> 0 \<Longrightarrow> j \<in> set (preorder into ss i)"
proof (induction "length ss - i" arbitrary: i rule: less_induct)
  case less
  note i = attached_less [OF less.prems(1)]
  note unf = preorder_unfold [OF ok i]
  show ?case
  proof (cases "j = i")
    case True
    then show ?thesis by (simp add: unf)
  next
    case False
    have "into i"
    proof (rule ccontr)
      assume "\<not> into i"
      then have "(\<Sum>j \<in> below ss i. wt j) = 0" by (rule prune [OF less.prems(1)])
      then have "wt j = 0" using less.prems(2) weights by (simp add: sum_nonneg_eq_0_iff)
      with less.prems(3) show False by simp
    qed
    from child_towards [OF ok(2) less.prems(2) False] obtain k
      where k: "parent (ss ! k) = Some i" "k < length ss" "j \<in> below ss k" by blast
    have alive: "\<not> cleared (ss ! i)"
      using below_alive(2) [OF ok(2) less.prems(1), of i] i by (simp add: below_def)
    have kid: "k \<in> set (kids ss i)" by (rule kids_complete [OF ok(1) i alive k(2,1)])
    have "k \<in> below ss i" using k tree_okD(1) [OF ok(2) k(2,1)] by (simp add: below_def chain_parent)
    then have "attached ss k" by (rule below_alive(1) [OF ok(2) less.prems(1)])
    with less.hyps [of k] kids_parent [OF ok i kid] k(3) less.prems(3) have "j \<in> set (preorder into ss k)" by simp
    with kid \<open>into i\<close> show ?thesis by (auto simp: unf)
  qed
qed

text \<open>With no pruning at all, the preorder is exactly the tree below.\<close>

lemma preorder_all:
  assumes ok: "links_ok ss" "tree_ok ss" and "attached ss i"
  shows "set (preorder (\<lambda>_. True) ss i) = below ss i"
proof
  show "set (preorder (\<lambda>_. True) ss i) \<subseteq> below ss i"
    using preorder_below [OF ok attached_less [OF assms(3)]] by blast
  show "below ss i \<subseteq> set (preorder (\<lambda>_. True) ss i)"
    using preorder_covers [OF ok, of "\<lambda>_. 1" "\<lambda>_. True" i] assms(3) by auto
qed

text \<open>The pruned walk as a sublist: the scopes that count come in the order of the full one.\<close>

lemma preorder_prune:
  assumes ok: "links_ok ss" "tree_ok ss" and weights: "\<And>j. 0 \<le> wt j"
    and prune: "\<And>i. attached ss i \<Longrightarrow> \<not> into i \<Longrightarrow> (\<Sum>j \<in> below ss i. wt j) = (0 :: int)"
  shows "attached ss i \<Longrightarrow> filter (\<lambda>j. wt j \<noteq> 0) (preorder into ss i) = filter (\<lambda>j. wt j \<noteq> 0) (preorder (\<lambda>_. True) ss i)"
proof (induction "length ss - i" arbitrary: i rule: less_induct)
  case less
  note i = attached_less [OF less.prems]
  note unf = preorder_unfold [OF ok i]
  have kid: "attached ss k" "k < length ss" "i < k" if "k \<in> set (kids ss i)" for k
  proof -
    note k = kids_parent [OF ok i that]
    then have "k \<in> below ss i" by (simp add: below_def chain_parent)
    with below_alive(1) [OF ok(2) less.prems] k show "attached ss k" "k < length ss" "i < k" by blast+
  qed
  show ?case
  proof (cases "into i")
    case True
    have "map (filter (\<lambda>j. wt j \<noteq> 0) \<circ> preorder into ss) (kids ss i) =
        map (filter (\<lambda>j. wt j \<noteq> 0) \<circ> preorder (\<lambda>_. True) ss) (kids ss i)"
      using less.hyps kid i by (intro map_cong) (auto simp: diff_less_mono2 less_trans)
    from arg_cong [OF this, of concat] True show ?thesis by (simp add: unf filter_concat)
  next
    case False
    then have s: "(\<Sum>j \<in> below ss i. wt j) = 0" by (rule prune [OF less.prems])
    have "wt j = 0" if "j \<in> below ss i" for j
      using s that weights by (simp add: sum_nonneg_eq_0_iff)
    moreover have "set (preorder x ss i) \<subseteq> below ss i" for x using preorder_below [OF ok i] by blast
    ultimately have "filter (\<lambda>j. wt j \<noteq> 0) (preorder x ss i) = []" for x
      by (auto simp: filter_empty_conv)
    then show ?thesis by simp
  qed
qed

end
