(* ===== verification/NgScopeLife.thy ===== *)
theory NgScopeLife
  imports NgScopeTree
begin

text \<open>
  Creating and destroying scopes keeps the tree and its counts, and so does every sequence
  of operations on scopes, whatever the application's functions do by means of them.
\<close>

section \<open>Creating a scope\<close>

text \<open>The list of scopes with a new last child \<open>c\<close> of \<open>p\<close>.\<close>

definition grown :: "nat \<Rightarrow> scope list \<Rightarrow> scope list \<Rightarrow> bool" where
  "grown p ss ts \<longleftrightarrow> length ts = Suc (length ss) \<and> p < length ss \<and> \<not> cleared (ss ! p) \<and>
     parent (ts ! length ss) = Some p \<and> prev_sibling (ts ! length ss) = child_tail (ss ! p) \<and>
     next_sibling (ts ! length ss) = None \<and> child_head (ts ! length ss) = None \<and>
     child_tail (ts ! length ss) = None \<and> \<not> cleared (ts ! length ss) \<and>
     (\<forall>q. proto (ts ! length ss) = Some q \<longrightarrow> q < length ss) \<and>
     (\<forall>i < length ss. parent (ts ! i) = parent (ss ! i) \<and> proto (ts ! i) = proto (ss ! i) \<and>
        cleared (ts ! i) = cleared (ss ! i) \<and> disabled (ts ! i) = disabled (ss ! i) \<and>
        prev_sibling (ts ! i) = prev_sibling (ss ! i) \<and>
        next_sibling (ts ! i) = (if child_tail (ss ! p) = Some i then Some (length ss) else next_sibling (ss ! i)) \<and>
        child_head (ts ! i) = (if i = p \<and> child_head (ss ! p) = None then Some (length ss) else child_head (ss ! i)) \<and>
        child_tail (ts ! i) = (if i = p then Some (length ss) else child_tail (ss ! i)))"

lemma grownD:
  assumes "grown p ss ts"
  shows "length ts = Suc (length ss)" "p < length ss" "\<not> cleared (ss ! p)"
    "parent (ts ! length ss) = Some p" "prev_sibling (ts ! length ss) = child_tail (ss ! p)"
    "next_sibling (ts ! length ss) = None" "child_head (ts ! length ss) = None"
    "child_tail (ts ! length ss) = None" "\<not> cleared (ts ! length ss)"
    "proto (ts ! length ss) = Some q \<Longrightarrow> q < length ss"
  using assms unfolding grown_def by blast+

lemma grown_old:
  assumes "grown p ss ts" "i < length ss"
  shows "parent (ts ! i) = parent (ss ! i)" "proto (ts ! i) = proto (ss ! i)"
    "cleared (ts ! i) = cleared (ss ! i)" "disabled (ts ! i) = disabled (ss ! i)"
    "prev_sibling (ts ! i) = prev_sibling (ss ! i)"
    "next_sibling (ts ! i) = (if child_tail (ss ! p) = Some i then Some (length ss) else next_sibling (ss ! i))"
    "child_head (ts ! i) = (if i = p \<and> child_head (ss ! p) = None then Some (length ss) else child_head (ss ! i))"
    "child_tail (ts ! i) = (if i = p then Some (length ss) else child_tail (ss ! i))"
  using assms unfolding grown_def by blast+

lemma grown_tree_ok:
  assumes g: "grown p ss ts" and ok: "tree_ok ss"
  shows "tree_ok ts"
  unfolding tree_ok_def
proof (intro conjI allI impI)
  show "0 < length ts" by (simp add: grownD(1) [OF g])
  fix i assume i: "i < length ts"
  then consider "i = length ss" | "i < length ss" using grownD(1) [OF g] by linarith
  note cases = this
  show "q < i" if "parent (ts ! i) = Some q" for q
    using cases by cases (use that grownD(2,4) [OF g] grown_old(1) [OF g] tree_okD(1) [OF ok] in auto)
  show "q < i" if "proto (ts ! i) = Some q" for q
    using cases by cases (use that grownD(10) [OF g] grown_old(2) [OF g] tree_okD(2) [OF ok] in auto)
  show "parent (ts ! i) = None" "disabled (ts ! i)" if "cleared (ts ! i)"
    using cases by (cases, use that grownD(9) [OF g] grown_old(1,3,4) [OF g] tree_okD(3,4) [OF ok] in auto)+
qed

lemma grown_next_ok:
  assumes g: "grown p ss ts" and ok: "links_ok ss"
  shows "next_ok ts"
  unfolding next_ok_def
proof (intro allI impI)
  fix i j assume i: "i < length ts" and nx: "next_sibling (ts ! i) = Some j"
  let ?c = "length ss"
  have "i < ?c" using i nx grownD(1,6) [OF g] by (cases "i = ?c") auto
  note o = grown_old [OF g this]
  show "i < j \<and> j < length ts \<and> prev_sibling (ts ! j) = Some i \<and> parent (ts ! j) = parent (ts ! i) \<and> parent (ts ! i) \<noteq> None"
  proof (cases "child_tail (ss ! p) = Some i")
    case True
    with nx o links_tail [OF ok True grownD(2) [OF g]] grownD [OF g] show ?thesis by auto
  next
    case False
    with nx o have n: "next_sibling (ss ! i) = Some j" by simp
    note links_next [OF ok n \<open>i < ?c\<close>]
    with o grown_old [OF g this(2)] grownD(1) [OF g] show ?thesis by simp
  qed
qed

lemma grown_links_ok:
  assumes g: "grown p ss ts" and ok: "links_ok ss" and tree: "tree_ok ss"
  shows "links_ok ts"
proof -
  let ?c = "length ss"
  note old = grown_old [OF g] and new = grownD [OF g]
  have old_or_new: "i = ?c \<or> i < ?c" if "i < length ts" for i using that new(1) by auto
  have "prev_ok ts"
    unfolding prev_ok_def
  proof (intro allI impI)
    fix j i assume j: "j < length ts" and pv: "prev_sibling (ts ! j) = Some i"
    from old_or_new [OF j] show "i < length ts \<and> next_sibling (ts ! i) = Some j"
    proof
      assume "j = ?c"
      with pv new have t: "child_tail (ss ! p) = Some i" by simp
      with links_tail(1) [OF ok t new(2)] old(6) [of i] new(1) \<open>j = ?c\<close> show ?thesis by simp
    next
      assume "j < ?c"
      with pv old have p: "prev_sibling (ss ! j) = Some i" by simp
      note q = links_prev [OF ok p \<open>j < ?c\<close>]
      have "child_tail (ss ! p) \<noteq> Some i" using links_tail(3) [OF ok _ new(2), of i] q by auto
      with q old(6) [of i] new(1) show ?thesis by simp
    qed
  qed
  moreover have "ends_ok ts"
    unfolding ends_ok_def
  proof (intro allI impI conjI)
    fix q assume "q < length ts"
    from old_or_new [OF this] have cases: "q = ?c \<or> q < ?c" .
    show "h < length ts" "parent (ts ! h) = Some q" "prev_sibling (ts ! h) = None"
      if h: "child_head (ts ! q) = Some h" for h
    proof (atomize (full), cases "q = p \<and> child_head (ss ! p) = None")
      case True
      with h new(2) old(7) [of p] have "h = ?c" by simp
      with True new links_ends [OF ok new(2,3)] show "h < length ts \<and> parent (ts ! h) = Some q \<and> prev_sibling (ts ! h) = None"
        by simp
    next
      case False
      with h new(7) cases old(7) [of q] have "q < ?c" "child_head (ss ! q) = Some h" by auto
      with links_head [OF ok this(2,1)] old(1,5) [of h] new(1) show "h < length ts \<and> parent (ts ! h) = Some q \<and> prev_sibling (ts ! h) = None"
        by simp
    qed
    show "l < length ts" "parent (ts ! l) = Some q" "next_sibling (ts ! l) = None"
      if l: "child_tail (ts ! q) = Some l" for l
    proof (atomize (full), cases "q = p")
      case True
      with l new old(8) [of p] show "l < length ts \<and> parent (ts ! l) = Some q \<and> next_sibling (ts ! l) = None" by simp
    next
      case False
      with l new(8) cases old(8) [of q] have q: "q < ?c" "child_tail (ss ! q) = Some l" by auto
      note k = links_tail [OF ok q(2,1)]
      have "child_tail (ss ! p) \<noteq> Some l" using links_tail(2) [OF ok _ new(2), of l] k(2) False by auto
      with k old(1,6) [of l] new(1) show "l < length ts \<and> parent (ts ! l) = Some q \<and> next_sibling (ts ! l) = None" by simp
    qed
    show "child_head (ts ! q) = None \<longleftrightarrow> child_tail (ts ! q) = None" if "\<not> cleared (ts ! q)"
      using that cases new(2,7,8) old(3,7,8) [of q] links_ends [OF ok, of q]
      by (cases "q = p"; cases "q = ?c") auto
  qed
  moreover have "kids_ok ts"
    unfolding kids_ok_def
  proof (intro allI impI)
    fix k q assume k: "k < length ts" and par: "parent (ts ! k) = Some q" and alive: "\<not> cleared (ts ! q)"
    from old_or_new [OF k] show "(prev_sibling (ts ! k) = None \<longrightarrow> child_head (ts ! q) = Some k) \<and>
        (next_sibling (ts ! k) = None \<longrightarrow> child_tail (ts ! q) = Some k)"
    proof
      assume "k = ?c"
      with par new have "q = p" by simp
      with \<open>k = ?c\<close> new old(7,8) [of p] links_ends [OF ok new(2,3)] show ?thesis by auto
    next
      assume "k < ?c"
      with par old have par: "parent (ss ! k) = Some q" by simp
      with tree_okD(1) [OF tree \<open>k < ?c\<close>] \<open>k < ?c\<close> have "q < ?c" by fastforce
      with alive old have "\<not> cleared (ss ! q)" by simp
      note kid = links_kid [OF ok par this \<open>k < ?c\<close>]
      show ?thesis
        using kid old(5,6) [OF \<open>k < ?c\<close>] old(7,8) [OF \<open>q < ?c\<close>] by auto
    qed
  qed
  ultimately show ?thesis using grown_next_ok [OF g ok] by (simp add: links_ok_def)
qed

lemma grown_chain:
  assumes "grown p ss ts"
  shows "j < length ss \<Longrightarrow> chain ts j = chain ss j" "chain ts (length ss) = length ss # chain ss p"
proof -
  show old: "chain ts j = chain ss j" if "j < length ss" for j
    by (rule chain_cong) (use that grown_old(1) [OF assms] in simp)
  show "chain ts (length ss) = length ss # chain ss p"
    using old [OF grownD(2) [OF assms]] grownD(2,4) [OF assms] by (simp add: chain_parent)
qed

lemma grown_below:
  assumes "grown p ss ts" "i < length ss"
  shows "below ts i = (if i \<in> set (chain ss p) then insert (length ss) (below ss i) else below ss i)"
  using assms(2) by (auto simp: below_def grownD(1) [OF assms(1)] less_Suc_eq grown_chain [OF assms(1)])

lemma grown_below_new:
  assumes "grown p ss ts"
  shows "below ts (length ss) = {length ss}"
proof -
  have "length ss \<notin> set (chain ss j)" if "j < length ss" for j using chain_le [of "length ss" ss j] that by auto
  then show ?thesis
    by (auto simp: below_def grownD(1) [OF assms] less_Suc_eq grown_chain [OF assms])
qed

lemma grown_attached:
  assumes "grown p ss ts" "i < length ss"
  shows "attached ts i = attached ss i"
proof -
  have "0 < length ss" using grownD(2) [OF assms(1)] by (cases ss) auto
  then show ?thesis
    using assms(2) grown_old(3) [OF assms(1), of 0] by (auto simp: attached_def grown_below [OF assms(1)])
qed

lemma grown_sums:
  assumes g: "grown p ss ts" and sums: "sums_ok ss cnt wt"
    and old: "\<And>i. i < length ss \<Longrightarrow> cnt' i = cnt i \<and> wt' i = wt i" and new: "cnt' (length ss) = 0" "wt' (length ss) = 0"
  shows "sums_ok ts cnt' wt'"
  unfolding sums_ok_def
proof (intro allI impI)
  fix i assume i: "attached ts i"
  then have "i = length ss \<or> i < length ss" using attached_less [OF i] grownD(1) [OF g] by auto
  then show "cnt' i = (\<Sum>j \<in> below ts i. wt' j)"
  proof
    assume "i = length ss"
    with new show ?thesis by (simp add: grown_below_new [OF g])
  next
    assume l: "i < length ss"
    have "length ss \<notin> below ss i" by (simp add: below_def)
    then have "(\<Sum>j \<in> below ts i. wt' j) = (\<Sum>j \<in> below ss i. wt' j)" by (simp add: grown_below [OF g l] new)
    also have "\<dots> = (\<Sum>j \<in> below ss i. wt j)" by (rule sum.cong) (auto simp: below_def old)
    finally show ?thesis using sums i l by (simp add: sums_ok_def grown_attached [OF g l] old)
  qed
qed

text \<open>What \<open>$new\<close> does before it listens, as such a list.\<close>

definition with_child :: "bool \<Rightarrow> nat \<Rightarrow> nat \<Rightarrow> ('m, 'v, 'f) rootscope \<Rightarrow> ('m, 'v, 'f) rootscope" where
  "with_child isolate this p s =
    (let c = length (scopes s);
         child = new_scope\<lparr>proto := (if isolate then None else Some this), parent := Some p,
                           prev_sibling := child_tail (scopes s ! p)\<rparr>;
         s1 = s\<lparr>scopes := scopes s @ [child]\<rparr>
     in if child_head (scopes s ! p) \<noteq> None
        then update_scope p (\<lambda>x. x\<lparr>child_tail := Some c\<rparr>)
               (update_opt (child_tail (scopes s ! p)) (\<lambda>x. x\<lparr>next_sibling := Some c\<rparr>) s1)
        else update_scope p (\<lambda>x. x\<lparr>child_head := Some c, child_tail := Some c\<rparr>) s1)"

lemma s_new_child:
  "s_new isolate this par s =
    (let p = (case par of None \<Rightarrow> this | Some p \<Rightarrow> p); c = length (scopes s); t = with_child isolate this p s
     in (c, if isolate \<or> p \<noteq> this then snd (s_on c ''$destroy'' DestroyChildScope t) else t))"
  by (simp add: s_new_def with_child_def Let_def)

lemma with_child_frame [simp]:
  "watches (with_child isolate this p s) = watches s" "larrays (with_child isolate this p s) = larrays s"
  "length (scopes (with_child isolate this p s)) = Suc (length (scopes s))"
  by (simp_all add: with_child_def Let_def)

lemma with_child_nth:
  assumes "p < length (scopes s)" "i < length (scopes s)"
    and "child_head (scopes s ! p) = None \<longleftrightarrow> child_tail (scopes s ! p) = None"
  shows "scopes (with_child isolate this p s) ! i = (scopes s ! i)\<lparr>
      next_sibling := (if child_tail (scopes s ! p) = Some i then Some (length (scopes s)) else next_sibling (scopes s ! i)),
      child_head := (if i = p \<and> child_head (scopes s ! p) = None then Some (length (scopes s)) else child_head (scopes s ! i)),
      child_tail := (if i = p then Some (length (scopes s)) else child_tail (scopes s ! i))\<rparr>"
  using assms
  by (auto simp: with_child_def Let_def update_scope_def update_opt_def nth_update nth_append split: option.split)

lemma with_child_new:
  assumes "p < length (scopes s)"
    and "\<And>l. child_tail (scopes s ! p) = Some l \<Longrightarrow> l < length (scopes s)"
  shows "scopes (with_child isolate this p s) ! length (scopes s) =
    new_scope\<lparr>proto := (if isolate then None else Some this), parent := Some p,
      prev_sibling := child_tail (scopes s ! p)\<rparr>"
  using assms
  by (auto simp: with_child_def Let_def update_scope_def update_opt_def nth_update nth_append split: option.split)

lemma with_child_grown:
  assumes "scope_inv s" "p < length (scopes s)" "this < length (scopes s)" "\<not> cleared (scopes s ! p)"
  shows "grown p (scopes s) (scopes (with_child isolate this p s))"
proof -
  note links = scope_invD(2) [OF assms(1)]
  note nth = with_child_nth [OF assms(2) _ links_ends [OF links assms(2,4)]]
  note new = with_child_new [OF assms(2) links_tail(1) [OF links _ assms(2)]]
  show ?thesis
    unfolding grown_def using assms(2-4) by (simp add: nth new) (simp add: new_scope_def)
qed

lemma with_child_inv:
  assumes inv: "scope_inv s" and p: "p < length (scopes s)" "this < length (scopes s)" "\<not> cleared (scopes s ! p)"
  shows "scope_inv (with_child isolate this p s)"
proof (rule scope_invI)
  let ?t = "with_child isolate this p s"
  note g = with_child_grown [OF inv p, of isolate]
  note parts = scope_invD [OF inv]
  note nth = with_child_nth [OF p(1) _ links_ends [OF parts(2) p(1,3)]]
  note new = with_child_new [OF p(1) links_tail(1) [OF parts(2) _ p(1)]]
  show "tree_ok (scopes ?t)" by (rule grown_tree_ok [OF g parts(1)])
  show "links_ok (scopes ?t)" by (rule grown_links_ok [OF g parts(2,1)])
  have w: "watchers (scopes ?t ! i) = watchers (scopes s ! i)" "listeners (scopes ?t ! i) = listeners (scopes s ! i)"
    "listenerCount (scopes ?t ! i) = listenerCount (scopes s ! i)" "watchersCount (scopes ?t ! i) = watchersCount (scopes s ! i)"
    if "i < length (scopes s)" for i by (simp_all add: nth that)
  have n: "watchers (scopes ?t ! length (scopes s)) = []" "listeners (scopes ?t ! length (scopes s)) = []"
    "listenerCount (scopes ?t ! length (scopes s)) = []" "watchersCount (scopes ?t ! length (scopes s)) = 0"
    by (simp_all add: new) (simp_all add: new_scope_def)
  show "watches_ok ?t"
    using parts(3) by (simp add: watches_ok_def less_Suc_eq all_conj_distrib w n)
  show "arrays_ok ?t"
    using parts(4) by (auto simp add: arrays_ok_def less_Suc_eq w n)
  have old: "heard ?t m i = heard s m i" "watched ?t i = watched s i" "count_of m (scopes ?t ! i) = count_of m (scopes s ! i)"
    if "i < length (scopes s)" for m i
    by (simp_all add: heard_def watched_def count_of_def w that cong: option.case_cong)
  have none: "heard ?t m (length (scopes s)) = 0" "watched ?t (length (scopes s)) = 0"
    "count_of m (scopes ?t ! length (scopes s)) = 0" for m
    by (simp_all add: heard_def watched_def count_of_def n)
  have clean: "counts_clean (scopes ?t ! i)" if "attached (scopes ?t) i" for i
  proof (cases "i = length (scopes s)")
    case True
    then show ?thesis by (simp add: counts_clean_def n)
  next
    case False
    with attached_less [OF that] have "i < length (scopes s)" by simp
    with that counts_okD(1) [OF parts(5)] show ?thesis by (simp add: grown_attached [OF g] counts_clean_def w)
  qed
  have sums: "sums_ok (scopes s) (\<lambda>k. watchersCount (scopes s ! k)) (watched s)"
    "sums_ok (scopes s) (\<lambda>k. count_of m (scopes s ! k)) (heard s m)" for m
    using parts(5) unfolding counts_ok_def by blast+
  have "sums_ok (scopes ?t) (\<lambda>k. watchersCount (scopes ?t ! k)) (watched ?t)"
    by (rule grown_sums [OF g sums(1)]) (simp_all add: old none w n)
  moreover have "sums_ok (scopes ?t) (\<lambda>k. count_of m (scopes ?t ! k)) (heard ?t m)" for m
    by (rule grown_sums [OF g sums(2) [of m]]) (simp_all add: old none)
  ultimately show "counts_ok ?t" using clean by (simp add: counts_ok_def)
qed

lemma new_inv:
  assumes "scope_inv s" "this < length (scopes s)"
    "(case par of None \<Rightarrow> this | Some p \<Rightarrow> p) < length (scopes s)"
    "\<not> cleared (scopes s ! (case par of None \<Rightarrow> this | Some p \<Rightarrow> p))"
  shows "scope_inv (snd (s_new isolate this par s))"
  using assms by (auto simp: s_new_child Let_def intro!: on_inv with_child_inv split: option.splits)

section \<open>Destroying a scope\<close>

definition unlinked :: "nat \<Rightarrow> scope list \<Rightarrow> scope list \<Rightarrow> bool" where
  "unlinked d ss ts \<longleftrightarrow> cut_at d ss ts \<and> (\<forall>i < length ss.
     proto (ts ! i) = proto (ss ! i) \<and> disabled (ts ! i) = (i = d \<or> disabled (ss ! i)) \<and>
     next_sibling (ts ! i) = (if i = d then None else if next_sibling (ss ! i) = Some d then next_sibling (ss ! d) else next_sibling (ss ! i)) \<and>
     prev_sibling (ts ! i) = (if i = d then None else if prev_sibling (ss ! i) = Some d then prev_sibling (ss ! d) else prev_sibling (ss ! i)) \<and>
     child_head (ts ! i) = (if i = d then None else if child_head (ss ! i) = Some d then next_sibling (ss ! d) else child_head (ss ! i)) \<and>
     child_tail (ts ! i) = (if i = d then None else if child_tail (ss ! i) = Some d then prev_sibling (ss ! d) else child_tail (ss ! i)))"

lemma unlinkedD:
  assumes "unlinked d ss ts"
  shows "cut_at d ss ts" "length ts = length ss" "d < length ss"
  using assms by (simp_all add: unlinked_def cut_at_def)

lemma unlinked_nth:
  assumes "unlinked d ss ts" "i < length ss"
  shows "parent (ts ! i) = (if i = d then None else parent (ss ! i))" "cleared (ts ! i) = (i = d \<or> cleared (ss ! i))"
    "proto (ts ! i) = proto (ss ! i)" "disabled (ts ! i) = (i = d \<or> disabled (ss ! i))"
    "next_sibling (ts ! i) = (if i = d then None else if next_sibling (ss ! i) = Some d then next_sibling (ss ! d) else next_sibling (ss ! i))"
    "prev_sibling (ts ! i) = (if i = d then None else if prev_sibling (ss ! i) = Some d then prev_sibling (ss ! d) else prev_sibling (ss ! i))"
    "child_head (ts ! i) = (if i = d then None else if child_head (ss ! i) = Some d then next_sibling (ss ! d) else child_head (ss ! i))"
    "child_tail (ts ! i) = (if i = d then None else if child_tail (ss ! i) = Some d then prev_sibling (ss ! d) else child_tail (ss ! i))"
  using assms unfolding unlinked_def cut_at_def by blast+

lemma unlinked_tree_ok:
  assumes u: "unlinked d ss ts" and ok: "tree_ok ss"
  shows "tree_ok ts"
  unfolding tree_ok_def unlinkedD(2) [OF u]
  using tree_ok_pos [OF ok] tree_okD [OF ok] unlinked_nth(1-4) [OF u] by auto

lemma unlinked_next_prev:
  assumes u: "unlinked d ss ts" and ok: "links_ok ss"
  shows "next_ok ts" "prev_ok ts"
proof -
  note nth = unlinked_nth [OF u] and d = unlinkedD(3) [OF u]
  show "next_ok ts"
    unfolding next_ok_def unlinkedD(2) [OF u]
  proof (intro allI impI)
    fix i j assume i: "i < length ss" and nx: "next_sibling (ts ! i) = Some j"
    then have "i \<noteq> d" using nth(5) [OF i] by auto
    show "i < j \<and> j < length ss \<and> prev_sibling (ts ! j) = Some i \<and> parent (ts ! j) = parent (ts ! i) \<and> parent (ts ! i) \<noteq> None"
    proof (cases "next_sibling (ss ! i) = Some d")
      case True
      with nx nth(5) [OF i] \<open>i \<noteq> d\<close> have "next_sibling (ss ! d) = Some j" by simp
      note a = links_next [OF ok True i] and b = links_next [OF ok this d]
      with nth(1,6) [OF b(2)] nth(1) [OF i] \<open>i \<noteq> d\<close> show ?thesis by simp
    next
      case False
      with nx nth(5) [OF i] \<open>i \<noteq> d\<close> have n: "next_sibling (ss ! i) = Some j" by simp
      note a = links_next [OF ok n i]
      have "j \<noteq> d" using n False by auto
      with a nth(1,6) [OF a(2)] nth(1) [OF i] \<open>i \<noteq> d\<close> show ?thesis by simp
    qed
  qed
  show "prev_ok ts"
    unfolding prev_ok_def unlinkedD(2) [OF u]
  proof (intro allI impI)
    fix j i assume j: "j < length ss" and pv: "prev_sibling (ts ! j) = Some i"
    then have "j \<noteq> d" using nth(6) [OF j] by auto
    show "i < length ss \<and> next_sibling (ts ! i) = Some j"
    proof (cases "prev_sibling (ss ! j) = Some d")
      case True
      with pv nth(6) [OF j] \<open>j \<noteq> d\<close> have p: "prev_sibling (ss ! d) = Some i" by simp
      note a = links_prev [OF ok p d] and b = links_prev [OF ok True j]
      have "i \<noteq> d" using links_next(1) [OF ok a(2,1)] by simp
      with a b nth(5) [OF a(1)] show ?thesis by simp
    next
      case False
      with pv nth(6) [OF j] \<open>j \<noteq> d\<close> have p: "prev_sibling (ss ! j) = Some i" by simp
      note a = links_prev [OF ok p j]
      have "i \<noteq> d" using p False by auto
      with a nth(5) [OF a(1)] \<open>j \<noteq> d\<close> show ?thesis by simp
    qed
  qed
qed

lemma swap_ends:
  assumes "h = None \<longleftrightarrow> l = None" "\<lbrakk>h = Some d; n = None\<rbrakk> \<Longrightarrow> l = Some d" "\<lbrakk>l = Some d; p = None\<rbrakk> \<Longrightarrow> h = Some d"
    "l = Some d \<Longrightarrow> n = None" "h = Some d \<Longrightarrow> p = None"
  shows "(if h = Some d then n else h) = None \<longleftrightarrow> (if l = Some d then p else l) = None"
  using assms by (metis option.distinct(1))

lemma unlinked_links_ok:
  assumes u: "unlinked d ss ts" and ok: "links_ok ss" and tree: "tree_ok ss"
  shows "links_ok ts"
proof -
  note nth = unlinked_nth [OF u] and d = unlinkedD(3) [OF u]
  have "ends_ok ts"
    unfolding ends_ok_def unlinkedD(2) [OF u]
  proof (intro allI impI conjI)
    fix q assume q: "q < length ss"
    show "h < length ss" "parent (ts ! h) = Some q" "prev_sibling (ts ! h) = None" if h: "child_head (ts ! q) = Some h" for h
    proof (atomize (full), cases "child_head (ss ! q) = Some d")
      case True
      with h nth(7) [OF q] have n: "next_sibling (ss ! d) = Some h" by (auto split: if_splits)
      note a = links_next [OF ok n d] and b = links_head [OF ok True q]
      with nth(1,6) [OF a(2)] show "h < length ss \<and> parent (ts ! h) = Some q \<and> prev_sibling (ts ! h) = None" by simp
    next
      case False
      with h nth(7) [OF q] have c: "child_head (ss ! q) = Some h" by (auto split: if_splits)
      note a = links_head [OF ok c q]
      have "h \<noteq> d" using c False by auto
      with a nth(1,6) [OF a(1)] show "h < length ss \<and> parent (ts ! h) = Some q \<and> prev_sibling (ts ! h) = None" by simp
    qed
    show "l < length ss" "parent (ts ! l) = Some q" "next_sibling (ts ! l) = None" if l: "child_tail (ts ! q) = Some l" for l
    proof (atomize (full), cases "child_tail (ss ! q) = Some d")
      case True
      with l nth(8) [OF q] have p: "prev_sibling (ss ! d) = Some l" by (auto split: if_splits)
      note a = links_prev [OF ok p d] and b = links_tail [OF ok True q]
      have "l \<noteq> d" "parent (ss ! d) = parent (ss ! l)"
        using links_next(1,4) [OF ok a(2,1)] by simp_all
      with a b nth(1,5) [OF a(1)] show "l < length ss \<and> parent (ts ! l) = Some q \<and> next_sibling (ts ! l) = None" by simp
    next
      case False
      with l nth(8) [OF q] have c: "child_tail (ss ! q) = Some l" by (auto split: if_splits)
      note a = links_tail [OF ok c q]
      have "l \<noteq> d" using c False by auto
      with a nth(1,5) [OF a(1)] show "l < length ss \<and> parent (ts ! l) = Some q \<and> next_sibling (ts ! l) = None" by simp
    qed
    show "child_head (ts ! q) = None \<longleftrightarrow> child_tail (ts ! q) = None" if "\<not> cleared (ts ! q)"
    proof -
      from that nth(2) [OF q] have alive: "q \<noteq> d" "\<not> cleared (ss ! q)" by auto
      note e = links_ends [OF ok q alive(2)]
      have h: "child_tail (ss ! q) = Some d" if "child_head (ss ! q) = Some d" "next_sibling (ss ! d) = None"
        using links_kid(2) [OF ok links_head(2) [OF ok that(1) q] alive(2) d that(2)] .
      have l: "child_head (ss ! q) = Some d" if "child_tail (ss ! q) = Some d" "prev_sibling (ss ! d) = None"
        using links_kid(1) [OF ok links_tail(2) [OF ok that(1) q] alive(2) d that(2)] .
      note n = links_tail(3) [OF ok _ q, of d] and p = links_head(3) [OF ok _ q, of d]
      have "child_head (ts ! q) = (if child_head (ss ! q) = Some d then next_sibling (ss ! d) else child_head (ss ! q))"
        "child_tail (ts ! q) = (if child_tail (ss ! q) = Some d then prev_sibling (ss ! d) else child_tail (ss ! q))"
        using nth(7,8) [OF q] alive(1) by simp_all
      then show ?thesis by (simp only:) (rule swap_ends [OF e h l n p])
    qed
  qed
  moreover have "kids_ok ts"
    unfolding kids_ok_def unlinkedD(2) [OF u]
  proof (intro allI impI)
    fix k q assume k: "k < length ss" and par: "parent (ts ! k) = Some q" and alive: "\<not> cleared (ts ! q)"
    then have kd: "k \<noteq> d" "parent (ss ! k) = Some q" using nth(1) [OF k] by (auto split: if_splits)
    then have q: "q < length ss" using tree_okD(1) [OF tree k] k by fastforce
    with alive nth(2) [OF q] have "q \<noteq> d" "\<not> cleared (ss ! q)" by auto
    note kid = links_kid [OF ok kd(2) this(2) k]
    have "child_head (ts ! q) = Some k" if pv: "prev_sibling (ts ! k) = None"
    proof (cases "prev_sibling (ss ! k) = Some d")
      case True
      note a = links_prev [OF ok True k]
      with links_next(4) [OF ok a(2) d] kd(2) have "parent (ss ! d) = Some q" by simp
      moreover have "prev_sibling (ss ! d) = None" using True pv kd(1) nth(6) [OF k] by simp
      ultimately have "child_head (ss ! q) = Some d"
        using links_kid(1) [OF ok _ \<open>\<not> cleared (ss ! q)\<close> d] by blast
      with nth(7) [OF q] \<open>q \<noteq> d\<close> a(2) show ?thesis by simp
    next
      case False
      with pv kd(1) nth(6) [OF k] have "prev_sibling (ss ! k) = None" by simp
      with kid(1) kd(1) nth(7) [OF q] \<open>q \<noteq> d\<close> show ?thesis by simp
    qed
    moreover have "child_tail (ts ! q) = Some k" if nx: "next_sibling (ts ! k) = None"
    proof (cases "next_sibling (ss ! k) = Some d")
      case True
      note a = links_next [OF ok True k]
      have "parent (ss ! d) = Some q" using a(4) kd(2) by simp
      moreover have "next_sibling (ss ! d) = None" using True nx kd(1) nth(5) [OF k] by simp
      ultimately have "child_tail (ss ! q) = Some d"
        using links_kid(2) [OF ok _ \<open>\<not> cleared (ss ! q)\<close> d] by blast
      with nth(8) [OF q] \<open>q \<noteq> d\<close> a(3) show ?thesis by simp
    next
      case False
      with nx kd(1) nth(5) [OF k] have "next_sibling (ss ! k) = None" by simp
      with kid(2) kd(1) nth(8) [OF q] \<open>q \<noteq> d\<close> show ?thesis by simp
    qed
    ultimately show "(prev_sibling (ts ! k) = None \<longrightarrow> child_head (ts ! q) = Some k) \<and>
        (next_sibling (ts ! k) = None \<longrightarrow> child_tail (ts ! q) = Some k)" by blast
  qed
  ultimately show ?thesis using unlinked_next_prev [OF u ok] by (simp add: links_ok_def)
qed

text \<open>Taking the counts of a scope off its chain, one name after the other.\<close>

definition drop_name :: "nat \<Rightarrow> string \<Rightarrow> ('m, 'v, 'f) rootscope \<Rightarrow> ('m, 'v, 'f) rootscope" where
  "drop_name d name t = (case map_of (listenerCount (scopes t ! d)) name of
     None \<Rightarrow> t | Some k \<Rightarrow> decrementListenerCount d k name t)"

lemma drop_listener_counts_names:
  "drop_listener_counts d s = fold (drop_name d) (akeys (listenerCount (scopes s ! d))) s"
  by (simp add: drop_listener_counts_def drop_name_def [abs_def])

definition same_but_counts :: "scope \<Rightarrow> scope \<Rightarrow> bool" where
  "same_but_counts c e \<longleftrightarrow> e = c\<lparr>listenerCount := listenerCount e\<rparr>"

lemma same_but_counts_shape: "same_but_counts c e \<Longrightarrow> shape e = shape c"
  by (cases c; cases e) (simp add: same_but_counts_def shape_def)

lemma same_but_counts_refl [simp]: "same_but_counts c c"
  by (simp add: same_but_counts_def)

lemma same_but_counts_trans: "same_but_counts c e \<Longrightarrow> same_but_counts e g \<Longrightarrow> same_but_counts c g"
  by (cases c; cases e; cases g) (simp add: same_but_counts_def)

lemma same_but_counts_lower: "same_but_counts c (lower_count m k c)"
  by (simp add: same_but_counts_def lower_count_def Let_def)

text \<open>What dropping a list of names leaves as it is.\<close>

definition drops :: "nat \<Rightarrow> ('m, 'v, 'f) rootscope \<Rightarrow> ('m, 'v, 'f) rootscope \<Rightarrow> bool" where
  "drops d s t \<longleftrightarrow> larrays t = larrays s \<and> length (watches t) = length (watches s) \<and>
     length (scopes t) = length (scopes s) \<and>
     (\<forall>k < length (scopes s). same_but_counts (scopes s ! k) (scopes t ! k) \<and>
        (k \<notin> set (chain (scopes s) d) \<longrightarrow> scopes t ! k = scopes s ! k) \<and>
        (distinct (akeys (listenerCount (scopes s ! k))) \<longrightarrow> distinct (akeys (listenerCount (scopes t ! k)))))"

lemma drops_refl [simp]: "drops d s s"
  by (simp add: drops_def)

lemma drops_shape: "drops d s t \<Longrightarrow> same_shape (scopes s) (scopes t)"
  by (simp add: drops_def same_shape_def same_but_counts_shape)

lemma drops_trans:
  assumes "drops d s t" "drops d t u" "d < length (scopes s)"
  shows "drops d s u"
proof -
  have "chain (scopes t) d = chain (scopes s) d"
    using same_shape_chain [OF drops_shape [OF assms(1)] assms(3)] .
  with assms(1,2) show ?thesis
    unfolding drops_def by (auto intro: same_but_counts_trans)
qed

lemma drop_name_drops: "drops d s (drop_name d name s)"
  by (auto simp: drop_name_def drops_def dec_nth same_but_counts_lower split: option.split)

lemma drop_names_drops: "d < length (scopes s) \<Longrightarrow> drops d s (fold (drop_name d) names s)"
proof (induction names arbitrary: s)
  case (Cons name names)
  have "d < length (scopes (drop_name d name s))"
    using drop_name_drops [of d s name] Cons.prems by (simp add: drops_def)
  from Cons.IH [OF this] drops_trans [OF drop_name_drops _ Cons.prems] show ?case by simp
qed simp

lemma drop_names_counts:
  assumes "d < length (scopes s)" "distinct names"
    and "\<And>k. k \<in> set (chain (scopes s) d) \<Longrightarrow> counts_clean (scopes s ! k)"
    and "\<And>k name. k \<in> set (chain (scopes s) d) \<Longrightarrow> name \<in> set names \<Longrightarrow> count_of name (scopes s ! k) \<noteq> 0"
    and "k \<in> set (chain (scopes s) d)"
  shows "counts_clean (scopes (fold (drop_name d) names s) ! k) \<and>
    count_of m (scopes (fold (drop_name d) names s) ! k) =
      count_of m (scopes s ! k) - (if m \<in> set names then count_of m (scopes s ! d) else 0)"
  using assms
proof (induction names arbitrary: s)
  case (Cons name names)
  let ?t = "drop_name d name s" and ?c = "count_of name (scopes s ! d)"
  have dr: "drops d s ?t" by (rule drop_name_drops)
  have ch: "chain (scopes ?t) d = chain (scopes s) d"
    by (rule same_shape_chain [OF drops_shape [OF dr] Cons.prems(1)])
  have d: "d < length (scopes ?t)" using dr Cons.prems(1) by (simp add: drops_def)
  have len: "k < length (scopes s)" if "k \<in> set (chain (scopes s) d)" for k
    using chain_le [OF that] Cons.prems(1) by simp
  have "?c \<noteq> 0" using Cons.prems(4) [of d name] by simp
  then have own: "map_of (listenerCount (scopes s ! d)) name = Some (Some ?c)"
    by (auto simp: count_of_def split: option.splits)
  then have nth: "scopes ?t ! k = lower_count name (Some ?c) (scopes s ! k)" if "k \<in> set (chain (scopes s) d)" for k
    using that len [OF that] by (simp add: drop_name_def dec_nth)
  have one: "counts_clean (scopes ?t ! k) \<and>
      count_of m (scopes ?t ! k) = count_of m (scopes s ! k) - (if m = name then ?c else 0)"
    if "k \<in> set (chain (scopes s) d)" for k m
    using that Cons.prems(3,4) [OF that] by (simp add: nth counts_clean_lower count_of_lower)
  have "counts_clean (scopes (fold (drop_name d) names ?t) ! k) \<and>
    count_of m (scopes (fold (drop_name d) names ?t) ! k) =
      count_of m (scopes ?t ! k) - (if m \<in> set names then count_of m (scopes ?t ! d) else 0)"
    using Cons.prems(2,4,5) one by (intro Cons.IH [OF d]) (auto simp: ch)
  with one [OF Cons.prems(5), of m] one [of d m] Cons.prems(2) show ?case by auto
qed simp

text \<open>The counts of names nobody below has are 0 already.\<close>

lemma count_of_keys: "name \<notin> set (akeys (listenerCount c)) \<Longrightarrow> count_of name c = 0"
  by (auto simp: count_of_def map_of_akeys [symmetric])

lemma count_of_some: "counts_clean c \<Longrightarrow> name \<in> set (akeys (listenerCount c)) \<Longrightarrow> count_of name c \<noteq> 0"
proof -
  assume c: "counts_clean c" and "name \<in> set (akeys (listenerCount c))"
  then obtain k where "map_of (listenerCount c) name = Some k" using map_of_akeys by (metis option.exhaust)
  with c show ?thesis by (cases k) (auto simp: counts_clean_def count_of_def)
qed

lemma count_of_mono:
  assumes "counts_ok s" "attached (scopes s) d" "k \<in> set (chain (scopes s) d)"
  shows "count_of name (scopes s ! d) \<le> count_of name (scopes s ! k)"
proof -
  have "below (scopes s) d \<subseteq> below (scopes s) k" using assms(3) by (auto simp: below_def intro: chain_trans)
  then have "(\<Sum>j \<in> below (scopes s) d. heard s name j) \<le> (\<Sum>j \<in> below (scopes s) k. heard s name j)"
    by (intro sum_mono2) (auto simp: heard_nonneg)
  with counts_okD(3) [OF assms(1)] assms(2) attached_chain [OF assms(2,3)] show ?thesis by simp
qed

lemma drop_all_counts:
  assumes "distinct (akeys (listenerCount (scopes s ! d)))" "d < length (scopes s)"
    and clean: "\<And>j. j \<in> set (chain (scopes s) d) \<Longrightarrow> counts_clean (scopes s ! j)"
    and mono: "\<And>j name. j \<in> set (chain (scopes s) d) \<Longrightarrow> 0 \<le> count_of name (scopes s ! d) \<and>
      count_of name (scopes s ! d) \<le> count_of name (scopes s ! j)"
    and k: "k \<in> set (chain (scopes s) d)"
  shows "counts_clean (scopes (drop_listener_counts d s) ! k) \<and>
    count_of m (scopes (drop_listener_counts d s) ! k) = count_of m (scopes s ! k) - count_of m (scopes s ! d)"
proof -
  let ?names = "akeys (listenerCount (scopes s ! d))"
  have "count_of name (scopes s ! j) \<noteq> 0" if "j \<in> set (chain (scopes s) d)" "name \<in> set ?names" for j name
    using count_of_some [OF clean that(2)] mono [OF that(1), of name] by simp
  then have "counts_clean (scopes (fold (drop_name d) ?names s) ! k) \<and>
    count_of m (scopes (fold (drop_name d) ?names s) ! k) =
      count_of m (scopes s ! k) - (if m \<in> set ?names then count_of m (scopes s ! d) else 0)"
    using assms by (intro drop_names_counts) auto
  then show ?thesis by (auto simp: drop_listener_counts_names count_of_keys)
qed

lemma unlink_scope_nth:
  assumes "i < length (scopes s)"
  shows "scopes (unlink_scope d par s) ! i = (scopes s ! i)\<lparr>
     child_head := (if par = Some i \<and> child_head (scopes s ! i) = Some d then next_sibling (scopes s ! d) else child_head (scopes s ! i)),
     child_tail := (if par = Some i \<and> child_tail (scopes s ! i) = Some d then prev_sibling (scopes s ! d) else child_tail (scopes s ! i)),
     next_sibling := (if prev_sibling (scopes s ! d) = Some i then next_sibling (scopes s ! d) else next_sibling (scopes s ! i)),
     prev_sibling := (if next_sibling (scopes s ! d) = Some i then prev_sibling (scopes s ! d) else prev_sibling (scopes s ! i))\<rparr>"
proof -
  have u: "scopes (update_opt p f t) ! i = (if p = Some i then f (scopes t ! i) else scopes t ! i)"
    if "i < length (scopes t)" for p f and t :: "('a, 'b, 'c) rootscope"
    using that by (auto simp: update_opt_def update_scope_scopes nth_update split: option.split)
  show ?thesis
    using assms by (simp add: unlink_scope_def Let_def u)
qed

lemma unlink_scope_frame [simp]:
  "watches (unlink_scope d par s) = watches s" "larrays (unlink_scope d par s) = larrays s"
  "length (scopes (unlink_scope d par s)) = length (scopes s)"
  by (simp_all add: unlink_scope_def Let_def)

text \<open>Destroying the root tells the browser, which leaves the scopes alone.\<close>

definition env_destroys :: "('m, 'v, 'f) scope_env \<Rightarrow> bool" where
  "env_destroys env \<longleftrightarrow> (\<forall>s. scopes (application_destroyed env s) = scopes s \<and>
     watches (application_destroyed env s) = watches s \<and> larrays (application_destroyed env s) = larrays s)"

text \<open>The state before the listener counts and the pointers are changed.\<close>

definition before_drop :: "('m, 'v, 'f) scope_env \<Rightarrow> nat \<Rightarrow> ('m, 'v, 'f) rootscope \<Rightarrow> ('m, 'v, 'f) rootscope" where
  "before_drop env d s =
    (let s1 = update_scope d (\<lambda>c. c\<lparr>own_destroyed := True\<rparr>) s;
         s2 = (if d = 0 then application_destroyed env s1 else s1)
     in incrementWatchersCount d (- watchersCount (scopes s2 ! d)) s2)"

lemma finish_destroy_steps:
  "finish_destroy env d par s = update_scope d (\<lambda>c. cleanUpScope (c\<lparr>disabled := True, listeners := []\<rparr>))
     (unlink_scope d par (drop_listener_counts d (before_drop env d s)))"
  by (simp add: finish_destroy_def before_drop_def Let_def)

lemma before_drop_state:
  assumes "env_destroys env" "d < length (scopes s)"
  shows "larrays (before_drop env d s) = larrays s" "watches (before_drop env d s) = watches s"
    "length (scopes (before_drop env d s)) = length (scopes s)"
    "\<And>i. i < length (scopes s) \<Longrightarrow> scopes (before_drop env d s) ! i = (scopes s ! i)\<lparr>
       own_destroyed := (i = d \<or> own_destroyed (scopes s ! i)),
       watchersCount := watchersCount (scopes s ! i) - (if i \<in> set (chain (scopes s) d) then watchersCount (scopes s ! d) else 0)\<rparr>"
proof -
  let ?s1 = "update_scope d (\<lambda>c. c\<lparr>own_destroyed := True\<rparr>) s"
  let ?s2 = "if d = 0 then application_destroyed env ?s1 else ?s1"
  have s2: "scopes ?s2 = scopes ?s1" "watches ?s2 = watches ?s1" "larrays ?s2 = larrays ?s1"
    using assms(1) by (simp_all add: env_destroys_def)
  have sh: "same_shape (scopes s) (scopes ?s1)" by (rule update_scope_shape) (simp add: shape_def)
  have ch: "chain (scopes ?s1) d = chain (scopes s) d" by (rule same_shape_chain [OF sh assms(2)])
  have b: "before_drop env d s = incrementWatchersCount d (- watchersCount (scopes ?s2 ! d)) ?s2"
    by (simp add: before_drop_def Let_def)
  show "larrays (before_drop env d s) = larrays s" "watches (before_drop env d s) = watches s"
    "length (scopes (before_drop env d s)) = length (scopes s)"
    unfolding b by (simp_all only: inc_frame s2 update_scope_frame)
  fix i assume i: "i < length (scopes s)"
  then have "i < length (scopes ?s2)" by (simp add: s2)
  from inc_nth [OF this, of d "- watchersCount (scopes ?s2 ! d)"]
  show "scopes (before_drop env d s) ! i = (scopes s ! i)\<lparr>
       own_destroyed := (i = d \<or> own_destroyed (scopes s ! i)),
       watchersCount := watchersCount (scopes s ! i) - (if i \<in> set (chain (scopes s) d) then watchersCount (scopes s ! d) else 0)\<rparr>"
    unfolding b s2 ch using i assms(2) by (auto simp: update_scope_scopes nth_update)
qed

lemma before_drop_inv:
  assumes inv: "scope_inv s" and e: "env_destroys env" and d: "d < length (scopes s)"
  shows "same_shape (scopes s) (scopes (before_drop env d s))" "arrays_ok (before_drop env d s)"
    "\<And>i m. i < length (scopes s) \<Longrightarrow> heard (before_drop env d s) m i = heard s m i"
    "\<And>i m. i < length (scopes s) \<Longrightarrow> count_of m (scopes (before_drop env d s) ! i) = count_of m (scopes s ! i)"
    "\<And>i. i < length (scopes s) \<Longrightarrow> counts_clean (scopes (before_drop env d s) ! i) = counts_clean (scopes s ! i)"
  using scope_invD(4) [OF inv]
  by (simp_all add: same_shape_def shape_def before_drop_state [OF e d] arrays_ok_def
      heard_def count_of_def counts_clean_def cong: option.case_cong)

lemma finish_destroy_both:
  assumes inv: "scope_inv s" and e: "env_destroys env" and d: "d < length (scopes s)"
    and par: "parent (scopes s ! d) = par \<or> parent (scopes s ! d) = None"
  shows "unlinked d (scopes s) (scopes (finish_destroy env d par s)) \<and> scope_inv (finish_destroy env d par s)"
proof -
  let ?b = "before_drop env d s"
  let ?u = "drop_listener_counts d ?b"
  let ?t = "finish_destroy env d par s"
  note parts = scope_invD [OF inv] and b = before_drop_state [OF e d] and bi = before_drop_inv [OF inv e d]
  have dr: "drops d ?b ?u"
    unfolding drop_listener_counts_names by (rule drop_names_drops) (simp add: b d)
  have ch: "chain (scopes ?b) d = chain (scopes s) d" by (rule same_shape_chain [OF bi(1) d])
  have sh: "same_shape (scopes s) (scopes ?u)" by (rule same_shape_trans [OF bi(1) drops_shape [OF dr]])
  have u: "length (scopes ?u) = length (scopes s)" "larrays ?u = larrays s" "length (watches ?u) = length (watches s)"
    using dr b by (simp_all add: drops_def)
  have unth: "scopes ?u ! i = (scopes ?b ! i)\<lparr>listenerCount := listenerCount (scopes ?u ! i)\<rparr>"
    "i \<notin> set (chain (scopes s) d) \<Longrightarrow> scopes ?u ! i = scopes ?b ! i"
    "distinct (akeys (listenerCount (scopes ?u ! i)))" if "i < length (scopes s)" for i
    using dr that arrays_okD(1) [OF bi(2), of i] by (simp_all add: drops_def b ch same_but_counts_def)
  have lengths: "length (scopes ?t) = length (scopes s)" "larrays ?t = larrays s" "length (watches ?t) = length (watches s)"
    by (simp_all add: finish_destroy_steps u)
  have tnth: "scopes ?t ! i = (if i = d then cleanUpScope ((scopes (unlink_scope d par ?u) ! i)\<lparr>disabled := True, listeners := []\<rparr>)
      else scopes (unlink_scope d par ?u) ! i)" if "i < length (scopes s)" for i
    using that d by (simp add: finish_destroy_steps update_scope_scopes nth_update u)
  note f = same_shape_fields [OF sh]
  have heads: "par = Some i \<and> child_head (scopes s ! i) = Some d \<longleftrightarrow> child_head (scopes s ! i) = Some d"
    "par = Some i \<and> child_tail (scopes s ! i) = Some d \<longleftrightarrow> child_tail (scopes s ! i) = Some d"
    if "i < length (scopes s)" for i
    using par links_head(2) [OF parts(2) _ that, of d] links_tail(2) [OF parts(2) _ that, of d] by auto
  have sides: "prev_sibling (scopes s ! d) = Some i \<longleftrightarrow> next_sibling (scopes s ! i) = Some d"
    "next_sibling (scopes s ! d) = Some i \<longleftrightarrow> prev_sibling (scopes s ! i) = Some d"
    if "i < length (scopes s)" for i
    using links_prev(2) [OF parts(2) _ d] links_next(3) [OF parts(2) _ that] links_next(3) [OF parts(2) _ d]
      links_prev(2) [OF parts(2) _ that] by blast+
  have un: "unlinked d (scopes s) (scopes ?t)"
    unfolding unlinked_def cut_at_def
  proof (intro conjI allI impI)
    fix i assume i: "i < length (scopes s)"
    note un_i = unlink_scope_nth [of i ?u d par, unfolded f(1-8) [OF i] f(3,4) [OF d] heads [OF i] sides [OF i] u, OF i]
    show "parent (scopes ?t ! i) = (if i = d then None else parent (scopes s ! i))"
      "cleared (scopes ?t ! i) = (i = d \<or> cleared (scopes s ! i))"
      "proto (scopes ?t ! i) = proto (scopes s ! i)"
      "disabled (scopes ?t ! i) = (i = d \<or> disabled (scopes s ! i))"
      "next_sibling (scopes ?t ! i) = (if i = d then None else if next_sibling (scopes s ! i) = Some d then next_sibling (scopes s ! d) else next_sibling (scopes s ! i))"
      "prev_sibling (scopes ?t ! i) = (if i = d then None else if prev_sibling (scopes s ! i) = Some d then prev_sibling (scopes s ! d) else prev_sibling (scopes s ! i))"
      "child_head (scopes ?t ! i) = (if i = d then None else if child_head (scopes s ! i) = Some d then next_sibling (scopes s ! d) else child_head (scopes s ! i))"
      "child_tail (scopes ?t ! i) = (if i = d then None else if child_tail (scopes s ! i) = Some d then prev_sibling (scopes s ! d) else child_tail (scopes s ! i))"
      unfolding tnth [OF i] un_i by (simp_all add: cleanUpScope_def f(1,2,7,8) [OF i] f(1) [OF d])
  qed (simp_all add: lengths d)
  have "scope_inv ?t"
  proof (rule scope_invI)
    show "tree_ok (scopes ?t)" by (rule unlinked_tree_ok [OF un parts(1)])
    show "links_ok (scopes ?t)" by (rule unlinked_links_ok [OF un parts(2,1)])
    have uf: "watchers (scopes ?u ! i) = watchers (scopes s ! i)" "listeners (scopes ?u ! i) = listeners (scopes s ! i)"
      "watchersCount (scopes ?u ! i) = watchersCount (scopes s ! i) -
         (if i \<in> set (chain (scopes s) d) then watchersCount (scopes s ! d) else 0)" if "i < length (scopes s)" for i
      using arg_cong [OF unth(1) [OF that], of watchers] arg_cong [OF unth(1) [OF that], of listeners]
        arg_cong [OF unth(1) [OF that], of watchersCount] by (simp_all add: b that)
    have w: "watchers (scopes ?t ! i) = watchers (scopes s ! i)"
      "listeners (scopes ?t ! i) = (if i = d then [] else listeners (scopes s ! i))"
      "watchersCount (scopes ?t ! i) = watchersCount (scopes s ! i) -
         (if i \<in> set (chain (scopes s) d) then watchersCount (scopes s ! d) else 0)"
      "listenerCount (scopes ?t ! i) = listenerCount (scopes ?u ! i)" if "i < length (scopes s)" for i
      using that d by (simp_all add: tnth unlink_scope_nth u uf cleanUpScope_def)
    show "watches_ok ?t" using parts(3) by (simp add: watches_ok_def lengths w)
    show "arrays_ok ?t" using parts(4) by (auto simp: arrays_ok_def lengths w unth(3))
    have sums: "sums_ok (scopes s) (\<lambda>k. watchersCount (scopes s ! k)) (watched s)"
      "sums_ok (scopes s) (\<lambda>k. count_of m (scopes s ! k)) (heard s m)" for m
      using parts(5) unfolding counts_ok_def by blast+
    have counts: "counts_clean (scopes ?t ! i)" "count_of m (scopes ?t ! i) = count_of m (scopes s ! i) -
        (if i \<in> set (chain (scopes s) d) then count_of m (scopes s ! d) else 0)"
      if "attached (scopes ?t) i" for i m
    proof -
      have a: "attached (scopes s) i" by (rule cut_attached(1) [OF unlinkedD(1) [OF un] parts(1) that])
      note i = attached_less [OF a]
      have to_u: "counts_clean (scopes ?t ! i) = counts_clean (scopes ?u ! i)" "count_of m (scopes ?t ! i) = count_of m (scopes ?u ! i)"
        by (simp_all add: counts_clean_def count_of_def w i)
      have "counts_clean (scopes ?u ! i) \<and> count_of m (scopes ?u ! i) = count_of m (scopes s ! i) -
          (if i \<in> set (chain (scopes s) d) then count_of m (scopes s ! d) else 0)"
      proof (cases "i \<in> set (chain (scopes s) d)")
        case False
        with unth(2) [OF i] bi(4,5) [OF i] counts_okD(1) [OF parts(5) a] show ?thesis by simp
      next
        case True
        have "0 \<in> set (chain (scopes s) i)" using a by (simp add: attached_def below_def)
        from chain_trans [OF this True] a d have ad: "attached (scopes s) d" by (simp add: attached_def below_def)
        have onchain: "attached (scopes s) j" "j < length (scopes s)" if "j \<in> set (chain (scopes s) d)" for j
          using attached_chain [OF ad that] attached_less by blast+
        have "counts_clean (scopes ?u ! i) \<and> count_of m (scopes ?u ! i) = count_of m (scopes ?b ! i) - count_of m (scopes ?b ! d)"
          using arrays_okD(1) [OF bi(2)] True d
            counts_okD(1) [OF parts(5) onchain(1)] count_of_nonneg [OF parts(5) ad] count_of_mono [OF parts(5) ad]
          by (intro drop_all_counts) (simp_all add: b(1-3) ch bi onchain(2))
        with True bi(4) [OF i] bi(4) [OF d] show ?thesis by simp
      qed
      with to_u show "counts_clean (scopes ?t ! i)" "count_of m (scopes ?t ! i) = count_of m (scopes s ! i) -
        (if i \<in> set (chain (scopes s) d) then count_of m (scopes s ! d) else 0)" by simp_all
    qed
    have weights: "heard ?t m j = heard s m j" "watched ?t j = watched s j"
      if "j < length (scopes s)" "d \<notin> set (chain (scopes s) j)" for m j
      using that chain_self [of j "scopes s"] by (auto simp: heard_def watched_def w lengths cong: option.case_cong)
    have less: "i < length (scopes s)" if "attached (scopes ?t) i" for i
      using attached_less [OF that] lengths(1) by simp
    have "sums_ok (scopes ?t) (\<lambda>k. watchersCount (scopes ?t ! k)) (watched ?t)"
      by (rule cut_sums [OF unlinkedD(1) [OF un] parts(1) sums(1)]) (simp_all add: w less weights)
    moreover have "sums_ok (scopes ?t) (\<lambda>k. count_of m (scopes ?t ! k)) (heard ?t m)" for m
      by (rule cut_sums [OF unlinkedD(1) [OF un] parts(1) sums(2) [of m]]) (simp_all add: counts weights)
    ultimately show "counts_ok ?t" using counts(1) by (simp add: counts_ok_def)
  qed
  with un show ?thesis by simp
qed

lemmas finish_destroy_unlinked = finish_destroy_both [THEN conjunct1]
lemmas finish_destroy_inv = finish_destroy_both [THEN conjunct2]

end
