(* ===== verification/NgDigest.thy ===== *)
theory NgDigest
  imports NgEvents
begin

text \<open>
  \<open>$digest\<close>, the dirty checking of a scope and all below it, and the operations that run it:
  \<open>$apply\<close> and the two deferred functions. The loops over the queues and the walk may be
  fed by the functions they call, so each takes a bound on its iterations, None when it was
  too small; the rounds are bounded by \<open>TTL\<close> as in the code.
\<close>

section \<open>Phases\<close>

definition inprog_error :: "string \<Rightarrow> js_error" where
  "inprog_error ph = minErr ''$rootScope'' ''inprog'' ''{0} already in progress'' [ph]"

definition beginPhase :: "string \<Rightarrow> (('m, 'v, 'f) rootscope, unit) comp" where
  "beginPhase ph s =
    (case phase s of
       Some p \<Rightarrow> (Inl (inprog_error p), s)
     | None \<Rightarrow> (Inr (), s\<lparr>phase := Some ph\<rparr>))"

definition clearPhase :: "('m, 'v, 'f) rootscope \<Rightarrow> ('m, 'v, 'f) rootscope" where
  "clearPhase s = s\<lparr>phase := None\<rparr>"

section \<open>Queues\<close>

definition s_eval :: "('m, 'v, 'f) scope_env \<Rightarrow> nat \<Rightarrow> 'f fn \<Rightarrow> (('m, 'v, 'f) rootscope, 'v) comp" where
  "s_eval env i expr = call_fn env expr (Evaluate i)"

fun drain_async :: "nat \<Rightarrow> ('m, 'v, 'f) scope_env \<Rightarrow> ('m, 'v, 'f) rootscope \<Rightarrow> ('m, 'v, 'f) rootscope option" where
  "drain_async n env s =
    (case asyncQueue s of
       [] \<Rightarrow> Some s
     | (i, f) # q \<Rightarrow>
        (case n of 0 \<Rightarrow> None
         | Suc k \<Rightarrow> drain_async k env ((try_call env f (Evaluate i) (s\<lparr>asyncQueue := q\<rparr>))\<lparr>lastDirtyWatch := None\<rparr>)))"

fun drain_post :: "nat \<Rightarrow> ('m, 'v, 'f) scope_env \<Rightarrow> ('m, 'v, 'f) rootscope \<Rightarrow> ('m, 'v, 'f) rootscope option" where
  "drain_post n env s =
    (case postDigestQueue s of
       [] \<Rightarrow> Some s
     | f # q \<Rightarrow>
        (case n of 0 \<Rightarrow> None
         | Suc k \<Rightarrow> drain_post k env (try_call env f NoArguments (s\<lparr>postDigestQueue := q\<rparr>))))"

fun drain_apply :: "nat \<Rightarrow> ('m, 'v, 'f) scope_env \<Rightarrow> ('m, 'v, 'f) rootscope \<Rightarrow> ('m, 'v, 'f) rootscope option" where
  "drain_apply n env s =
    (case applyAsyncQueue s of
       [] \<Rightarrow> Some s
     | (i, f) # q \<Rightarrow>
        (case n of 0 \<Rightarrow> None
         | Suc k \<Rightarrow> drain_apply k env (try_call env f (Evaluate i) (s\<lparr>applyAsyncQueue := q\<rparr>))))"

declare drain_async.simps [simp del] drain_post.simps [simp del] drain_apply.simps [simp del]

definition flushApplyAsync :: "nat \<Rightarrow> ('m, 'v, 'f) scope_env \<Rightarrow> ('m, 'v, 'f) rootscope \<Rightarrow> ('m, 'v, 'f) rootscope option" where
  "flushApplyAsync n env s =
    (case drain_apply n env s of None \<Rightarrow> None | Some t \<Rightarrow> Some (t\<lparr>applyAsyncId := None\<rparr>))"

section \<open>One watch, the watches of one scope\<close>

text \<open>
  \<open>w_last\<close> None is \<open>initWatchVal\<close>, which differs from every value. The result: whether the
  watch was dirty, and whether the walk stops because the last dirty watch was reached.
\<close>

definition changed :: "('m, 'v, 'f) scope_env \<Rightarrow> 'm \<Rightarrow> ('v, 'f) watch \<Rightarrow> 'v \<Rightarrow> bool" where
  "changed env m w value =
    (case w_last w of
       None \<Rightarrow> True
     | Some old \<Rightarrow> \<not> strict_eq env value old \<and>
         \<not> (if w_eq w then deep_eq env m value old else is_nan env value \<and> is_nan env old))"

definition remember :: "('m, 'v, 'f) scope_env \<Rightarrow> nat \<Rightarrow> 'v \<Rightarrow> ('m, 'v, 'f) rootscope \<Rightarrow> ('m, 'v, 'f) rootscope" where
  "remember env w value s =
    (let (v, m) = (if w_eq (watches s ! w) then copy_value env (model s) value else (value, model s))
     in s\<lparr>lastDirtyWatch := Some w, model := m,
          watches := (watches s)[w := (watches s ! w)\<lparr>w_last := Some v\<rparr>]\<rparr>)"

type_synonym 'v watch_log = "(nat \<times> nat \<times> 'v \<times> 'v option) list"

definition check_watch ::
  "('m, 'v, 'f) scope_env \<Rightarrow> nat \<Rightarrow> nat \<Rightarrow> nat \<Rightarrow> 'v watch_log \<Rightarrow> ('m, 'v, 'f) rootscope
    \<Rightarrow> bool \<times> bool \<times> 'v watch_log \<times> ('m, 'v, 'f) rootscope" where
  "check_watch env ttl cur w log s =
    (case call_fn env (w_get (watches s ! w)) (GetValue cur) s of
       (Inl e, t) \<Rightarrow> (False, False, log, exceptionHandler e t)
     | (Inr value, t) \<Rightarrow>
        (let wt = watches t ! w in
         if changed env (model t) wt value then
           (case call_fn env (w_fn wt)
               (Changed value (case w_last wt of None \<Rightarrow> value | Some old \<Rightarrow> old) cur) (remember env w value t) of
              (Inl e, u) \<Rightarrow> (True, False, log, exceptionHandler e u)
            | (Inr _, u) \<Rightarrow> (True, False,
                if ttl < 5 then log @ [(4 - ttl, w, value, w_last wt)] else log, u))
         else (False, lastDirtyWatch t = Some w, log, t)))"

text \<open>
  The loop over the watchers of a scope, from the last of the array to the first; the array
  is read anew each time, and an index beyond its end is skipped.
\<close>

fun check_watchers ::
  "('m, 'v, 'f) scope_env \<Rightarrow> nat \<Rightarrow> nat \<Rightarrow> nat \<Rightarrow> bool \<Rightarrow> 'v watch_log \<Rightarrow> ('m, 'v, 'f) rootscope
    \<Rightarrow> bool \<times> bool \<times> 'v watch_log \<times> ('m, 'v, 'f) rootscope" where
  "check_watchers env ttl cur 0 dirty log s = (dirty, False, log, s)"
| "check_watchers env ttl cur (Suc k) dirty log s =
    (if k < length (watchers (scopes s ! cur)) then
       (case check_watch env ttl cur (watchers (scopes s ! cur) ! k) log s of
          (d, stop, log', t) \<Rightarrow>
            if stop then (False, True, log', t)
            else check_watchers env ttl cur k (dirty \<or> d) log' t)
     else check_watchers env ttl cur k dirty log s)"

section \<open>The walk and the rounds\<close>

text \<open>The result of a walk: an error, or whether it found anything dirty.\<close>

fun traverse ::
  "nat \<Rightarrow> ('m, 'v, 'f) scope_env \<Rightarrow> nat \<Rightarrow> nat \<Rightarrow> nat \<Rightarrow> bool \<Rightarrow> 'v watch_log \<Rightarrow> ('m, 'v, 'f) rootscope
    \<Rightarrow> ((js_error + bool) \<times> 'v watch_log \<times> ('m, 'v, 'f) rootscope) option" where
  "traverse 0 env ttl target cur dirty log s = None"
| "traverse (Suc n) env ttl target cur dirty log s =
    (case (if cleared (scopes s ! cur) then (dirty, False, log, s)
           else check_watchers env ttl cur (length (watchers (scopes s ! cur))) dirty log s) of
       (d, stop, log', t) \<Rightarrow>
         if stop then Some (Inr d, log', t)
         else
           (case next_scope (scopes t) (watchersCount (scopes t ! cur) \<noteq> 0) target cur of
              Inl e \<Rightarrow> Some (Inl e, log', t)
            | Inr None \<Rightarrow> Some (Inr d, log', t)
            | Inr (Some c) \<Rightarrow> traverse n env ttl target c d log' t))"

definition infdig_template :: string where
  "infdig_template = ''{0} $digest() iterations reached. Aborting!'' @ [CHR 0x0A] @
     ''Watchers fired in the last 5 iterations: {1}''"

definition infdig_error :: "('m, 'v, 'f) scope_env \<Rightarrow> nat \<Rightarrow> 'v watch_log \<Rightarrow> js_error" where
  "infdig_error env ttl log = minErr ''$rootScope'' ''infdig'' infdig_template [nat_str ttl, log_text env log]"

fun digest_rounds ::
  "nat \<Rightarrow> ('m, 'v, 'f) scope_env \<Rightarrow> nat \<Rightarrow> nat \<Rightarrow> 'v watch_log \<Rightarrow> ('m, 'v, 'f) rootscope
    \<Rightarrow> ((js_error + unit) \<times> ('m, 'v, 'f) rootscope) option" where
  "digest_rounds fuel env target ttl log s =
    (case drain_async fuel env s of
       None \<Rightarrow> None
     | Some s1 \<Rightarrow>
        (case traverse fuel env ttl target target False log s1 of
           None \<Rightarrow> None
         | Some (Inl e, log', t) \<Rightarrow> Some (Inl e, t)
         | Some (Inr dirty, log', t) \<Rightarrow>
            if dirty \<or> asyncQueue t \<noteq> [] then
              (case ttl of
                 0 \<Rightarrow> Some (Inl (infdig_error env (TTL t) log'), clearPhase t)
               | Suc k \<Rightarrow> digest_rounds fuel env target k log' t)
            else Some (Inr (), t)))"

declare digest_rounds.simps [simp del]

definition s_digest ::
  "nat \<Rightarrow> ('m, 'v, 'f) scope_env \<Rightarrow> nat \<Rightarrow> ('m, 'v, 'f) rootscope
    \<Rightarrow> ((js_error + unit) \<times> ('m, 'v, 'f) rootscope) option" where
  "s_digest fuel env target s =
    (if is_disabled s target then Some (Inr (), s)
     else
       (case seqM (beginPhase ''$digest'') (check_url env) s of
          (Inl e, t) \<Rightarrow> Some (Inl e, t)
        | (Inr _, t) \<Rightarrow>
           (case (case (if target = 0 then applyAsyncId t else None) of
                    None \<Rightarrow> Some t
                  | Some k \<Rightarrow> flushApplyAsync fuel env (t\<lparr>timers := adel k (timers t)\<rparr>)) of
              None \<Rightarrow> None
            | Some u \<Rightarrow>
               (case digest_rounds fuel env target (TTL s) [] (u\<lparr>lastDirtyWatch := None\<rparr>) of
                  None \<Rightarrow> None
                | Some (Inl e, w) \<Rightarrow> Some (Inl e, w)
                | Some (Inr _, w) \<Rightarrow>
                   (case drain_post fuel env (clearPhase w) of
                      None \<Rightarrow> None
                    | Some x \<Rightarrow> Some (Inr (), x))))))"

section \<open>\<open>$apply\<close> and the deferred functions\<close>

text \<open>
  \<open>$apply\<close> around an evaluation: an error of the evaluation, or of beginning the phase, is
  handled; the digest of the root runs in any case, its error is handled and thrown again.
\<close>

definition apply_with ::
  "nat \<Rightarrow> ('m, 'v, 'f) scope_env \<Rightarrow> nat \<Rightarrow> (('m, 'v, 'f) rootscope \<Rightarrow> ((js_error + unit) \<times> ('m, 'v, 'f) rootscope) option)
    \<Rightarrow> ('m, 'v, 'f) rootscope \<Rightarrow> ((js_error + unit) \<times> ('m, 'v, 'f) rootscope) option" where
  "apply_with fuel env i evaluation s =
    (if is_disabled s i then Some (Inr (), s)
     else
       (case (case beginPhase ''$apply'' s of
                (Inl e, t) \<Rightarrow> Some (exceptionHandler e t)
              | (Inr _, t) \<Rightarrow>
                 (case evaluation t of
                    None \<Rightarrow> None
                  | Some (Inl e, u) \<Rightarrow> Some (exceptionHandler e (clearPhase u))
                  | Some (Inr _, u) \<Rightarrow> Some (clearPhase u))) of
          None \<Rightarrow> None
        | Some u \<Rightarrow>
           (case s_digest fuel env 0 u of
              None \<Rightarrow> None
            | Some (Inl e, w) \<Rightarrow> Some (Inl e, exceptionHandler e w)
            | Some (Inr _, w) \<Rightarrow> Some (Inr (), w))))"

definition s_apply ::
  "nat \<Rightarrow> ('m, 'v, 'f) scope_env \<Rightarrow> nat \<Rightarrow> 'f fn \<Rightarrow> ('m, 'v, 'f) rootscope
    \<Rightarrow> ((js_error + unit) \<times> ('m, 'v, 'f) rootscope) option" where
  "s_apply fuel env i expr = apply_with fuel env i
    (\<lambda>t. case s_eval env i expr t of (Inl e, u) \<Rightarrow> Some (Inl e, u) | (Inr _, u) \<Rightarrow> Some (Inr (), u))"

definition fire_timer ::
  "nat \<Rightarrow> ('m, 'v, 'f) scope_env \<Rightarrow> timer \<Rightarrow> ('m, 'v, 'f) rootscope
    \<Rightarrow> ((js_error + unit) \<times> ('m, 'v, 'f) rootscope) option" where
  "fire_timer fuel env t s =
    (case t of
       DigestIfQueued \<Rightarrow> (if asyncQueue s \<noteq> [] then s_digest fuel env 0 s else Some (Inr (), s))
     | ApplyFlush \<Rightarrow> apply_with fuel env 0
         (\<lambda>u. case flushApplyAsync fuel env u of None \<Rightarrow> None | Some w \<Rightarrow> Some (Inr (), w)) s)"

end
