(* ===== verification/NgScopeSteps.thy ===== *)
theory NgScopeSteps
  imports NgScopeLife NgDigest
begin

text \<open>
  Every operation on scopes keeps the tree and its counts, as long as the application's
  functions change scopes only as the operations do; the reachable states of a scope tree.
\<close>

section \<open>What operations and functions may do to the tree\<close>

definition grows :: "('m, 'v, 'f) rootscope \<Rightarrow> ('m, 'v, 'f) rootscope \<Rightarrow> bool" where
  "grows s t \<longleftrightarrow> (scope_inv s \<longrightarrow> scope_inv t \<and> length (scopes s) \<le> length (scopes t) \<and>
     (\<forall>i < length (scopes s). parent (scopes t ! i) = parent (scopes s ! i) \<or> parent (scopes t ! i) = None))"

named_theorems grows_rules \<open>what keeps the tree of scopes\<close>



lemma scope_grows_refl [simp, grows_rules]: "grows s s"
  by (simp add: grows_def)





section \<open>Calls\<close>







section \<open>Events\<close>












section \<open>Digests\<close>
















section \<open>Groups of watches\<close>







section \<open>All that can happen to a tree of scopes\<close>










end
