(* ===== verification/NgDigestProps.thy ===== *)
theory NgDigestProps
  imports NgWalk NgScopeSteps
begin

text \<open>
  What a digest achieves when the functions it calls touch the model only: it ends, and
  either reports that the model does not settle or leaves every watch at and below its
  target unchanged since it was last looked at. This is also the justification of stopping
  at the last dirty watch instead of checking all of them again.
\<close>

section \<open>Functions that touch the model only\<close>

definition quiet :: "('m, 'v, 'f) scope_env \<Rightarrow> ('f \<Rightarrow> 'v call \<Rightarrow> 'm \<Rightarrow> (js_error + 'v) \<times> 'm) \<Rightarrow> bool" where
  "quiet env eff \<longleftrightarrow>
     (\<forall>f c s. run env f c s = (fst (eff f c (model s)), s\<lparr>model := snd (eff f c (model s))\<rparr>)) \<and>
     (\<forall>f i m. snd (eff f (GetValue i) m) = m) \<and>
     (\<forall>s. check_url env s = (Inr (), s)) \<and> env_destroys env"

definition plain :: "'f fn \<Rightarrow> bool" where
  "plain f \<longleftrightarrow> (case f of UserFn _ \<Rightarrow> True | NoopFn \<Rightarrow> True | _ \<Rightarrow> False)"

text \<open>States that differ in the model, the memory of the watches and the records of calls only.\<close>

definition fixed_part :: "('m, 'v, 'f) rootscope \<Rightarrow> scope list \<times> nat \<times> string option \<times> (nat \<times> 'f fn) list \<times> 'f fn list \<times>
    (nat \<times> 'f fn) list \<times> ('f fn \<times> 'f fn) list" where
  "fixed_part s = (scopes s, TTL s, phase s, asyncQueue s, postDigestQueue s, applyAsyncQueue s,
     map (\<lambda>w. (w_get w, w_fn w)) (watches s))"

definition quiet_step :: "('m, 'v, 'f) rootscope \<Rightarrow> ('m, 'v, 'f) rootscope \<Rightarrow> bool" where
  "quiet_step s t \<longleftrightarrow> fixed_part t = fixed_part s \<and> watches t = watches s \<and> lastDirtyWatch t = lastDirtyWatch s"

lemma fixed_partD:
  assumes "fixed_part t = fixed_part s"
  shows "scopes t = scopes s" "TTL t = TTL s" "phase t = phase s" "asyncQueue t = asyncQueue s"
    "postDigestQueue t = postDigestQueue s" "applyAsyncQueue t = applyAsyncQueue s"
    "length (watches t) = length (watches s)"
    "w < length (watches s) \<Longrightarrow> w_get (watches t ! w) = w_get (watches s ! w)"
    "w < length (watches s) \<Longrightarrow> w_fn (watches t ! w) = w_fn (watches s ! w)"
proof -
  from assms have m: "map (\<lambda>w. (w_get w, w_fn w)) (watches t) = map (\<lambda>w. (w_get w, w_fn w)) (watches s)"
    and r: "scopes t = scopes s" "TTL t = TTL s" "phase t = phase s" "asyncQueue t = asyncQueue s"
    "postDigestQueue t = postDigestQueue s" "applyAsyncQueue t = applyAsyncQueue s"
    by (simp_all add: fixed_part_def)
  then show "scopes t = scopes s" "TTL t = TTL s" "phase t = phase s" "asyncQueue t = asyncQueue s"
    "postDigestQueue t = postDigestQueue s" "applyAsyncQueue t = applyAsyncQueue s" by simp_all
  show l: "length (watches t) = length (watches s)" using map_eq_imp_length_eq [OF m] .
  show "w_get (watches t ! w) = w_get (watches s ! w)" "w_fn (watches t ! w) = w_fn (watches s ! w)"
    if "w < length (watches s)"
    using arg_cong [OF m, of "\<lambda>l. l ! w"] that l by simp_all
qed

lemma call_quiet:
  assumes "quiet env eff" "plain f"
  shows "quiet_step s (snd (call_fn env f c s))"
    "model s = model s' \<Longrightarrow> fst (call_fn env f c s) = fst (call_fn env f c s')"
    "model (snd (call_fn env f (GetValue i) s)) = model s"
  using assms
  by (cases f; simp add: plain_def quiet_def call_user_def quiet_step_def fixed_part_def)+

lemma quiet_stepD:
  "quiet_step s t \<Longrightarrow> fixed_part t = fixed_part s \<and> watches t = watches s \<and> lastDirtyWatch t = lastDirtyWatch s"
  by (simp add: quiet_step_def)

lemma quiet_exception: "quiet_step s (exceptionHandler e s)" "model (exceptionHandler e s) = model s"
  by (simp_all add: quiet_step_def fixed_part_def exceptionHandler_def)

lemma exception_frame [simp]:
  "fixed_part (exceptionHandler e s) = fixed_part s" "lastDirtyWatch (exceptionHandler e s) = lastDirtyWatch s"
  by (simp_all add: fixed_part_def exceptionHandler_def)

lemma quiet_trans: "quiet_step s t \<Longrightarrow> quiet_step t u \<Longrightarrow> quiet_step s u"
  by (simp add: quiet_step_def)

section \<open>Checking a list of watches\<close>

text \<open>A watch whose value is what it was, or whose value cannot be computed.\<close>

definition clean :: "('m, 'v, 'f) scope_env \<Rightarrow> ('m, 'v, 'f) rootscope \<Rightarrow> nat \<times> nat \<Rightarrow> bool" where
  "clean env s iw = (case fst (call_fn env (w_get (watches s ! snd iw)) (GetValue (fst iw)) s) of
     Inl e \<Rightarrow> True | Inr v \<Rightarrow> \<not> changed env (model s) (watches s ! snd iw) v)"

fun scan ::
  "('m, 'v, 'f) scope_env \<Rightarrow> nat \<Rightarrow> (nat \<times> nat) list \<Rightarrow> bool \<Rightarrow> 'v watch_log \<Rightarrow> ('m, 'v, 'f) rootscope
    \<Rightarrow> bool \<times> bool \<times> 'v watch_log \<times> ('m, 'v, 'f) rootscope" where
  "scan env ttl [] dirty log s = (dirty, False, log, s)"
| "scan env ttl ((i, w) # ws) dirty log s =
    (case check_watch env ttl i w log s of
       (d, stop, log', t) \<Rightarrow> if stop then (False, True, log', t) else scan env ttl ws (dirty \<or> d) log' t)"

definition watch_ok :: "('m, 'v, 'f) rootscope \<Rightarrow> nat \<Rightarrow> bool" where
  "watch_ok s w \<longleftrightarrow> w < length (watches s) \<and> plain (w_get (watches s ! w)) \<and> plain (w_fn (watches s ! w))"

lemma watch_ok_fixed:
  assumes "fixed_part t = fixed_part s"
  shows "watch_ok t w = watch_ok s w"
  using fixed_partD(7-9) [OF assms] by (auto simp: watch_ok_def)

lemma clean_cong:
  assumes "quiet env eff" "watch_ok s (snd iw)" "watches t = watches s" "model t = model s"
  shows "clean env t iw = clean env s iw"
proof -
  have "fst (call_fn env (w_get (watches s ! snd iw)) (GetValue (fst iw)) t) =
      fst (call_fn env (w_get (watches s ! snd iw)) (GetValue (fst iw)) s)"
    using assms by (intro call_quiet(2)) (simp_all add: watch_ok_def)
  then show ?thesis by (simp add: clean_def assms(3,4) split: sum.split)
qed

lemma check_watch_quiet:
  assumes q: "quiet env eff" and w: "watch_ok s w" and run: "check_watch env ttl i w log s = (d, stop, log', t)"
  shows "fixed_part t = fixed_part s \<and>
    (if d then \<not> stop \<and> lastDirtyWatch t = Some w
     else watches t = watches s \<and> model t = model s \<and> lastDirtyWatch t = lastDirtyWatch s \<and> clean env s (i, w) \<and>
       (stop \<longrightarrow> lastDirtyWatch s = Some w))"
proof -
  let ?wt = "watches s ! w"
  obtain r u where g: "call_fn env (w_get ?wt) (GetValue i) s = (r, u)" by fastforce
  have pl: "plain (w_get ?wt)" "plain (w_fn ?wt)" and len: "w < length (watches s)" using w by (simp_all add: watch_ok_def)
  have u: "quiet_step s u" "model u = model s" "fst (call_fn env (w_get ?wt) (GetValue i) s) = r"
    using call_quiet(1,3) [OF q pl(1), where s = s] g by (metis snd_conv, metis snd_conv, simp)
  show ?thesis
  proof (cases r)
    case (Inl e)
    with run g have res: "d = False" "stop = False" "t = exceptionHandler e u" by (auto simp: check_watch_def)
    have "quiet_step s t" unfolding res by (rule quiet_trans [OF u(1) quiet_exception(1)])
    with res u Inl show ?thesis by (simp add: quiet_step_def clean_def quiet_exception(2))
  next
    case (Inr v)
    have wu: "watches u = watches s" using u(1) by (simp add: quiet_step_def)
    show ?thesis
    proof (cases "changed env (model s) ?wt v")
      case False
      with run g Inr wu u(2) have res: "d = False" "stop = (lastDirtyWatch u = Some w)" "t = u"
        by (auto simp add: check_watch_def Let_def)
      with u Inr False show ?thesis by (simp add: quiet_step_def clean_def)
    next
      case True
      let ?r = "remember env w v u"
      let ?old = "case w_last ?wt of None \<Rightarrow> v | Some old \<Rightarrow> old"
      obtain p x where f: "call_fn env (w_fn ?wt) (Changed v ?old i) ?r = (p, x)" by fastforce
      obtain v' m' where "(if w_eq (watches u ! w) then copy_value env (model u) v else (v, model u)) = (v', m')"
        by fastforce
      then have rem: "?r = u\<lparr>lastDirtyWatch := Some w, model := m', watches := (watches u)[w := (watches u ! w)\<lparr>w_last := Some v'\<rparr>]\<rparr>"
        by (simp add: remember_def)
      have "map (\<lambda>w. (w_get w, w_fn w)) (watches ?r) = map (\<lambda>w. (w_get w, w_fn w)) (watches u)"
        unfolding rem by (intro nth_equalityI) (auto simp: nth_update)
      then have r: "fixed_part ?r = fixed_part u" "lastDirtyWatch ?r = Some w"
        unfolding rem by (simp_all add: fixed_part_def)
      have "quiet_step ?r x" using call_quiet(1) [OF q pl(2)] f by (metis snd_conv)
      then have x: "fixed_part x = fixed_part s" "lastDirtyWatch x = Some w"
        using r u(1) by (simp_all add: quiet_step_def)
      show ?thesis
        using run g Inr wu u(2) True f x
        by (cases p) (auto simp: check_watch_def Let_def quiet_step_def)
    qed
  qed
qed

text \<open>
  The three ways a scan of different watches can end: stopped at the watch that was dirty
  last, with everything before it clean; through, with everything clean; or through, with a
  watch that is now the last dirty one and everything after it clean.
\<close>

lemma scan_quiet:
  assumes q: "quiet env eff"
  shows "\<lbrakk>scan env ttl ws dirty log s = (d, stop, log', t); distinct (map snd ws); \<forall>x \<in> set ws. watch_ok s (snd x)\<rbrakk> \<Longrightarrow>
    fixed_part t = fixed_part s \<and>
    (if stop then \<not> d \<and> watches t = watches s \<and> model t = model s \<and>
        (\<exists>pre x post. ws = pre @ x # post \<and> lastDirtyWatch s = Some (snd x) \<and> (\<forall>y \<in> set (pre @ [x]). clean env s y))
     else d = dirty \<and> watches t = watches s \<and> model t = model s \<and> lastDirtyWatch t = lastDirtyWatch s \<and> (\<forall>y \<in> set ws. clean env s y) \<or>
        d \<and> (\<exists>pre x post. ws = pre @ x # post \<and> lastDirtyWatch t = Some (snd x) \<and> (\<forall>y \<in> set post. clean env t y)))"
proof (induction ws arbitrary: dirty log s)
  case (Cons x ws)
  obtain i w where x: "x = (i, w)" by (cases x)
  obtain d1 stop1 log1 u where c: "check_watch env ttl i w log s = (d1, stop1, log1, u)" by (metis prod_cases4)
  have "watch_ok s w" using Cons.prems(3) x by simp
  note step = check_watch_quiet [OF q this c]
  then have fx: "fixed_part u = fixed_part s" by simp
  have oku: "\<forall>y \<in> set ws. watch_ok u (snd y)" using Cons.prems(3) by (simp add: watch_ok_fixed [OF fx])
  show ?case
  proof (cases stop1)
    case True
    with step have "\<not> d1" by auto
    with True Cons.prems(1) x c step show ?thesis
      by (auto intro!: exI [of _ "[]"])
  next
    case False
    with Cons.prems(1) x c have rest: "scan env ttl ws (dirty \<or> d1) log1 u = (d, stop, log', t)" by simp
    have dist: "distinct (map snd ws)" "w \<notin> set (map snd ws)" using Cons.prems(2) x by simp_all
    note IH = Cons.IH [OF rest dist(1) oku]
    show ?thesis
    proof (cases d1)
      case True
      with step have last: "lastDirtyWatch u = Some w" by simp
      have "\<not> stop"
      proof
        assume stop
        with IH obtain pre y post where "ws = pre @ y # post" "lastDirtyWatch u = Some (snd y)" by auto
        with last dist(2) show False by auto
      qed
      with IH fx True have t: "fixed_part t = fixed_part s" "d" and
        alt: "watches t = watches u \<and> model t = model u \<and> lastDirtyWatch t = lastDirtyWatch u \<and> (\<forall>y \<in> set ws. clean env u y) \<or>
          (\<exists>pre x post. ws = pre @ x # post \<and> lastDirtyWatch t = Some (snd x) \<and> (\<forall>y \<in> set post. clean env t y))"
        by auto
      from alt have "\<exists>pre z post. x # ws = pre @ z # post \<and> lastDirtyWatch t = Some (snd z) \<and> (\<forall>y \<in> set post. clean env t y)"
      proof
        assume a: "watches t = watches u \<and> model t = model u \<and> lastDirtyWatch t = lastDirtyWatch u \<and> (\<forall>y \<in> set ws. clean env u y)"
        then have "\<forall>y \<in> set ws. clean env t y" using clean_cong [OF q] oku by blast
        with a last x show ?thesis by (intro exI [of _ "[]"] exI [of _ x] exI [of _ ws]) simp
      next
        assume "\<exists>pre x post. ws = pre @ x # post \<and> lastDirtyWatch t = Some (snd x) \<and> (\<forall>y \<in> set post. clean env t y)"
        then obtain pre z post where "ws = pre @ z # post" "lastDirtyWatch t = Some (snd z)" "\<forall>y \<in> set post. clean env t y" by blast
        then show ?thesis by (intro exI [of _ "x # pre"] exI [of _ z] exI [of _ post]) simp
      qed
      with t \<open>\<not> stop\<close> show ?thesis by simp
    next
      case notd: False
      with step have same: "watches u = watches s" "model u = model s" "lastDirtyWatch u = lastDirtyWatch s" "clean env s x"
        using x by simp_all
      have eq: "clean env u y = clean env s y" if "y \<in> set ws" for y
        using clean_cong [OF q _ same(1,2), of y] Cons.prems(3) that by simp
      show ?thesis
      proof (cases stop)
        case True
        with IH obtain pre z post where z: "ws = pre @ z # post" "lastDirtyWatch u = Some (snd z)" "\<forall>y \<in> set (pre @ [z]). clean env u y"
          by auto
        then have "x # ws = (x # pre) @ z # post \<and> lastDirtyWatch s = Some (snd z) \<and> (\<forall>y \<in> set ((x # pre) @ [z]). clean env s y)"
          using same eq by auto
        with True IH fx same show ?thesis by (simp only: if_True) metis
      next
        case False
        with IH fx same notd have t: "fixed_part t = fixed_part s" and
          alt: "d = dirty \<and> watches t = watches s \<and> model t = model s \<and> lastDirtyWatch t = lastDirtyWatch s \<and> (\<forall>y \<in> set ws. clean env u y) \<or>
            d \<and> (\<exists>pre x post. ws = pre @ x # post \<and> lastDirtyWatch t = Some (snd x) \<and> (\<forall>y \<in> set post. clean env t y))"
          by auto
        from alt show ?thesis
        proof
          assume "d = dirty \<and> watches t = watches s \<and> model t = model s \<and> lastDirtyWatch t = lastDirtyWatch s \<and> (\<forall>y \<in> set ws. clean env u y)"
          with t False eq same(4) show ?thesis by simp
        next
          assume "d \<and> (\<exists>pre x post. ws = pre @ x # post \<and> lastDirtyWatch t = Some (snd x) \<and> (\<forall>y \<in> set post. clean env t y))"
          then obtain pre z post where "d" "x # ws = (x # pre) @ z # post" "lastDirtyWatch t = Some (snd z)" "\<forall>y \<in> set post. clean env t y" by auto
          with t False show ?thesis by (simp only: if_False) blast
        qed
      qed
    qed
  qed
qed simp

section \<open>The walk checks a list of watches\<close>

lemma scan_append:
  "scan env ttl (xs @ ys) dirty log s =
    (case scan env ttl xs dirty log s of (d, stop, log', t) \<Rightarrow> if stop then (d, True, log', t) else scan env ttl ys d log' t)"
proof (induction xs arbitrary: dirty log s)
  case (Cons x xs)
  obtain i w where x: "x = (i, w)" by (cases x)
  obtain d1 stop1 log1 u where c: "check_watch env ttl i w log s = (d1, stop1, log1, u)" by (metis prod_cases4)
  with Cons x show ?case by simp
qed simp

lemma scan_fixed:
  assumes "quiet env eff"
  shows "\<forall>x \<in> set ws. watch_ok s (snd x) \<Longrightarrow> scan env ttl ws dirty log s = (d, stop, log', t) \<Longrightarrow> fixed_part t = fixed_part s"
proof (induction ws arbitrary: dirty log s)
  case (Cons x ws)
  obtain i w where x: "x = (i, w)" by (cases x)
  obtain d1 stop1 log1 u where c: "check_watch env ttl i w log s = (d1, stop1, log1, u)" by (metis prod_cases4)
  have "watch_ok s w" using Cons.prems x by simp
  from check_watch_quiet [OF assms this c] have fx: "fixed_part u = fixed_part s" by simp
  then have oku: "\<forall>y \<in> set ws. watch_ok u (snd y)" using Cons.prems(1) by (simp add: watch_ok_fixed [OF fx])
  show ?case
  proof (cases stop1)
    case True
    with Cons.prems(2) x c fx show ?thesis by simp
  next
    case False
    with Cons.prems(2) x c have "scan env ttl ws (dirty \<or> d1) log1 u = (d, stop, log', t)" by simp
    from Cons.IH [OF oku this] fx show ?thesis by simp
  qed
qed simp

lemma check_watchers_scan:
  assumes q: "quiet env eff"
  shows "\<lbrakk>k \<le> length (watchers (scopes s ! cur)); \<forall>w \<in> set (watchers (scopes s ! cur)). watch_ok s w\<rbrakk> \<Longrightarrow>
    check_watchers env ttl cur k dirty log s = scan env ttl (map (Pair cur) (rev (take k (watchers (scopes s ! cur))))) dirty log s"
proof (induction k arbitrary: dirty log s)
  case (Suc k)
  let ?ws = "watchers (scopes s ! cur)"
  from Suc.prems have k: "k < length ?ws" by simp
  then have t: "rev (take (Suc k) ?ws) = ?ws ! k # rev (take k ?ws)" by (simp add: take_Suc_conv_app_nth)
  obtain d1 stop1 log1 u where c: "check_watch env ttl cur (?ws ! k) log s = (d1, stop1, log1, u)" by (metis prod_cases4)
  have "watch_ok s (?ws ! k)" using Suc.prems k by simp
  from check_watch_quiet [OF q this c] have fx: "fixed_part u = fixed_part s" by simp
  then have "scopes u = scopes s" by (rule fixed_partD)
  with Suc.IH [of u "dirty \<or> d1" log1] Suc.prems k t c watch_ok_fixed [OF fx] show ?case by simp
qed simp

definition seen :: "scope list \<Rightarrow> nat \<Rightarrow> (nat \<times> nat) list" where
  "seen ss i = map (Pair i) (rev (if cleared (ss ! i) then [] else watchers (ss ! i)))"

definition watch_order :: "scope list \<Rightarrow> nat list \<Rightarrow> (nat \<times> nat) list" where
  "watch_order ss xs = concat (map (seen ss) xs)"

lemma traverse_scan:
  assumes q: "quiet env eff"
  shows "\<lbrakk>walks_to (\<lambda>c. next_scope (scopes s) (watchersCount (scopes s ! c) \<noteq> 0) target c) xs (Inr None);
      length xs \<le> fuel; \<forall>x \<in> set (watch_order (scopes s) xs). watch_ok s (snd x)\<rbrakk> \<Longrightarrow>
    traverse fuel env ttl target (hd xs) dirty log s =
      (case scan env ttl (watch_order (scopes s) xs) dirty log s of (d, stop, log', t) \<Rightarrow> Some (Inr d, log', t))"
proof (induction xs arbitrary: fuel dirty log s)
  case (Cons x xs)
  from Cons.prems(2) obtain n where n: "fuel = Suc n" "length xs \<le> n" by (cases fuel) auto
  have okseen: "\<forall>y \<in> set (seen (scopes s) x). watch_ok s (snd y)"
    using Cons.prems(3) by (simp add: watch_order_def)
  then have ok: "\<forall>w \<in> set (if cleared (scopes s ! x) then [] else watchers (scopes s ! x)). watch_ok s w"
    by (simp add: seen_def)
  obtain d stop log1 u where here: "scan env ttl (seen (scopes s) x) dirty log s = (d, stop, log1, u)" by (metis prod_cases4)
  have visit: "(if cleared (scopes s ! x) then (dirty, False, log, s)
      else check_watchers env ttl x (length (watchers (scopes s ! x))) dirty log s) = (d, stop, log1, u)"
    using here ok check_watchers_scan [OF q, of "length (watchers (scopes s ! x))" s x] by (auto simp: seen_def)
  from scan_fixed [OF q okseen here] have fx: "fixed_part u = fixed_part s" .
  then have ss: "scopes u = scopes s" by (rule fixed_partD)
  have okx: "\<forall>y \<in> set (watch_order (scopes u) xs). watch_ok u (snd y)"
    using Cons.prems(3) by (auto simp: ss watch_ok_fixed [OF fx] watch_order_def)
  show ?case
  proof (cases xs)
    case Nil
    with Cons.prems(1) visit here n ss show ?thesis
      by (auto simp: watch_order_def split: prod.split)
  next
    case (Cons y ys)
    with Cons.prems(1) have nx: "next_scope (scopes s) (watchersCount (scopes s ! x) \<noteq> 0) target x = Inr (Some y)"
      and w: "walks_to (\<lambda>c. next_scope (scopes u) (watchersCount (scopes u ! c) \<noteq> 0) target c) xs (Inr None)"
      by (simp_all add: ss)
    from Cons.IH [OF w n(2) okx, of d log1] have "traverse n env ttl target y d log1 u =
        (case scan env ttl (watch_order (scopes s) xs) d log1 u of (d, stop, log', t) \<Rightarrow> Some (Inr d, log', t))"
      by (simp add: ss Cons)
    moreover have "watch_order (scopes s) (x # xs) = seen (scopes s) x @ watch_order (scopes s) xs" by (simp add: watch_order_def)
    ultimately show ?thesis using visit here nx n ss by (simp add: scan_append)
  qed
qed simp

section \<open>Rounds\<close>

lemma split_unique:
  assumes "distinct (map f xs)" "xs = pre @ x # post" "xs = pre' @ x' # post'" "f x = f x'"
  shows "pre = pre' \<and> x = x' \<and> post = post'"
proof -
  have x: "xs ! length pre = x" "xs ! length pre' = x'" "length pre < length xs" "length pre' < length xs"
    by (simp add: assms(2), simp add: assms(3), simp add: assms(2), simp add: assms(3))
  then have "map f xs ! length pre = map f xs ! length pre'" using assms(4) by simp
  then have "length pre = length pre'"
    using nth_eq_iff_index_eq [OF assms(1), of "length pre" "length pre'"] x by simp
  then show ?thesis using assms(2,3) by simp
qed

text \<open>One round whose queue is empty, as a scan.\<close>

definition watches_of :: "scope list \<Rightarrow> nat \<Rightarrow> (nat \<times> nat) list" where
  "watches_of ss target = watch_order ss (preorder (\<lambda>c. watchersCount (ss ! c) \<noteq> 0) ss target)"

lemma round_scan:
  assumes q: "quiet env eff" and ok: "links_ok (scopes s)" "tree_ok (scopes s)" "target < length (scopes s)"
    and fuel: "length (scopes s) \<le> fuel" and ws: "\<forall>x \<in> set (watches_of (scopes s) target). watch_ok s (snd x)"
  shows "traverse fuel env ttl target target dirty log s =
    (case scan env ttl (watches_of (scopes s) target) dirty log s of (d, stop, log', t) \<Rightarrow> Some (Inr d, log', t))"
proof -
  let ?into = "\<lambda>c. watchersCount (scopes s ! c) \<noteq> 0"
  note walk = walk_from_target [OF ok, of ?into]
  have "length (preorder ?into (scopes s) target) \<le> fuel" using preorder_length [OF ok, of ?into] fuel by simp
  from traverse_scan [OF q walk this] ws show ?thesis by (simp add: watches_of_def)
qed

lemma empty_drain: "asyncQueue s = [] \<Longrightarrow> drain_async n env s = Some s"
  by (simp add: drain_async.simps)

text \<open>What is known before a round: all watches after the last dirty one are clean.\<close>

definition after_last_clean :: "('m, 'v, 'f) scope_env \<Rightarrow> (nat \<times> nat) list \<Rightarrow> ('m, 'v, 'f) rootscope \<Rightarrow> bool" where
  "after_last_clean env ws s \<longleftrightarrow> lastDirtyWatch s = None \<or>
     (\<exists>pre x post. ws = pre @ x # post \<and> lastDirtyWatch s = Some (snd x) \<and> (\<forall>y \<in> set post. clean env s y))"

definition round_ready :: "('m, 'v, 'f) scope_env \<Rightarrow> scope list \<Rightarrow> nat \<Rightarrow> ('m, 'v, 'f) rootscope \<Rightarrow> bool" where
  "round_ready env ss target s \<longleftrightarrow> scopes s = ss \<and> asyncQueue s = [] \<and>
     (\<forall>x \<in> set (watches_of ss target). watch_ok s (snd x)) \<and> after_last_clean env (watches_of ss target) s"

definition rounds_done :: "('m, 'v, 'f) scope_env \<Rightarrow> (nat \<times> nat) list \<Rightarrow> ('m, 'v, 'f) rootscope
    \<Rightarrow> ((js_error + unit) \<times> ('m, 'v, 'f) rootscope) option \<Rightarrow> bool" where
  "rounds_done env ws s result \<longleftrightarrow> (\<exists>r t. result = Some (r, t) \<and>
     (r = Inr () \<and> fixed_part t = fixed_part s \<and> (\<forall>x \<in> set ws. clean env t x) \<or>
      (\<exists>l. r = Inl (infdig_error env (TTL s) l) \<and> phase t = None)))"

lemma round_step:
  assumes q: "quiet env eff" and ok: "links_ok ss" "tree_ok ss" "target < length ss" and fuel: "length ss \<le> fuel"
    and dist: "distinct (map snd (watches_of ss target))"
    and ready: "round_ready env ss target s"
    and IH: "\<And>k u l. ttl = Suc k \<Longrightarrow> round_ready env ss target u \<Longrightarrow>
        rounds_done env (watches_of ss target) u (digest_rounds fuel env target k l u)"
  shows "rounds_done env (watches_of ss target) s (digest_rounds fuel env target ttl log s)"
proof -
  have s: "scopes s = ss" "asyncQueue s = []" and ws: "\<forall>x \<in> set (watches_of ss target). watch_ok s (snd x)"
    and last: "after_last_clean env (watches_of ss target) s"
    using ready by (simp_all add: round_ready_def)
  let ?W = "watches_of ss target"
  obtain d stop log' t where sc: "scan env ttl ?W False log s = (d, stop, log', t)" by (metis prod_cases4)
  have tr: "traverse fuel env ttl target target False log s = Some (Inr d, log', t)"
    using round_scan [OF q, of s target fuel ttl False log] s ok fuel ws sc by simp
  note out = scan_quiet [OF q sc dist ws]
  then have fx: "fixed_part t = fixed_part s" by simp
  have st: "scopes t = ss" "asyncQueue t = []" "TTL t = TTL s" "phase t = phase s"
    using fixed_partD [OF fx] s by simp_all
  have wt: "\<forall>x \<in> set ?W. watch_ok t (snd x)" using ws by (simp add: watch_ok_fixed [OF fx])
  have settled: "\<forall>x \<in> set ?W. clean env t x" if "\<not> d"
  proof (cases stop)
    case True
    with out obtain pre x post where x: "?W = pre @ x # post" "lastDirtyWatch s = Some (snd x)"
      "\<forall>y \<in> set (pre @ [x]). clean env s y" and same: "watches t = watches s" "model t = model s" by auto
    from last x(2) obtain pre' x' post' where x': "?W = pre' @ x' # post'" "snd x' = snd x" "\<forall>y \<in> set post'. clean env s y"
      by (auto simp: after_last_clean_def)
    from split_unique [OF dist x(1) x'(1)] x'(2) have "post' = post" by simp
    with x x'(3) have "\<forall>y \<in> set ?W. clean env s y" by auto
    with ws same show ?thesis using clean_cong [OF q] by blast
  next
    case False
    with out that have a: "watches t = watches s \<and> model t = model s" "\<forall>y \<in> set ?W. clean env s y" by auto
    with ws show ?thesis using clean_cong [OF q] by blast
  qed
  have "after_last_clean env ?W t" if d
    using out that by (cases stop) (auto simp: after_last_clean_def)
  then have ready': "round_ready env ss target t" if d using that st wt by (simp add: round_ready_def)
  note unf = digest_rounds.simps [of fuel env target ttl log s]
  show ?thesis
  proof (cases d)
    case False
    with s tr st settled fx show ?thesis by (simp add: unf empty_drain rounds_done_def)
  next
    case True
    show ?thesis
    proof (cases ttl)
      case 0
      with True s tr st have "digest_rounds fuel env target ttl log s = Some (Inl (infdig_error env (TTL s) log'), clearPhase t)"
        unfolding unf by (simp add: empty_drain)
      then show ?thesis by (auto simp: rounds_done_def clearPhase_def)
    next
      case (Suc k)
      then have "digest_rounds fuel env target ttl log s = digest_rounds fuel env target k log' t"
        unfolding unf using True s tr st by (simp add: empty_drain)
      with IH [OF Suc ready' [OF True], of log'] fx st(3) show ?thesis by (simp add: rounds_done_def)
    qed
  qed
qed

lemma rounds_settle:
  assumes "quiet env eff" "links_ok ss" "tree_ok ss" "target < length ss" "length ss \<le> fuel"
    and "distinct (map snd (watches_of ss target))"
  shows "round_ready env ss target s \<Longrightarrow>
    rounds_done env (watches_of ss target) s (digest_rounds fuel env target ttl log s)"
proof (induction ttl arbitrary: s log)
  case 0
  then show ?case by (rule round_step [OF assms]) simp
next
  case (Suc ttl)
  show ?case by (rule round_step [OF assms Suc.prems]) (metis Suc.IH nat.inject)
qed

section \<open>The queues\<close>

lemma try_quiet:
  assumes "quiet env eff" "plain f"
  shows "quiet_step s (try_call env f c s)"
  using call_quiet(1) [OF assms, of s c]
  by (cases "call_fn env f c s") (auto simp: try_call_def intro: quiet_trans [OF _ quiet_exception(1)] split: sum.split)

lemma drain_async_quiet:
  assumes q: "quiet env eff"
  shows "\<lbrakk>\<forall>x \<in> set (asyncQueue s). plain (snd x); length (asyncQueue s) \<le> n; lastDirtyWatch s = None\<rbrakk> \<Longrightarrow>
    \<exists>t. drain_async n env s = Some t \<and> fixed_part t = fixed_part (s\<lparr>asyncQueue := []\<rparr>) \<and> lastDirtyWatch t = None"
proof (induction n arbitrary: s)
  case 0
  then show ?case by (simp add: empty_drain fixed_part_def)
next
  case (Suc n)
  show ?case
  proof (cases "asyncQueue s")
    case Nil
    with Suc.prems show ?thesis by (intro exI [of _ s]) (simp add: empty_drain fixed_part_def)
  next
    case (Cons x qs)
    obtain i f where x: "x = (i, f)" by (cases x)
    let ?u = "(try_call env f (Evaluate i) (s\<lparr>asyncQueue := qs\<rparr>))\<lparr>lastDirtyWatch := None\<rparr>"
    have "plain f" using Suc.prems(1) Cons x by simp
    then have fx: "fixed_part ?u = fixed_part (s\<lparr>asyncQueue := qs\<rparr>)"
      using try_quiet [OF q, of f "s\<lparr>asyncQueue := qs\<rparr>" "Evaluate i"] by (simp add: quiet_step_def fixed_part_def)
    have qu: "asyncQueue ?u = qs" using fixed_partD(4) [OF fx] by simp
    have eq: "fixed_part (?u\<lparr>asyncQueue := []\<rparr>) = fixed_part (s\<lparr>asyncQueue := []\<rparr>)"
      using fx by (simp add: fixed_part_def)
    have "\<exists>t. drain_async n env ?u = Some t \<and> fixed_part t = fixed_part (?u\<lparr>asyncQueue := []\<rparr>) \<and> lastDirtyWatch t = None"
      using Suc.prems Cons by (intro Suc.IH) (simp_all add: qu)
    moreover have "drain_async (Suc n) env s = drain_async n env ?u"
      using Cons x by (simp add: drain_async.simps [of "Suc n"])
    ultimately show ?thesis by (simp only: eq)
  qed
qed

lemma drain_apply_quiet:
  assumes q: "quiet env eff"
  shows "\<lbrakk>\<forall>x \<in> set (applyAsyncQueue s). plain (snd x); length (applyAsyncQueue s) \<le> n\<rbrakk> \<Longrightarrow>
    \<exists>t. drain_apply n env s = Some t \<and> fixed_part t = fixed_part (s\<lparr>applyAsyncQueue := []\<rparr>)"
proof (induction n arbitrary: s)
  case 0
  then show ?case by (intro exI [of _ s]) (simp add: drain_apply.simps fixed_part_def)
next
  case (Suc n)
  show ?case
  proof (cases "applyAsyncQueue s")
    case Nil
    then show ?thesis by (intro exI [of _ s]) (simp add: drain_apply.simps fixed_part_def)
  next
    case (Cons x qs)
    obtain i f where x: "x = (i, f)" by (cases x)
    let ?u = "try_call env f (Evaluate i) (s\<lparr>applyAsyncQueue := qs\<rparr>)"
    have "plain f" using Suc.prems(1) Cons x by simp
    then have fx: "fixed_part ?u = fixed_part (s\<lparr>applyAsyncQueue := qs\<rparr>)"
      using try_quiet [OF q, of f "s\<lparr>applyAsyncQueue := qs\<rparr>" "Evaluate i"] by (simp add: quiet_step_def)
    have qu: "applyAsyncQueue ?u = qs" using fixed_partD(6) [OF fx] by simp
    have eq: "fixed_part (?u\<lparr>applyAsyncQueue := []\<rparr>) = fixed_part (s\<lparr>applyAsyncQueue := []\<rparr>)"
      using fx by (simp add: fixed_part_def)
    have "\<exists>t. drain_apply n env ?u = Some t \<and> fixed_part t = fixed_part (?u\<lparr>applyAsyncQueue := []\<rparr>)"
      using Suc.prems Cons by (intro Suc.IH) (simp_all add: qu)
    moreover have "drain_apply (Suc n) env s = drain_apply n env ?u"
      using Cons x by (simp add: drain_apply.simps [of "Suc n"])
    ultimately show ?thesis by (simp only: eq)
  qed
qed

section \<open>The whole digest\<close>

lemma watches_of_distinct:
  assumes inv: "scope_inv s" and i: "i < length (scopes s)"
  shows "distinct (map snd (watches_of (scopes s) i))"
proof -
  let ?xs = "preorder (\<lambda>c. watchersCount (scopes s ! c) \<noteq> 0) (scopes s) i"
  note parts = scope_invD [OF inv]
  have xs: "distinct ?xs" "set ?xs \<subseteq> {..<length (scopes s)}"
    using preorder_below [OF parts(2,1) i] by (auto simp: below_def)
  have one: "map snd (seen (scopes s) k) = rev (if cleared (scopes s ! k) then [] else watchers (scopes s ! k))" for k
    by (simp add: seen_def comp_def)
  have "distinct (map snd (watch_order (scopes s) ys))" if "distinct ys" "set ys \<subseteq> {..<length (scopes s)}" for ys
    using that
  proof (induction ys)
    case (Cons y ys)
    have "set (watchers (scopes s ! y)) \<inter> set (watchers (scopes s ! k)) = {}" if "k \<in> set ys" for k
      using parts(3) Cons.prems that unfolding watches_ok_def by (metis insert_iff lessThan_iff list.set(2) subsetD distinct.simps(2))
    moreover have "distinct (watchers (scopes s ! y))" using parts(3) Cons.prems by (simp add: watches_ok_def)
    ultimately show ?case using Cons by (auto simp: watch_order_def one split: if_splits) (auto simp: seen_def split: if_splits)
  qed (simp add: watch_order_def)
  with xs show ?thesis by (simp add: watches_of_def)
qed

lemma watches_of_covers:
  assumes inv: "scope_inv s" and i: "attached (scopes s) i" and j: "j \<in> below (scopes s) i" "w \<in> set (watchers (scopes s ! j))"
  shows "(j, w) \<in> set (watches_of (scopes s) i)"
proof -
  let ?into = "\<lambda>c. watchersCount (scopes s ! c) \<noteq> 0"
  note parts = scope_invD [OF inv]
  have "j \<in> set (preorder ?into (scopes s) i)"
  proof (rule preorder_covers [OF parts(2,1), where wt = "watched s"])
    show "(\<Sum>j \<in> below (scopes s) k. watched s j) = 0" if "attached (scopes s) k" "\<not> ?into k" for k
      using counts_okD(2) [OF parts(5) that(1)] that(2) by simp
    show "watched s j \<noteq> 0" using j(2) by (auto simp: watched_def)
  qed (simp_all add: watched_def i j)
  moreover have "(j, w) \<in> set (seen (scopes s) j)"
    using j(2) below_alive(2) [OF parts(1) i j(1)] by (simp add: seen_def)
  ultimately show ?thesis by (auto simp: watches_of_def watch_order_def)
qed

text \<open>A state in which everything waiting or watched is a function of the application.\<close>

definition plain_state :: "('m, 'v, 'f) rootscope \<Rightarrow> bool" where
  "plain_state s \<longleftrightarrow> (\<forall>w < length (watches s). plain (w_get (watches s ! w)) \<and> plain (w_fn (watches s ! w))) \<and>
     (\<forall>x \<in> set (asyncQueue s). plain (snd x)) \<and> (\<forall>x \<in> set (applyAsyncQueue s). plain (snd x)) \<and>
     postDigestQueue s = []"

lemma watches_of_ok:
  assumes "scope_inv s" "i < length (scopes s)" "plain_state s" "x \<in> set (watches_of (scopes s) i)"
  shows "watch_ok s (snd x)"
proof -
  note parts = scope_invD [OF assms(1)]
  from assms(4) obtain k where k: "k \<in> set (preorder (\<lambda>c. watchersCount (scopes s ! c) \<noteq> 0) (scopes s) i)" "x \<in> set (seen (scopes s) k)"
    by (auto simp: watches_of_def watch_order_def)
  then have "k < length (scopes s)" using preorder_below [OF parts(2,1) assms(2)] by (auto simp: below_def)
  moreover have "snd x \<in> set (watchers (scopes s ! k))" using k(2) by (auto simp: seen_def split: if_splits)
  ultimately have "snd x < length (watches s)" using parts(3) by (simp add: watches_ok_def)
  with assms(3) show ?thesis by (simp add: watch_ok_def plain_state_def)
qed

text \<open>What a digest does before its first round: flushing at the root scope, and draining.\<close>

lemma flush_before_digest:
  assumes "quiet env eff" and "plain_state s" and "length (applyAsyncQueue s) \<le> fuel" and b: "b = s\<lparr>phase := p\<rparr>"
  shows "\<exists>u. (case (if i = 0 then applyAsyncId b else None) of None \<Rightarrow> Some b
      | Some k \<Rightarrow> flushApplyAsync fuel env (b\<lparr>timers := adel k (timers b)\<rparr>)) = Some u \<and>
    (fixed_part u = fixed_part b \<or> fixed_part u = fixed_part (b\<lparr>applyAsyncQueue := []\<rparr>))"
proof (cases "if i = 0 then applyAsyncId b else None")
  case None
  then show ?thesis by simp
next
  case (Some k)
  let ?c = "b\<lparr>timers := adel k (timers b)\<rparr>"
  have "\<exists>t. drain_apply fuel env ?c = Some t \<and> fixed_part t = fixed_part (?c\<lparr>applyAsyncQueue := []\<rparr>)"
    using assms(2-4) by (intro drain_apply_quiet [OF assms(1)]) (simp_all add: plain_state_def)
  with Some show ?thesis by (auto simp: flushApplyAsync_def fixed_part_def)
qed

lemma drain_before_rounds:
  assumes inv: "scope_inv s" "attached (scopes s) i" and quiet: "quiet env eff" and plain: "plain_state s"
    and len: "length (asyncQueue s) \<le> fuel"
    and u: "fixed_part u = fixed_part (s\<lparr>phase := p\<rparr>) \<or> fixed_part u = fixed_part (s\<lparr>phase := p, applyAsyncQueue := []\<rparr>)"
  shows "\<exists>w. drain_async fuel env (u\<lparr>lastDirtyWatch := None\<rparr>) = Some w \<and> round_ready env (scopes s) i w \<and>
    TTL w = TTL s \<and> scopes w = scopes s \<and> asyncQueue w = [] \<and> postDigestQueue w = [] \<and> (\<forall>k. watch_ok w k = watch_ok s k)"
proof -
  let ?v = "u\<lparr>lastDirtyWatch := None\<rparr>"
  from u have v: "scopes ?v = scopes s" "TTL ?v = TTL s" "asyncQueue ?v = asyncQueue s" "postDigestQueue ?v = postDigestQueue s"
    "map (\<lambda>w. (w_get w, w_fn w)) (watches ?v) = map (\<lambda>w. (w_get w, w_fn w)) (watches s)"
    by (auto simp: fixed_part_def)
  have "\<exists>w. drain_async fuel env ?v = Some w \<and> fixed_part w = fixed_part (?v\<lparr>asyncQueue := []\<rparr>) \<and> lastDirtyWatch w = None"
    using plain len by (intro drain_async_quiet [OF quiet]) (use v in \<open>simp_all add: plain_state_def\<close>)
  then obtain w where w: "drain_async fuel env ?v = Some w" "fixed_part w = fixed_part (?v\<lparr>asyncQueue := []\<rparr>)"
    "lastDirtyWatch w = None" by blast
  have ws: "scopes w = scopes s" "TTL w = TTL s" "asyncQueue w = []" "postDigestQueue w = []"
    "map (\<lambda>w. (w_get w, w_fn w)) (watches w) = map (\<lambda>w. (w_get w, w_fn w)) (watches s)"
    using w(2) v plain by (simp_all add: fixed_part_def plain_state_def)
  have ok: "watch_ok w k = watch_ok s k" for k
    using watch_ok_fixed [of w "s\<lparr>TTL := TTL w, phase := phase w, asyncQueue := asyncQueue w,
        postDigestQueue := postDigestQueue w, applyAsyncQueue := applyAsyncQueue w\<rparr>" k] ws
    by (simp add: fixed_part_def watch_ok_def)
  then have "round_ready env (scopes s) i w"
    using ws w(3) watches_of_ok [OF inv(1) attached_less [OF inv(2)] plain] by (simp add: round_ready_def after_last_clean_def)
  with w(1) ws ok show ?thesis by auto
qed

text \<open>
  C26. A digest of functions that touch the model only always ends, with bounds on its loops
  given by the number of scopes and of queued tasks, and with the phase cleared: either it
  throws the error that the model did not settle in \<open>TTL\<close> rounds, or every watch at and
  below its target has the value it had when it was last looked at. So neither leaving out
  subtrees by their count nor stopping at the last dirty watch misses a change.
\<close>

theorem digest_settles:
  assumes "scope_inv s" and "attached (scopes s) i" and "\<not> is_disabled s i" and "phase s = None"
    and "quiet env eff" and "plain_state s"
    and "length (scopes s) + length (asyncQueue s) + length (applyAsyncQueue s) \<le> fuel"
  shows "\<exists>r t. s_digest fuel env i s = Some (r, t) \<and> phase t = None \<and>
    (r = Inr () \<and> (\<forall>j \<in> below (scopes s) i. \<forall>w \<in> set (watchers (scopes s ! j)). clean env t (j, w)) \<or>
     (\<exists>log. r = Inl (infdig_error env (TTL s) log)))"
proof -
  note parts = scope_invD [OF assms(1)] and i = attached_less [OF assms(2)]
  let ?b = "s\<lparr>phase := Some ''$digest''\<rparr>" and ?W = "watches_of (scopes s) i"
  have started: "seqM (beginPhase ''$digest'') (check_url env) s = (Inr (), ?b)"
    using assms(4,5) by (simp add: seqM_def bindM_def beginPhase_def quiet_def)
  obtain u where u: "(case (if i = 0 then applyAsyncId ?b else None) of None \<Rightarrow> Some ?b
      | Some k \<Rightarrow> flushApplyAsync fuel env (?b\<lparr>timers := adel k (timers ?b)\<rparr>)) = Some u"
    "fixed_part u = fixed_part ?b \<or> fixed_part u = fixed_part (?b\<lparr>applyAsyncQueue := []\<rparr>)"
    using flush_before_digest [OF assms(5,6) _ refl, where i = i and fuel = fuel] assms(7) by fastforce
  let ?v = "u\<lparr>lastDirtyWatch := None\<rparr>"
  obtain w where w: "drain_async fuel env ?v = Some w" "round_ready env (scopes s) i w"
    and ws: "TTL w = TTL s" "scopes w = scopes s" "asyncQueue w = []" "postDigestQueue w = []" "\<And>k. watch_ok w k = watch_ok s k"
    using drain_before_rounds [OF assms(1,2,5,6) _ u(2), where fuel = fuel] assms(7) by auto
  have "rounds_done env ?W w (digest_rounds fuel env i (TTL s) [] w)"
    using w(2) assms(7) by (intro rounds_settle [OF assms(5) parts(2,1) i] watches_of_distinct [OF assms(1) i]) simp_all
  moreover have "digest_rounds fuel env i (TTL s) [] ?v = digest_rounds fuel env i (TTL s) [] w"
    using w(1) by (subst (1 2) digest_rounds.simps) (simp add: empty_drain ws)
  ultimately obtain r t where rt: "digest_rounds fuel env i (TTL s) [] ?v = Some (r, t)"
    "r = Inr () \<and> fixed_part t = fixed_part w \<and> (\<forall>x \<in> set ?W. clean env t x) \<or> (\<exists>l. r = Inl (infdig_error env (TTL s) l) \<and> phase t = None)"
    using ws(1) by (auto simp: rounds_done_def)
  have dig: "s_digest fuel env i s = (case r of Inl e \<Rightarrow> Some (Inl e, t)
     | Inr _ \<Rightarrow> (case drain_post fuel env (clearPhase t) of None \<Rightarrow> None | Some x \<Rightarrow> Some (Inr (), x)))"
    using assms(3) started u(1) rt(1) by (simp add: s_digest_def)
  from rt(2) show ?thesis
  proof
    assume a: "r = Inr () \<and> fixed_part t = fixed_part w \<and> (\<forall>x \<in> set ?W. clean env t x)"
    then have "postDigestQueue t = []" using fixed_partD(5) ws(4) by metis
    then have post: "drain_post fuel env (clearPhase t) = Some (clearPhase t)" by (simp add: drain_post.simps clearPhase_def)
    have tw: "watch_ok t (snd x)" if "x \<in> set ?W" for x
      using a watch_ok_fixed [of t w] ws(5) watches_of_ok [OF assms(1) i assms(6) that] by blast
    have "clean env (clearPhase t) x" if "x \<in> set ?W" for x
      using clean_cong [OF assms(5) tw [OF that], of "clearPhase t"] a that by (simp add: clearPhase_def)
    with a dig post watches_of_covers [OF assms(1,2)] show ?thesis by (auto simp: clearPhase_def)
  qed (use dig in auto)
qed

section \<open>A model that settles\<close>

definition counting :: "nat \<Rightarrow> nat call \<Rightarrow> nat \<Rightarrow> (js_error + nat) \<times> nat" where
  "counting f c m = (case c of GetValue _ \<Rightarrow> (Inr m, m) | Changed _ _ _ \<Rightarrow> (Inr 0, min 3 (Suc m)) | _ \<Rightarrow> (Inr 0, m))"

definition counting_env :: "(nat, nat, nat) scope_env" where
  "counting_env = \<lparr>run = (\<lambda>f c s. (fst (counting f c (model s)), s\<lparr>model := snd (counting f c (model s))\<rparr>)),
     strict_eq = (=), deep_eq = (\<lambda>m. (=)), is_nan = (\<lambda>v. False), copy_value = (\<lambda>m v. (v, m)), undef = 0,
     log_text = (\<lambda>l. []), check_url = (\<lambda>s. (Inr (), s)), application_destroyed = (\<lambda>s. s)\<rparr>"

definition counting_scopes :: "(nat, nat, nat) rootscope" where
  "counting_scopes = snd (s_watch 1 (UserFn 0) (UserFn 1) False (snd (s_new False 0 None (root_only 0))))"

lemma counting_scopes_facts:
  "scope_inv counting_scopes" "attached (scopes counting_scopes) 0" "\<not> is_disabled counting_scopes 0"
  "phase counting_scopes = None" "plain_state counting_scopes"
  "length (scopes counting_scopes) + length (asyncQueue counting_scopes) + length (applyAsyncQueue counting_scopes) = 2"
proof -
  let ?r = "root_only 0 :: (nat, nat, nat) rootscope"
  have "scope_inv (snd (s_new False 0 None ?r))"
    by (rule new_inv [OF scope_inv_root_only]) (simp_all add: root_only_def new_scope_def)
  moreover have "length (scopes (snd (s_new False 0 None ?r))) = 2" by code_simp
  ultimately show "scope_inv counting_scopes" unfolding counting_scopes_def by (intro watch_inv) simp_all
  have "length (scopes counting_scopes) = 2" "\<not> cleared (scopes counting_scopes ! 0)" by code_simp+
  then show "attached (scopes counting_scopes) 0" by (simp add: attached_def below_def chain_zero)
  show "\<not> is_disabled counting_scopes 0" "phase counting_scopes = None"
    "length (scopes counting_scopes) + length (asyncQueue counting_scopes) + length (applyAsyncQueue counting_scopes) = 2"
    by code_simp+
  have "watches counting_scopes = [\<lparr>w_fn = UserFn 1, w_last = None, w_get = UserFn 0, w_eq = False\<rparr>]"
    "asyncQueue counting_scopes = []" "applyAsyncQueue counting_scopes = []" "postDigestQueue counting_scopes = []"
    by code_simp+
  then show "plain_state counting_scopes" by (simp add: plain_state_def plain_def)
qed

lemma counting_quiet: "quiet counting_env counting"
  by (simp add: quiet_def counting_env_def counting_def env_destroys_def)

lemma counting_result:
  "map_option (\<lambda>(r, t). (r, model t)) (s_digest 9 counting_env 0 counting_scopes) = Some (Inr (), 3)"
  by code_simp

theorem digest_settles_witness:
  "\<exists>t. s_digest 9 counting_env 0 counting_scopes = Some (Inr (), t) \<and> model t = 3 \<and> phase t = None"
proof -
  obtain r t where rt: "s_digest 9 counting_env 0 counting_scopes = Some (r, t)" "phase t = None"
    using digest_settles [OF counting_scopes_facts(1-4) counting_quiet counting_scopes_facts(5), of 9]
      counting_scopes_facts(6) by auto
  with counting_result show ?thesis by simp
qed

end
