(* ===== verification/NgEventProps.thy ===== *)
theory NgEventProps
  imports NgDigestProps
begin

text \<open>
  Who hears an event, and in which order; and what happens to a digest whose own functions
  destroy the scope it is at.
\<close>

section \<open>Listeners that leave the scopes alone\<close>


definition user_entry :: "'f fn option \<Rightarrow> bool" where
  "user_entry x \<longleftrightarrow> (case x of None \<Rightarrow> True | Some f \<Rightarrow> (case f of UserFn _ \<Rightarrow> True | _ \<Rightarrow> False))"

fun user_fns :: "'f fn option list \<Rightarrow> 'f list" where
  "user_fns [] = []"
| "user_fns (Some (UserFn f) # xs) = f # user_fns xs"
| "user_fns (x # xs) = user_fns xs"



text \<open>All listeners, of any event, are functions of the application.\<close>

definition user_listeners :: "('m, 'v, 'f) rootscope \<Rightarrow> bool" where
  "user_listeners s \<longleftrightarrow> (\<forall>arr \<in> set (larrays s). \<forall>x \<in> set arr. user_entry x)"




text \<open>Calling the listeners of an array, and taking the empty entries out.\<close>

definition skips :: "('m, 'v, 'f) rootscope \<Rightarrow> ('m, 'v, 'f) rootscope \<Rightarrow> bool" where
  "skips s t \<longleftrightarrow> scopes t = scopes s \<and> (\<forall>a. user_fns (larrays t ! a) = user_fns (larrays s ! a)) \<and>
     (user_listeners s \<longrightarrow> user_listeners t) \<and> length (larrays t) = length (larrays s)"

lemma skips_refl [simp]: "skips s s"
  by (simp add: skips_def)








section \<open>Up the tree\<close>




section \<open>Down the tree\<close>






section \<open>A small tree that listens\<close>





section \<open>Destroying the scope a digest is at\<close>




end
