(* ===== verification/NgCollection.thy ===== *)
theory NgCollection
  imports NgModules
begin

text \<open>
  \<open>$watchCollection\<close> of scopes: the interceptor keeps a shallow copy of the watched array or
  object and counts the changes it finds; the watch is on the count. An item of None is
  undefined; \<open>nan\<close> tells the NaN among the values.
\<close>

datatype 'v collection =
    Undefined
  | Primitive 'v
  | ArrayLike "'v option list"
  | Plain "(string \<times> 'v option) list"

text \<open>What \<open>oldValue\<close> refers to: nothing yet, a primitive, the internal array or object.\<close>

datatype 'v old_ref = OldNone | OldPrimitive 'v | OldArray | OldObject

record 'v collection_watch =
  c_new :: "'v collection"
  c_old :: "'v old_ref"
  internalArray :: "'v option list"
  internalObject :: "(string \<times> 'v option) list"
  oldLength :: int
  changeDetected :: nat
  initRun :: bool
  veryOldValue :: "'v collection"

definition new_collection_watch :: "'v collection_watch" where
  "new_collection_watch = \<lparr>c_new = Undefined, c_old = OldNone, internalArray = [], internalObject = [],
     oldLength = 0, changeDetected = 0, initRun = True, veryOldValue = Undefined\<rparr>"

section \<open>The interceptor\<close>

definition nan_item :: "('v \<Rightarrow> bool) \<Rightarrow> 'v option \<Rightarrow> bool" where
  "nan_item nan x = (case x of None \<Rightarrow> False | Some v \<Rightarrow> nan v)"

text \<open>\<open>!bothNaN && (oldItem !== newItem)\<close>.\<close>

definition item_changed :: "('v \<Rightarrow> bool) \<Rightarrow> 'v option \<Rightarrow> 'v option \<Rightarrow> bool" where
  "item_changed nan old new \<longleftrightarrow> \<not> (nan_item nan old \<and> nan_item nan new) \<and>
     (old \<noteq> new \<or> nan_item nan old \<or> nan_item nan new)"

definition set_array_length :: "nat \<Rightarrow> 'a option list \<Rightarrow> 'a option list" where
  "set_array_length n xs = take n xs @ replicate (n - length xs) None"

fun scan_array :: "('v \<Rightarrow> bool) \<Rightarrow> 'v option list \<Rightarrow> 'v option list \<Rightarrow> 'v option list \<times> nat" where
  "scan_array nan (x # olds) (y # news) =
    (case scan_array nan olds news of (zs, n) \<Rightarrow>
      if item_changed nan x y then (y # zs, Suc n) else (x # zs, n))"
| "scan_array nan olds news = (olds, 0)"

definition note_change :: "'v collection_watch \<Rightarrow> 'v collection_watch" where
  "note_change c = c\<lparr>changeDetected := Suc (changeDetected c)\<rparr>"

definition watch_array :: "('v \<Rightarrow> bool) \<Rightarrow> 'v option list \<Rightarrow> 'v collection_watch \<Rightarrow> 'v collection_watch" where
  "watch_array nan items c =
    (let c1 = (if c_old c = OldArray then c
               else note_change (c\<lparr>c_old := OldArray, internalArray := [], oldLength := 0\<rparr>));
         n = length items;
         c2 = (if oldLength c1 \<noteq> int n
               then note_change (c1\<lparr>internalArray := set_array_length n (internalArray c1), oldLength := int n\<rparr>) else c1);
         (olds, k) = scan_array nan (internalArray c2) items
     in c2\<lparr>internalArray := olds, changeDetected := changeDetected c2 + k\<rparr>)"

text \<open>
  \<open>key in oldValue\<close> is also true of the members every object inherits, which equal no item;
  an assignment to \<open>__proto__\<close> makes no property.
\<close>

definition set_property :: "string \<Rightarrow> 'a \<Rightarrow> (string \<times> 'a) list \<Rightarrow> (string \<times> 'a) list" where
  "set_property k v ps = (if k = ''__proto__'' then ps else aput k v ps)"

fun scan_property :: "('v \<Rightarrow> bool) \<Rightarrow> string \<times> 'v option \<Rightarrow> 'v collection_watch \<Rightarrow> 'v collection_watch" where
  "scan_property nan (k, new) c =
    (case map_of (internalObject c) k of
       Some old \<Rightarrow> (if item_changed nan old new
                    then note_change (c\<lparr>internalObject := set_property k new (internalObject c)\<rparr>) else c)
     | None \<Rightarrow>
        (if k \<in> set inherited_names \<or> k = ''hasOwnProperty''
         then note_change (c\<lparr>internalObject := set_property k new (internalObject c)\<rparr>)
         else note_change (c\<lparr>oldLength := oldLength c + 1, internalObject := set_property k new (internalObject c)\<rparr>)))"

definition drop_property :: "(string \<times> 'v option) list \<Rightarrow> string \<Rightarrow> 'v collection_watch \<Rightarrow> 'v collection_watch" where
  "drop_property ps k c =
    (if k \<in> set (akeys ps) then c
     else c\<lparr>oldLength := oldLength c - 1, internalObject := adel k (internalObject c)\<rparr>)"

definition watch_object :: "('v \<Rightarrow> bool) \<Rightarrow> (string \<times> 'v option) list \<Rightarrow> 'v collection_watch \<Rightarrow> 'v collection_watch" where
  "watch_object nan ps c =
    (let c1 = (if c_old c = OldObject then c
               else note_change (c\<lparr>c_old := OldObject, internalObject := [], oldLength := 0\<rparr>));
         c2 = fold (scan_property nan) ps c1
     in if oldLength c2 > int (length ps)
        then fold (drop_property ps) (akeys (internalObject c2)) (note_change c2) else c2)"

definition collectionInterceptor :: "('v \<Rightarrow> bool) \<Rightarrow> 'v collection \<Rightarrow> 'v collection_watch \<Rightarrow> nat option \<times> 'v collection_watch" where
  "collectionInterceptor nan value c0 =
    (let c = c0\<lparr>c_new := value\<rparr> in
     case value of
       Undefined \<Rightarrow> (None, c)
     | Primitive v \<Rightarrow>
        (let c1 = (if c_old c = OldPrimitive v \<and> \<not> nan v then c else note_change (c\<lparr>c_old := OldPrimitive v\<rparr>))
         in (Some (changeDetected c1), c1))
     | ArrayLike items \<Rightarrow> (let c1 = watch_array nan items c in (Some (changeDetected c1), c1))
     | Plain ps \<Rightarrow> (let c1 = watch_object nan ps c in (Some (changeDetected c1), c1)))"

text \<open>The listener's arguments, and the copy kept for the next time if it takes two.\<close>

definition collectionAction :: "bool \<Rightarrow> 'v collection_watch \<Rightarrow> ('v collection \<times> 'v collection) \<times> 'v collection_watch" where
  "collectionAction trackVeryOldValue c =
    ((c_new c, if initRun c then c_new c else veryOldValue c),
     c\<lparr>initRun := False, veryOldValue := (if trackVeryOldValue then c_new c else veryOldValue c)\<rparr>)"

section \<open>The copy follows the collection\<close>

definition plain_keys :: "(string \<times> 'a) list \<Rightarrow> bool" where
  "plain_keys ps \<longleftrightarrow> distinct (akeys ps) \<and> (\<forall>k \<in> set (akeys ps). k \<notin> set inherited_names \<and> k \<noteq> ''hasOwnProperty'')"

definition copy_ok :: "'v collection_watch \<Rightarrow> bool" where
  "copy_ok c \<longleftrightarrow> (c_old c = OldArray \<longrightarrow> oldLength c = int (length (internalArray c))) \<and>
     (c_old c = OldObject \<longrightarrow> oldLength c = int (length (internalObject c)) \<and> plain_keys (internalObject c))"

text \<open>That the kept copy is a copy of a value.\<close>

fun copies :: "'v collection_watch \<Rightarrow> 'v collection \<Rightarrow> bool" where
  "copies c Undefined = True"
| "copies c (Primitive v) = (c_old c = OldPrimitive v)"
| "copies c (ArrayLike items) = (c_old c = OldArray \<and> internalArray c = items)"
| "copies c (Plain ps) = (c_old c = OldObject \<and> map_of (internalObject c) = map_of ps)"

definition one_nan :: "('v \<Rightarrow> bool) \<Rightarrow> bool" where
  "one_nan nan \<longleftrightarrow> (\<forall>a b. nan a \<longrightarrow> nan b \<longrightarrow> a = b)"

lemma item_changed_iff: "one_nan nan \<Longrightarrow> item_changed nan x y \<longleftrightarrow> x \<noteq> y"
  unfolding item_changed_def nan_item_def one_nan_def by (cases x; cases y) auto

lemma scan_array_copies:
  "one_nan nan \<Longrightarrow> length olds = length news \<Longrightarrow>
    fst (scan_array nan olds news) = news \<and> (snd (scan_array nan olds news) = 0 \<longleftrightarrow> olds = news)"
proof (induction nan olds news rule: scan_array.induct)
  case (1 nan x olds y news)
  then show ?case by (cases "scan_array nan olds news") (auto simp: item_changed_iff)
qed simp_all

lemma watch_array_copies:
  assumes nan: "one_nan nan" and ok: "copy_ok c"
  shows "copies (watch_array nan items c) (ArrayLike items)" "copy_ok (watch_array nan items c)"
    "changeDetected c \<le> changeDetected (watch_array nan items c)"
    "changeDetected (watch_array nan items c) = changeDetected c \<longleftrightarrow> copies c (ArrayLike items)"
proof -
  let ?c1 = "if c_old c = OldArray then c else note_change (c\<lparr>c_old := OldArray, internalArray := [], oldLength := 0\<rparr>)"
  let ?n = "length items"
  let ?c2 = "if oldLength ?c1 \<noteq> int ?n
     then note_change (?c1\<lparr>internalArray := set_array_length ?n (internalArray ?c1), oldLength := int ?n\<rparr>) else ?c1"
  obtain olds k where s: "scan_array nan (internalArray ?c2) items = (olds, k)" by fastforce
  have w: "watch_array nan items c = ?c2\<lparr>internalArray := olds, changeDetected := changeDetected ?c2 + k\<rparr>"
    by (simp only: watch_array_def Let_def s prod.case)
  have l1: "oldLength ?c1 = int (length (internalArray ?c1))" "c_old ?c1 = OldArray"
    using ok by (auto simp: copy_ok_def note_change_def)
  then have l2: "length (internalArray ?c2) = ?n" "oldLength ?c2 = int ?n" "c_old ?c2 = OldArray"
    by (auto simp: note_change_def set_array_length_def)
  from scan_array_copies [OF nan l2(1)] s have r: "olds = items" "k = 0 \<longleftrightarrow> internalArray ?c2 = items" by simp_all
  show "copies (watch_array nan items c) (ArrayLike items)" "copy_ok (watch_array nan items c)"
    using l2 r(1) by (simp_all only: w copies.simps) (auto simp: copy_ok_def)
  have n1: "changeDetected ?c1 = (if c_old c = OldArray then changeDetected c else Suc (changeDetected c))"
    by (simp add: note_change_def)
  have n2: "changeDetected ?c2 = (if oldLength ?c1 \<noteq> int ?n then Suc (changeDetected ?c1) else changeDetected ?c1)"
    by (simp add: note_change_def)
  have w': "changeDetected (watch_array nan items c) = changeDetected ?c2 + k" by (simp add: w)
  show "changeDetected c \<le> changeDetected (watch_array nan items c)"
    unfolding w' n2 n1 by simp
  show "changeDetected (watch_array nan items c) = changeDetected c \<longleftrightarrow> copies c (ArrayLike items)"
  proof (cases "c_old c = OldArray \<and> oldLength c = int ?n")
    case True
    then have "?c2 = c" by simp
    with True r(2) w' show ?thesis by simp
  next
    case False
    then have "changeDetected c < changeDetected ?c2" unfolding n2 n1 by auto
    moreover have "\<not> copies c (ArrayLike items)" using False ok by (auto simp: copy_ok_def)
    ultimately show ?thesis by (simp add: w')
  qed
qed

subsection \<open>Objects\<close>

lemma plain_not_proto: "plain_keys ps \<Longrightarrow> k \<in> set (akeys ps) \<Longrightarrow> k \<noteq> ''__proto__''"
  by (auto simp: plain_keys_def inherited_names_def)

lemma length_aput: "length (aput k v ps) = (if k \<in> set (akeys ps) then length ps else Suc (length ps))"
  by (induction ps) auto

lemma length_adel: "distinct (akeys ps) \<Longrightarrow> length (adel k ps) = (if k \<in> set (akeys ps) then length ps - 1 else length ps)"
proof (induction ps)
  case (Cons p ps)
  show ?case
  proof (cases "fst p = k")
    case True
    with Cons.prems have "k \<notin> set (akeys ps)" by (simp add: akeys_def)
    then have "adel k ps = ps" by (auto simp: adel_def akeys_def filter_id_conv)
    with True show ?thesis by (simp add: adel_def akeys_def)
  next
    case False
    with Cons show ?thesis by (cases ps) (auto simp: adel_def akeys_def)
  qed
qed (simp add: adel_def)

definition object_ok :: "'v collection_watch \<Rightarrow> bool" where
  "object_ok c \<longleftrightarrow> c_old c = OldObject \<and> oldLength c = int (length (internalObject c)) \<and> plain_keys (internalObject c)"

definition good_key :: "string \<Rightarrow> bool" where
  "good_key k \<longleftrightarrow> k \<notin> set inherited_names \<and> k \<noteq> ''hasOwnProperty''"

lemma good_not_proto: "good_key k \<Longrightarrow> k \<noteq> ''__proto__''"
  by (auto simp: good_key_def inherited_names_def)

lemma plain_keys_iff: "plain_keys ps \<longleftrightarrow> distinct (akeys ps) \<and> (\<forall>k \<in> set (akeys ps). good_key k)"
  by (simp add: plain_keys_def good_key_def)

lemma scan_property_copies:
  assumes "one_nan nan" "object_ok c" "good_key k"
  shows "object_ok (scan_property nan (k, x) c)"
    "map_of (internalObject (scan_property nan (k, x) c)) = (map_of (internalObject c))(k \<mapsto> x)"
    "changeDetected c \<le> changeDetected (scan_property nan (k, x) c)"
    "changeDetected (scan_property nan (k, x) c) = changeDetected c \<longleftrightarrow> map_of (internalObject c) k = Some x"
proof -
  note np = good_not_proto [OF assms(3)]
  have "object_ok (scan_property nan (k, x) c) \<and>
    map_of (internalObject (scan_property nan (k, x) c)) = (map_of (internalObject c))(k \<mapsto> x) \<and>
    changeDetected c \<le> changeDetected (scan_property nan (k, x) c) \<and>
    (changeDetected (scan_property nan (k, x) c) = changeDetected c \<longleftrightarrow> map_of (internalObject c) k = Some x)"
  proof (cases "map_of (internalObject c) k")
    case None
    then have "k \<notin> set (akeys (internalObject c))" by (simp add: map_of_akeys)
    with None assms(2,3) np show ?thesis
      by (auto simp: good_key_def object_ok_def note_change_def set_property_def length_aput plain_keys_iff)
  next
    case (Some y)
    then have k: "k \<in> set (akeys (internalObject c))" by (metis map_of_akeys option.distinct(1))
    show ?thesis
    proof (cases "y = x")
      case True
      with Some assms(1,2) show ?thesis by (auto simp: item_changed_iff)
    next
      case False
      with Some k assms np show ?thesis
        by (auto simp: item_changed_iff object_ok_def note_change_def set_property_def length_aput plain_keys_iff)
    qed
  qed
  then show "object_ok (scan_property nan (k, x) c)"
    "map_of (internalObject (scan_property nan (k, x) c)) = (map_of (internalObject c))(k \<mapsto> x)"
    "changeDetected c \<le> changeDetected (scan_property nan (k, x) c)"
    "changeDetected (scan_property nan (k, x) c) = changeDetected c \<longleftrightarrow> map_of (internalObject c) k = Some x"
    by simp_all
qed

lemma scan_object_copies:
  assumes nan: "one_nan nan"
  shows "\<lbrakk>object_ok c; plain_keys ps\<rbrakk> \<Longrightarrow> object_ok (fold (scan_property nan) ps c) \<and>
    map_of (internalObject (fold (scan_property nan) ps c)) = map_of (internalObject c) ++ map_of ps \<and>
    changeDetected c \<le> changeDetected (fold (scan_property nan) ps c) \<and>
    (changeDetected (fold (scan_property nan) ps c) = changeDetected c \<longleftrightarrow>
       (\<forall>k x. map_of ps k = Some x \<longrightarrow> map_of (internalObject c) k = Some x))"
proof (induction ps arbitrary: c)
  case (Cons p ps)
  obtain k x where p: "p = (k, x)" by (cases p)
  from Cons.prems(2) p have k: "good_key k" "plain_keys ps" "k \<notin> set (akeys ps)" by (auto simp: plain_keys_iff)
  let ?c = "scan_property nan (k, x) c"
  note s = scan_property_copies [OF nan Cons.prems(1) k(1), of x]
  note r = Cons.IH [OF s(1) k(2)]
  have kps: "map_of ps k = None" using k(3) by (simp add: map_of_akeys)
  have m: "(map_of (internalObject c))(k \<mapsto> x) ++ map_of ps = map_of (internalObject c) ++ (map_of ps)(k \<mapsto> x)"
    using kps by (auto simp: map_add_def fun_eq_iff split: option.split)
  have "(changeDetected (fold (scan_property nan) ps ?c) = changeDetected c) \<longleftrightarrow>
      changeDetected (fold (scan_property nan) ps ?c) = changeDetected ?c \<and> changeDetected ?c = changeDetected c"
    using r s(3) by linarith
  also have "\<dots> \<longleftrightarrow> (\<forall>j y. map_of (p # ps) j = Some y \<longrightarrow> map_of (internalObject c) j = Some y)"
  proof -
    have "changeDetected (fold (scan_property nan) ps ?c) = changeDetected ?c \<longleftrightarrow>
        (\<forall>j y. map_of ps j = Some y \<longrightarrow> ((map_of (internalObject c))(k \<mapsto> x)) j = Some y)"
      using r unfolding s(2) by blast
    then show ?thesis unfolding s(4) p using kps by auto
  qed
  finally have eq: "(changeDetected (fold (scan_property nan) ps ?c) = changeDetected c) \<longleftrightarrow>
      (\<forall>j y. map_of (p # ps) j = Some y \<longrightarrow> map_of (internalObject c) j = Some y)" .
  have mm: "map_of (internalObject (fold (scan_property nan) ps ?c)) = map_of (internalObject c) ++ map_of (p # ps)"
  proof -
    from r have "map_of (internalObject (fold (scan_property nan) ps ?c)) = map_of (internalObject ?c) ++ map_of ps" by blast
    also have "\<dots> = map_of (internalObject c) ++ (map_of ps)(k \<mapsto> x)" unfolding s(2) by (rule m)
    also have "\<dots> = map_of (internalObject c) ++ map_of (p # ps)" by (simp add: p)
    finally show ?thesis .
  qed
  have le: "changeDetected c \<le> changeDetected (fold (scan_property nan) ps ?c)" using r s(3) by linarith
  have f: "fold (scan_property nan) (p # ps) c = fold (scan_property nan) ps ?c" by (simp add: p)
  show ?case unfolding f using r mm le eq by blast
qed simp

lemma drop_properties:
  "\<lbrakk>object_ok c; distinct ks; set ks \<subseteq> set (akeys (internalObject c))\<rbrakk> \<Longrightarrow>
    object_ok (fold (drop_property ps) ks c) \<and> changeDetected (fold (drop_property ps) ks c) = changeDetected c \<and>
    map_of (internalObject (fold (drop_property ps) ks c)) =
      (\<lambda>k. if k \<in> set ks \<and> k \<notin> set (akeys ps) then None else map_of (internalObject c) k)"
proof (induction ks arbitrary: c)
  case (Cons k ks)
  let ?c = "drop_property ps k c"
  have k: "k \<in> set (akeys (internalObject c))" using Cons.prems(3) by simp
  then have pos: "0 < length (internalObject c)" by (cases "internalObject c") (auto simp: akeys_def)
  have keys: "set (akeys (adel k (internalObject c))) = set (akeys (internalObject c)) - {k}"
    by (auto simp: akeys_def adel_def)
  have d: "distinct (akeys (internalObject c))" using Cons.prems(1) by (simp add: object_ok_def plain_keys_def)
  have dec: "int (length (internalObject c)) - 1 = int (length (internalObject c) - Suc 0)" using pos by linarith
  have "object_ok ?c" "changeDetected ?c = changeDetected c" "set ks \<subseteq> set (akeys (internalObject ?c))"
    "map_of (internalObject ?c) = (\<lambda>j. if j = k \<and> k \<notin> set (akeys ps) then None else map_of (internalObject c) j)"
    using Cons.prems k pos d keys
    by (auto simp: drop_property_def object_ok_def plain_keys_iff length_adel dec fun_eq_iff)
  note c = this
  from Cons.IH [OF c(1) _ c(3)] Cons.prems(2) c(2,4) show ?case by (auto simp: fun_eq_iff)
qed simp

lemma more_keys:
  assumes "plain_keys a" "plain_keys b" "map_of a = m ++ map_of b"
  shows "length b < length a \<longleftrightarrow> map_of a \<noteq> map_of b"
proof -
  have dk: "set (akeys xs) = dom (map_of xs)" for xs :: "(string \<times> 'a) list"
    by (simp add: akeys_def dom_map_of_conv_image_fst)
  have dom: "set (akeys b) \<subseteq> set (akeys a)" using assms(3) by (auto simp: dk)
  have len: "length a = card (set (akeys a))" "length b = card (set (akeys b))"
    using assms(1,2) by (auto simp: plain_keys_def akeys_def dest: distinct_card)
  show ?thesis
  proof
    assume "length b < length a"
    with len have "set (akeys a) \<noteq> set (akeys b)" by auto
    then show "map_of a \<noteq> map_of b" by (metis dk)
  next
    assume ne: "map_of a \<noteq> map_of b"
    then obtain k where k: "map_of a k \<noteq> map_of b k" by blast
    then have "map_of b k = None" "map_of a k \<noteq> None" using assms(3) by (auto simp: map_add_def split: option.splits)
    then have "k \<in> set (akeys a)" "k \<notin> set (akeys b)" by (simp_all add: map_of_akeys)
    with dom have "set (akeys b) \<subset> set (akeys a)" by blast
    then show "length b < length a" unfolding len by (intro psubset_card_mono) simp_all
  qed
qed

lemma note_change_sel [simp]:
  "internalObject (note_change c) = internalObject c" "internalArray (note_change c) = internalArray c"
  "c_old (note_change c) = c_old c" "oldLength (note_change c) = oldLength c"
  "changeDetected (note_change c) = Suc (changeDetected c)"
  by (simp_all add: note_change_def)

text \<open>The two halves of \<open>watch_object\<close>: the pass over the value, and the pass that drops keys.\<close>

lemma drop_pass_copies:
  assumes o2: "object_ok c2" and ps: "plain_keys ps" and m2: "map_of (internalObject c2) = m ++ map_of ps"
    and c3: "c3 = fold (drop_property ps) (akeys (internalObject c2)) (note_change c2)"
  shows "object_ok c3" "changeDetected c3 = Suc (changeDetected c2)" "map_of (internalObject c3) = map_of ps"
proof -
  have on: "object_ok (note_change c2)" and di: "distinct (akeys (internalObject c2))"
    using o2 by (simp_all add: object_ok_def plain_keys_def)
  from drop_properties [OF on di, of ps]
  show "object_ok c3" "changeDetected c3 = Suc (changeDetected c2)" by (simp_all add: c3)
  from drop_properties [OF on di, of ps]
  have d: "map_of (internalObject c3) = (\<lambda>k. if k \<in> set (akeys (internalObject c2)) \<and> k \<notin> set (akeys ps)
      then None else map_of (internalObject c2) k)" unfolding c3 by (simp only: note_change_sel)
  show "map_of (internalObject c3) = map_of ps"
  proof
    fix k
    have "k \<in> set (akeys ps) \<longleftrightarrow> map_of ps k \<noteq> None"
      "k \<in> set (akeys (internalObject c2)) \<longleftrightarrow> map_of (internalObject c2) k \<noteq> None"
      by (simp_all add: map_of_akeys)
    then show "map_of (internalObject c3) k = map_of ps k"
      unfolding d m2 by (cases "map_of ps k") (auto simp: map_add_def)
  qed
qed

lemma watch_object_copies:
  assumes nan: "one_nan nan" and ok: "copy_ok c" and ps: "plain_keys ps"
  shows "copies (watch_object nan ps c) (Plain ps)" "copy_ok (watch_object nan ps c)"
    "changeDetected c \<le> changeDetected (watch_object nan ps c)"
    "changeDetected (watch_object nan ps c) = changeDetected c \<longleftrightarrow> copies c (Plain ps)"
proof -
  obtain c1 where c1: "c1 = (if c_old c = OldObject then c
    else note_change (c\<lparr>c_old := OldObject, internalObject := [], oldLength := 0\<rparr>))" by blast
  obtain c2 where c2: "c2 = fold (scan_property nan) ps c1" by blast
  obtain c3 where c3: "c3 = fold (drop_property ps) (akeys (internalObject c2)) (note_change c2)" by blast
  obtain r where r: "r = watch_object nan ps c" by blast
  have w: "r = (if oldLength c2 > int (length ps) then c3 else c2)"
    unfolding r watch_object_def Let_def c3 c2 c1 ..
  have o1: "object_ok c1" using ok by (auto simp: c1 copy_ok_def object_ok_def plain_keys_def)
  note s = scan_object_copies [OF nan o1 ps, folded c2]
  then have o2: "object_ok c2" and m2: "map_of (internalObject c2) = map_of (internalObject c1) ++ map_of ps"
    and mono: "changeDetected c1 \<le> changeDetected c2"
    and same: "changeDetected c2 = changeDetected c1 \<longleftrightarrow>
       (\<forall>k x. map_of ps k = Some x \<longrightarrow> map_of (internalObject c1) k = Some x)" by blast+
  have k2: "plain_keys (internalObject c2)" "oldLength c2 = int (length (internalObject c2))"
    using o2 by (simp_all add: object_ok_def)
  have more: "oldLength c2 > int (length ps) \<longleftrightarrow> map_of (internalObject c2) \<noteq> map_of ps"
    using more_keys [OF k2(1) ps m2] k2(2) by simp
  note d = drop_pass_copies [OF o2 ps m2 c3]
  have final: "object_ok r" "map_of (internalObject r) = map_of ps"
    using d(1,3) o2 more by (auto simp: w)
  then show "copies (watch_object nan ps c) (Plain ps)" "copy_ok (watch_object nan ps c)"
    unfolding r [symmetric] by (auto simp: object_ok_def copy_ok_def)
  have n1: "changeDetected c \<le> changeDetected c1" "changeDetected c1 = changeDetected c \<longleftrightarrow> c_old c = OldObject"
    by (auto simp: c1)
  show "changeDetected c \<le> changeDetected (watch_object nan ps c)"
    unfolding r [symmetric] using n1(1) mono d(2) by (simp add: w)
  have "changeDetected r = changeDetected c \<longleftrightarrow>
      \<not> oldLength c2 > int (length ps) \<and> changeDetected c2 = changeDetected c1 \<and> changeDetected c1 = changeDetected c"
    using n1(1) mono d(2) by (auto simp: w)
  also have "\<dots> \<longleftrightarrow> map_of (internalObject c1) = map_of ps \<and> c_old c = OldObject"
  proof -
    have "m ++ map_of ps = map_of ps \<and> (\<forall>k x. map_of ps k = Some x \<longrightarrow> m k = Some x) \<longleftrightarrow> m = map_of ps" for m
    proof (intro iffI conjI)
      assume a: "m ++ map_of ps = map_of ps \<and> (\<forall>k x. map_of ps k = Some x \<longrightarrow> m k = Some x)"
      show "m = map_of ps"
      proof
        fix k
        have "(m ++ map_of ps) k = map_of ps k" using a by simp
        then show "m k = map_of ps k" using a by (cases "map_of ps k") (auto simp: map_add_def)
      qed
    qed (simp_all add: map_add_def fun_eq_iff split: option.split)
    then show ?thesis unfolding same n1(2) more m2 by blast
  qed
  also have "\<dots> \<longleftrightarrow> copies c (Plain ps)" by (auto simp: c1)
  finally show "changeDetected (watch_object nan ps c) = changeDetected c \<longleftrightarrow> copies c (Plain ps)"
    unfolding r [symmetric] .
qed

section \<open>Properties\<close>

fun well_watched :: "('v \<Rightarrow> bool) \<Rightarrow> 'v collection \<Rightarrow> bool" where
  "well_watched nan Undefined = False"
| "well_watched nan (Primitive v) = (\<not> nan v)"
| "well_watched nan (ArrayLike items) = True"
| "well_watched nan (Plain ps) = plain_keys ps"

lemma copy_ok_c_new [simp]: "copy_ok (c\<lparr>c_new := v\<rparr>) = copy_ok c"
  by (simp add: copy_ok_def)

lemma copies_c_new [simp]: "copies (c\<lparr>c_new := v\<rparr>) u = copies c u"
  by (cases u) simp_all

lemma copy_ok_new: "copy_ok new_collection_watch"
  by (simp add: copy_ok_def new_collection_watch_def)

text \<open>
  C29. The interceptor of \<open>$watchCollection\<close> refines a shallow copy: after every run the kept copy
  is a copy of the watched value, and the count the watch compares has moved exactly if the copy
  kept before was not one. This holds for every value but undefined, a primitive NaN, and objects
  with keys that every object inherits.
\<close>

theorem collection_changes_counted:
  assumes "one_nan nan" "copy_ok c" "well_watched nan x"
    and "collectionInterceptor nan x c = (r, c')"
  shows "copies c' x \<and> copy_ok c' \<and> r = Some (changeDetected c') \<and> changeDetected c \<le> changeDetected c' \<and>
    (changeDetected c' = changeDetected c \<longleftrightarrow> copies c x)"
proof (cases x)
  case (Primitive v)
  with assms show ?thesis
    by (auto simp: collectionInterceptor_def Let_def note_change_def copy_ok_def split: if_splits)
next
  case (ArrayLike items)
  with assms watch_array_copies [of nan "c\<lparr>c_new := x\<rparr>" items] show ?thesis
    by (auto simp: collectionInterceptor_def Let_def simp del: copies.simps)
next
  case (Plain ps)
  with assms watch_object_copies [of nan "c\<lparr>c_new := x\<rparr>" ps] show ?thesis
    by (auto simp: collectionInterceptor_def Let_def simp del: copies.simps)
qed (use assms in simp)

lemma collection_changes_counted_witness:
  "let nan = (\<lambda>v. v = (0::nat)); value = Plain [(''a'', Some 1), (''b'', Some 0)];
       c' = snd (collectionInterceptor nan value new_collection_watch)
   in copies c' value \<and> changeDetected c' = 3 \<and> \<not> copies c' (Plain [(''b'', Some 0)]) \<and>
      changeDetected (snd (collectionInterceptor nan (Plain [(''b'', Some 0)]) c')) = 4"
proof -
  let ?nan = "\<lambda>v. v = (0::nat)"
  have nan: "one_nan ?nan" by (simp add: one_nan_def)
  have w: "well_watched ?nan (Plain [(''a'', Some 1), (''b'', Some 0)])"
    by (simp add: plain_keys_def akeys_def inherited_names_def)
  from collection_changes_counted [OF nan copy_ok_new w surjective_pairing]
  have "copies (snd (collectionInterceptor ?nan (Plain [(''a'', Some 1), (''b'', Some 0)]) new_collection_watch))
      (Plain [(''a'', Some 1), (''b'', Some 0)])" by blast
  moreover have "\<not> copies (snd (collectionInterceptor ?nan (Plain [(''a'', Some 1), (''b'', Some 0)]) new_collection_watch))
      (Plain [(''b'', Some 0)])"
    by (simp add: collectionInterceptor_def watch_object_def new_collection_watch_def inherited_names_def
      set_property_def note_change_def fun_eq_iff)
  moreover have "changeDetected (snd (collectionInterceptor ?nan (Plain [(''a'', Some 1), (''b'', Some 0)]) new_collection_watch)) = 3 \<and>
      changeDetected (snd (collectionInterceptor ?nan (Plain [(''b'', Some 0)])
        (snd (collectionInterceptor ?nan (Plain [(''a'', Some 1), (''b'', Some 0)]) new_collection_watch)))) = 4"
    by code_simp
  ultimately show ?thesis unfolding Let_def by blast
qed

text \<open>
  C31. An object with a key that every object inherits, such as \<open>toString\<close>, is not followed:
  a removal of another key is missed, the count stays and the kept copy still has the key.
\<close>

lemma inherited_key_hides_removal:
  assumes "k \<in> set inherited_names" "k \<noteq> ''__proto__''" "j \<notin> set inherited_names" "j \<noteq> ''hasOwnProperty''"
    and "collectionInterceptor nan (Plain [(k, Some a), (j, Some b)]) new_collection_watch = (r1, c1)"
    and "collectionInterceptor nan (Plain [(k, Some a)]) c1 = (r2, c2)"
  shows "r2 = r1 \<and> map_of (internalObject c2) j = Some (Some b)"
proof -
  have ne: "j \<noteq> k" "k \<noteq> j" "j \<noteq> ''__proto__''" using assms(1-4) by (auto simp: inherited_names_def)
  have same: "\<not> item_changed nan (Some a) (Some a)" by (simp add: item_changed_def nan_item_def)
  have c1: "internalObject c1 = [(k, Some a), (j, Some b)]" "oldLength c1 = 1" "c_old c1 = OldObject" "r1 = Some (changeDetected c1)"
    using assms(1-5) ne
    by (auto simp: collectionInterceptor_def watch_object_def new_collection_watch_def note_change_def set_property_def)
  with assms(6) same show ?thesis
    using ne by (auto simp: collectionInterceptor_def watch_object_def)
qed

lemma inherited_key_hides_removal_witness:
  "let c1 = snd (collectionInterceptor (\<lambda>_. False) (Plain [(''toString'', Some (1::nat)), (''x'', Some 2)]) new_collection_watch)
   in map_of (internalObject (snd (collectionInterceptor (\<lambda>_. False) (Plain [(''toString'', Some 1)]) c1))) ''x'' = Some (Some 2)"
proof -
  have "''toString'' \<in> set inherited_names" "''toString'' \<noteq> ''__proto__''" "''x'' \<notin> set inherited_names"
    "''x'' \<noteq> ''hasOwnProperty''" by (simp_all add: inherited_names_def)
  from inherited_key_hides_removal [OF this surjective_pairing surjective_pairing, of "\<lambda>_. False" "1::nat" 2]
  show ?thesis unfolding Let_def by blast
qed

text \<open>A primitive NaN counts as a change in every run, so the watch never settles.\<close>

lemma nan_always_changes:
  "nan v \<Longrightarrow> collectionInterceptor nan (Primitive v) c = (r, c') \<Longrightarrow> r = Some (Suc (changeDetected c))"
  by (auto simp: collectionInterceptor_def Let_def note_change_def)

end
