(* ===== verification/NgLexer.thy ===== *)
theory NgLexer
  imports NgUtil Json
begin

text \<open>
  The lexer of Angular expressions, \<open>Lexer\<close> of \<open>js/angular.js\<close>: a text is cut into tokens,
  each with its place in the text. The value of a string constant is its list of UTF-16 code
  units; the value of a number constant is \<open>Number\<close> of its text, which is kept as it is.
\<close>

section \<open>Tokens\<close>

datatype constant_value = NumberOf string | StringOf "nat list"

record token =
  t_index :: nat
  t_text :: string
  t_operator :: bool
  t_identifier :: bool
  t_constant :: "constant_value option"

definition units :: "string \<Rightarrow> nat list" where
  "units s = map of_char s"

definition OPERATORS :: "string list" where
  "OPERATORS = [''+'', ''-'', ''*'', ''/'', ''%'', ''==='', ''!=='', ''=='', ''!='', ''<'', ''>'', ''<='', ''>='',
     ''&&'', ''||'', ''!'', ''='', ''|'']"

definition ESCAPE :: "(char \<times> char) list" where
  "ESCAPE = [(CHR ''n'', CHR 0x0A), (CHR ''f'', CHR 0x0C), (CHR ''r'', CHR 0x0D), (CHR ''t'', CHR 0x09),
     (CHR ''v'', CHR 0x0B), (CHR 0x27, CHR 0x27), (CHR 0x22, CHR 0x22)]"

section \<open>Characters\<close>

text \<open>A character beyond the end is \<open>false\<close> in the code, here None.\<close>

definition peek_char :: "string \<Rightarrow> nat \<Rightarrow> nat \<Rightarrow> char option" where
  "peek_char source i num = (if i + num < length source then Some (source ! (i + num)) else None)"

definition lex_isNumber :: "char option \<Rightarrow> bool" where
  "lex_isNumber ch = (case ch of None \<Rightarrow> False | Some c \<Rightarrow> is_digit c)"

definition lex_isWhitespace :: "char \<Rightarrow> bool" where
  "lex_isWhitespace ch \<longleftrightarrow> ch \<in> {CHR '' '', CHR 0x0D, CHR 0x09, CHR 0x0A, CHR 0x0B, CHR 0xA0}"

definition lex_isIdent :: "char \<Rightarrow> bool" where
  "lex_isIdent ch \<longleftrightarrow> (let n = (of_char ch :: nat) in
     97 \<le> n \<and> n \<le> 122 \<or> 65 \<le> n \<and> n \<le> 90 \<or> ch = CHR ''_'' \<or> ch = CHR ''$'')"

definition lex_isExpOperator :: "char option \<Rightarrow> bool" where
  "lex_isExpOperator ch \<longleftrightarrow> ch = Some (CHR ''-'') \<or> ch = Some (CHR ''+'') \<or> lex_isNumber ch"

definition js_substring :: "string \<Rightarrow> nat \<Rightarrow> nat \<Rightarrow> string" where
  "js_substring s i j = take (max i j - min i j) (drop (min i j) s)"

definition lex_error :: "string \<Rightarrow> nat \<Rightarrow> string \<Rightarrow> nat option \<Rightarrow> nat option \<Rightarrow> js_error" where
  "lex_error source index err start end0 =
    (let stop = (case end0 of Some e \<Rightarrow> if e = 0 then index else e | None \<Rightarrow> index);
         colStr = (case start of
            Some s \<Rightarrow> ''s '' @ nat_str s @ ''-'' @ nat_str index @ '' ['' @ js_substring source s stop @ '']''
          | None \<Rightarrow> '' '' @ nat_str stop)
     in minErr ''$parse'' ''lexerr'' ''Lexer Error: {0} at column{1} in expression [{2}].'' [err, colStr, source])"

section \<open>Reading a token\<close>

text \<open>The loop of \<open>readNumber\<close>: the number read and the index after it.\<close>

function read_number :: "string \<Rightarrow> nat \<Rightarrow> string \<Rightarrow> js_error + (string \<times> nat)" where
  "read_number source i number =
    (if i < length source then
       let ch = lower_char (source ! i) in
       if ch = CHR ''.'' \<or> lex_isNumber (Some ch) then read_number source (Suc i) (number @ [ch])
       else
         let peekCh = peek_char source i 1; after_e = (number \<noteq> [] \<and> last number = CHR ''e'') in
         if ch = CHR ''e'' \<and> lex_isExpOperator peekCh then read_number source (Suc i) (number @ [ch])
         else if lex_isExpOperator (Some ch) \<and> peekCh \<noteq> None \<and> lex_isNumber peekCh \<and> after_e
         then read_number source (Suc i) (number @ [ch])
         else if lex_isExpOperator (Some ch) \<and> (peekCh = None \<or> \<not> lex_isNumber peekCh) \<and> after_e
         then Inl (lex_error source i ''Invalid exponent'' None None)
         else Inr (number, i)
     else Inr (number, i))"
  by pat_completeness auto
termination by (relation "measure (\<lambda>(source, i, _). length source - i)") auto

declare read_number.simps [simp del]

definition readNumber :: "string \<Rightarrow> nat \<Rightarrow> js_error + (token \<times> nat)" where
  "readNumber source start = (case read_number source start [] of
     Inl e \<Rightarrow> Inl e
   | Inr (number, i) \<Rightarrow> Inr (\<lparr>t_index = start, t_text = number, t_operator = False, t_identifier = False,
       t_constant = Some (NumberOf number)\<rparr>, i))"

function ident_end :: "string \<Rightarrow> nat \<Rightarrow> nat" where
  "ident_end source i =
    (if i < length source \<and> (lex_isIdent (source ! i) \<or> lex_isNumber (Some (source ! i)))
     then ident_end source (Suc i) else i)"
  by pat_completeness auto
termination by (relation "measure (\<lambda>(source, i). length source - i)") auto

declare ident_end.simps [simp del]

definition readIdent :: "string \<Rightarrow> nat \<Rightarrow> token \<times> nat" where
  "readIdent source start = (let i = ident_end source start in
     (\<lparr>t_index = start, t_text = js_substring source start i, t_operator = False, t_identifier = True, t_constant = None\<rparr>, i))"

text \<open>\<open>parseInt(hex, 16)\<close> of four hexadecimal digits, None if there are no four.\<close>

definition hex4 :: "string \<Rightarrow> nat option" where
  "hex4 h = (case h of
     [a, b, c, d] \<Rightarrow> (case (hex_val a, hex_val b, hex_val c, hex_val d) of
        (Some w, Some x, Some y, Some z) \<Rightarrow> Some (((w * 16 + x) * 16 + y) * 16 + z)
      | _ \<Rightarrow> None)
   | _ \<Rightarrow> None)"

text \<open>The loop of \<open>readString\<close>; \<open>s\<close> is the variable \<open>string\<close>.\<close>

function read_string :: "string \<Rightarrow> char \<Rightarrow> nat \<Rightarrow> nat \<Rightarrow> nat list \<Rightarrow> string \<Rightarrow> bool \<Rightarrow> js_error + (token \<times> nat)" where
  "read_string source q start i s rawString escape =
    (if i < length source then
       let ch = source ! i; raw = rawString @ [ch] in
       if escape then
         if ch = CHR ''u'' then
           let hex = js_substring source (i + 1) (i + 5) in
           case hex4 hex of
             None \<Rightarrow> Inl (lex_error source i (''Invalid unicode escape ['' @ [CHR 0x5C] @ ''u'' @ hex @ '']'') None None)
           | Some n \<Rightarrow> read_string source q start (i + 5) (s @ [n]) raw False
         else
           let rep = (case map_of ESCAPE ch of Some r \<Rightarrow> r | None \<Rightarrow> ch) in
           read_string source q start (Suc i) (s @ [of_char rep]) raw False
       else if ch = CHR 0x5C then read_string source q start (Suc i) s raw True
       else if ch = q then
         Inr (\<lparr>t_index = start, t_text = raw, t_operator = False, t_identifier = False, t_constant = Some (StringOf s)\<rparr>, Suc i)
       else read_string source q start (Suc i) (s @ [of_char ch]) raw False
     else Inl (lex_error source i ''Unterminated q'' (Some start) None))"
  by pat_completeness auto
termination by (relation "measure (\<lambda>(source, _, _, i, _). length source - i)") auto

declare read_string.simps [simp del]

definition readString :: "string \<Rightarrow> nat \<Rightarrow> char \<Rightarrow> js_error + (token \<times> nat)" where
  "readString source start q = read_string source q start (Suc start) [] [q] False"

subsection \<open>Every read moves the index on\<close>

lemma read_number_ge: "read_number source i number = Inr (n, j) \<Longrightarrow> i \<le> j"
proof (induction "length source - i" arbitrary: i number rule: less_induct)
  case less
  have "(\<exists>m. i < length source \<and> read_number source (Suc i) m = Inr (n, j)) \<or> i = j"
    using less.prems by (subst (asm) read_number.simps) (auto simp: Let_def split: if_splits)
  then show ?case
  proof
    assume "\<exists>m. i < length source \<and> read_number source (Suc i) m = Inr (n, j)"
    then obtain m where "i < length source" "read_number source (Suc i) m = Inr (n, j)" by blast
    with less.hyps [of "Suc i" m] show ?thesis by (simp add: diff_less_mono2)
  qed simp
qed

lemma ident_end_ge: "i \<le> ident_end source i"
proof (induction "length source - i" arbitrary: i rule: less_induct)
  case less
  then show ?case
    by (cases "i < length source") (subst ident_end.simps, force dest: Suc_leD)+
qed

lemma read_string_ge: "read_string source q start i s raw esc = Inr (t, j) \<Longrightarrow> i < j"
proof (induction "length source - i" arbitrary: i s raw esc rule: less_induct)
  case less
  have "(\<exists>k s' raw' e'. i < length source \<and> i < k \<and> read_string source q start k s' raw' e' = Inr (t, j)) \<or> j = Suc i"
    using less.prems by (subst (asm) read_string.simps)
      (auto simp: Let_def split: if_splits option.splits intro: exI [of _ "Suc i"],
        metis less_add_same_cancel1 zero_less_numeral)
  then show ?case
  proof
    assume "\<exists>k s' raw' e'. i < length source \<and> i < k \<and> read_string source q start k s' raw' e' = Inr (t, j)"
    then obtain k s' raw' e' where k: "i < length source" "i < k" "read_string source q start k s' raw' e' = Inr (t, j)" by blast
    from k(1,2) have "length source - k < length source - i" by linarith
    from less.hyps [OF this k(3)] k(2) show ?thesis by simp
  qed simp
qed

section \<open>The loop over the text\<close>

lemma readNumber_moves:
  assumes "lex_isNumber (Some (source ! i)) \<or> source ! i = CHR ''.''" "i < length source"
    and "readNumber source i = Inr (t, j)"
  shows "i < j"
proof -
  have ch: "lower_char (source ! i) = CHR ''.'' \<or> lex_isNumber (Some (lower_char (source ! i)))"
    using assms(1) by (auto simp: lower_char_def lex_isNumber_def is_digit_def)
  obtain n where "read_number source i [] = Inr (n, j)"
    using assms(3) by (auto simp: readNumber_def split: sum.splits prod.splits)
  then have "read_number source (Suc i) [lower_char (source ! i)] = Inr (n, j)"
    using assms(2) ch by (subst (asm) read_number.simps) (auto simp: Let_def)
  from read_number_ge [OF this] show ?thesis by simp
qed

lemma readIdent_moves:
  assumes "lex_isIdent (source ! i)" "i < length source"
  shows "i < snd (readIdent source i)"
proof -
  have "ident_end source i = ident_end source (Suc i)" using assms by (subst ident_end.simps) simp
  with ident_end_ge [of "Suc i" source] show ?thesis by (simp add: readIdent_def Let_def)
qed

lemma readString_moves: "readString source i q = Inr (t, j) \<Longrightarrow> i < j"
  unfolding readString_def by (drule read_string_ge) simp

definition operator_at :: "string \<Rightarrow> nat \<Rightarrow> string option" where
  "operator_at source i =
    (let ch = [source ! i];
         ch2 = ch @ (case peek_char source i 1 of Some c \<Rightarrow> [c] | None \<Rightarrow> ''false'');
         ch3 = ch2 @ (case peek_char source i 2 of Some c \<Rightarrow> [c] | None \<Rightarrow> ''false'')
     in if ch3 \<in> set OPERATORS then Some ch3
        else if ch2 \<in> set OPERATORS then Some ch2
        else if ch \<in> set OPERATORS then Some ch else None)"

definition plain_token :: "nat \<Rightarrow> string \<Rightarrow> bool \<Rightarrow> token" where
  "plain_token i txt is_operator =
    \<lparr>t_index = i, t_text = txt, t_operator = is_operator, t_identifier = False, t_constant = None\<rparr>"

lemma operator_at_moves:
  assumes "operator_at source i = Some txt" "i < length source"
  shows "length source - (i + length txt) < length source - i"
proof -
  have "txt \<noteq> []" using assms(1) by (auto simp: operator_at_def Let_def split: if_splits)
  then have "0 < length txt" by simp
  with assms(2) show ?thesis by linarith
qed

function lex_from :: "string \<Rightarrow> nat \<Rightarrow> token list \<Rightarrow> js_error + token list" where
  "lex_from source i tokens =
    (if i < length source then
       let ch = source ! i in
       if ch = CHR 0x22 \<or> ch = CHR 0x27 then
         (case readString source i ch of Inl e \<Rightarrow> Inl e | Inr (t, j) \<Rightarrow> lex_from source j (tokens @ [t]))
       else if lex_isNumber (Some ch) \<or> ch = CHR ''.'' \<and> lex_isNumber (peek_char source i 1) then
         (case readNumber source i of Inl e \<Rightarrow> Inl e | Inr (t, j) \<Rightarrow> lex_from source j (tokens @ [t]))
       else if lex_isIdent ch then
         (case readIdent source i of (t, j) \<Rightarrow> lex_from source j (tokens @ [t]))
       else if ch \<in> set ''(){}[].,;:?'' then lex_from source (Suc i) (tokens @ [plain_token i [ch] False])
       else if lex_isWhitespace ch then lex_from source (Suc i) tokens
       else (case operator_at source i of
           Some txt \<Rightarrow> lex_from source (i + length txt) (tokens @ [plain_token i txt True])
         | None \<Rightarrow> Inl (lex_error source i ''Unexpected next character '' (Some i) (Some (i + 1))))
     else Inr tokens)"
  by pat_completeness auto
termination
proof (relation "measure (\<lambda>(source, i, _). length source - i)", goal_cases)
  case (3 source i tokens ch r t j)
  then show ?case using readNumber_moves [of source i t j] by (auto intro: diff_less_mono2)
next
  case (4 source i tokens ch t j)
  then have "i < length source" "lex_isIdent (source ! i)" "(t, j) = readIdent source i" by simp_all
  then show ?case using readIdent_moves [of source i] by (cases "readIdent source i") (auto intro: diff_less_mono2)
qed (auto dest: readString_moves intro: operator_at_moves diff_less_mono2)

declare lex_from.simps [simp del]

definition lex :: "string \<Rightarrow> js_error + token list" where
  "lex source = lex_from source 0 []"

end
