(* ===== verification/NgAst.thy ===== *)
theory NgAst
  imports NgLexer
begin

text \<open>
  The parser of Angular expressions, \<open>AST\<close> of \<open>js/angular.js\<close>: a recursive descent over the
  tokens of the lexer. A parser takes the tokens still to be read and gives the tree and the
  tokens left, or the error it throws; None is a run that has used up its depth \<open>n\<close> of nested
  expressions, which the number of tokens bounds (\<open>NgAstProps\<close>).
\<close>

section \<open>Syntax trees\<close>

datatype literal = ConstantLit constant_value | TrueLit | FalseLit | NullLit | UndefinedLit

datatype ast =
    Literal literal
  | ThisExpression
  | Identifier string
  | UnaryExpression string ast
  | BinaryExpression string ast ast
  | LogicalExpression string ast ast
  | ConditionalExpression ast ast ast
  | AssignmentExpression ast ast
  | MemberExpression ast ast bool
  | CallExpression ast "ast list" bool
  | ArrayExpression "ast list"
  | ObjectExpression "(ast \<times> ast) list"
  | NGValueParameter

text \<open>
  \<open>MemberExpression object property computed\<close>, \<open>CallExpression callee arguments filter\<close>,
  \<open>ConditionalExpression test alternate consequent\<close>; a property of an object is its key and
  its value.
\<close>

definition ast_constants :: "string \<Rightarrow> ast option" where
  "ast_constants = map_of
    [(''true'', Literal TrueLit), (''false'', Literal FalseLit), (''null'', Literal NullLit),
     (''undefined'', Literal UndefinedLit), (''this'', ThisExpression)]"

section \<open>Parsers\<close>

type_synonym 'a parser = "token list \<Rightarrow> (js_error + 'a \<times> token list) option"

definition p_ret :: "'a \<Rightarrow> 'a parser" where
  "p_ret x ts = Some (Inr (x, ts))"

definition p_throw :: "js_error \<Rightarrow> 'a parser" where
  "p_throw e ts = Some (Inl e)"

definition p_bind :: "'a parser \<Rightarrow> ('a \<Rightarrow> 'b parser) \<Rightarrow> 'b parser" where
  "p_bind m f ts = (case m ts of None \<Rightarrow> None | Some (Inl e) \<Rightarrow> Some (Inl e) | Some (Inr (x, us)) \<Rightarrow> f x us)"

named_theorems parser_simps \<open>unfolding of parsers\<close>

lemmas parser_defs [parser_simps] = p_ret_def p_throw_def p_bind_def

text \<open>\<open>peek\<close> with the texts to look for, and with none.\<close>

definition p_peek :: "string list \<Rightarrow> token list \<Rightarrow> token option" where
  "p_peek es ts = (case ts of [] \<Rightarrow> None | t # _ \<Rightarrow> if t_text t \<in> set es \<or> es = [] then Some t else None)"

definition p_expect :: "string list \<Rightarrow> token option parser" where
  "p_expect es ts = (case p_peek es ts of Some t \<Rightarrow> Some (Inr (Some t, tl ts)) | None \<Rightarrow> Some (Inr (None, ts)))"

definition ueoe :: "string \<Rightarrow> js_error" where
  "ueoe source = minErr ''$parse'' ''ueoe'' ''Unexpected end of expression: {0}'' [source]"

text \<open>\<open>throwError\<close>; without a token (\<open>peek\<close> gave false) its text and index are undefined.\<close>

definition ast_error :: "string \<Rightarrow> string \<Rightarrow> token option \<Rightarrow> js_error" where
  "ast_error source msg token = minErr ''$parse'' ''syntax''
     (''Syntax Error: Token '' @ [CHR 0x27] @ ''{0}'' @ [CHR 0x27] @
      '' {1} at column {2} of the expression [{3}] starting at [{4}].'')
     (case token of
        Some t \<Rightarrow> [t_text t, msg, nat_str (t_index t + 1), source, drop (t_index t) source]
      | None \<Rightarrow> [''undefined'', msg, ''null'', source, source])"

definition p_consume :: "string \<Rightarrow> string \<Rightarrow> token parser" where
  "p_consume source e1 ts =
    (if ts = [] then Some (Inl (ueoe source))
     else case p_peek [e1] ts of
       Some t \<Rightarrow> Some (Inr (t, tl ts))
     | None \<Rightarrow> Some (Inl (ast_error source (''is unexpected, expecting ['' @ e1 @ '']'') (p_peek [] ts))))"

text \<open>\<open>consume\<close> of any token, and \<open>peekToken\<close>.\<close>

definition p_consume_any :: "string \<Rightarrow> token parser" where
  "p_consume_any source ts = (case ts of [] \<Rightarrow> Some (Inl (ueoe source)) | t # us \<Rightarrow> Some (Inr (t, us)))"

definition p_peekToken :: "string \<Rightarrow> token parser" where
  "p_peekToken source ts = (case ts of [] \<Rightarrow> Some (Inl (ueoe source)) | t # us \<Rightarrow> Some (Inr (t, t # us)))"

definition p_identifier :: "string \<Rightarrow> ast parser" where
  "p_identifier source = p_bind (p_consume_any source) (\<lambda>token.
     if t_identifier token then p_ret (Identifier (t_text token))
     else p_throw (ast_error source ''is not a valid identifier'' (Some token)))"

definition p_constant :: "string \<Rightarrow> ast parser" where
  "p_constant source = p_bind (p_consume_any source) (\<lambda>token.
     p_ret (case t_constant token of Some v \<Rightarrow> Literal (ConstantLit v) | None \<Rightarrow> Literal UndefinedLit))"

section \<open>Loops\<close>

text \<open>
  A loop goes on with the tokens its body has left, which are fewer (the test makes each loop
  a total function; it never fails, see \<open>NgAstProps\<close>).
\<close>

definition shorter :: "token list \<Rightarrow> 'a parser \<Rightarrow> 'a parser" where
  "shorter ts m us = (if length us < length ts then m us else None)"

lemma shorter_cong [fundef_cong]:
  "\<lbrakk>ts = ts'; us = us'; length us' < length ts' \<Longrightarrow> m us' = m' us'\<rbrakk> \<Longrightarrow> shorter ts m us = shorter ts' m' us'"
  by (simp add: shorter_def)

lemma p_bind_cong [fundef_cong]:
  "\<lbrakk>m ts = m' ts'; \<And>x us. m' ts' = Some (Inr (x, us)) \<Longrightarrow> f x us = f' x us\<rbrakk> \<Longrightarrow> p_bind m f ts = p_bind m' f' ts'"
  by (auto simp: p_bind_def split: option.splits sum.splits prod.splits)

text \<open>\<open>while ((token = this.expect(ops))) left = mk(token.text, left, next())\<close>.\<close>

function left_assoc :: "string list \<Rightarrow> (string \<Rightarrow> ast \<Rightarrow> ast \<Rightarrow> ast) \<Rightarrow> ast parser \<Rightarrow> ast \<Rightarrow> ast parser" where
  "left_assoc ops mk next left ts =
    p_bind (p_expect ops) (\<lambda>token us. case token of
        None \<Rightarrow> p_ret left us
      | Some t \<Rightarrow> p_bind next (\<lambda>right. shorter ts (left_assoc ops mk next (mk (t_text t) left right))) us) ts"
  by pat_completeness auto
termination by (relation "measure (\<lambda>(ops, mk, next, left, ts). length ts)") auto

declare left_assoc.simps [simp del]

text \<open>\<open>do { push(expression()) } while (this.expect(','))\<close>.\<close>

function arguments_loop :: "ast parser \<Rightarrow> ast list \<Rightarrow> ast list parser" where
  "arguments_loop expr args ts =
    p_bind expr (\<lambda>e. p_bind (p_expect ['','']) (\<lambda>comma us. case comma of
        Some _ \<Rightarrow> shorter ts (arguments_loop expr (args @ [e])) us
      | None \<Rightarrow> p_ret (args @ [e]) us)) ts"
  by pat_completeness auto
termination by (relation "measure (\<lambda>(expr, args, ts). length ts)") auto

declare arguments_loop.simps [simp del]

text \<open>\<open>while (this.expect(':')) args.push(this.expression())\<close>.\<close>

function filter_args :: "ast parser \<Rightarrow> ast list \<Rightarrow> ast list parser" where
  "filter_args expr args ts =
    p_bind (p_expect ['':'']) (\<lambda>colon us. case colon of
        None \<Rightarrow> p_ret args us
      | Some _ \<Rightarrow> p_bind expr (\<lambda>e. shorter ts (filter_args expr (args @ [e]))) us) ts"
  by pat_completeness auto
termination by (relation "measure (\<lambda>(expr, args, ts). length ts)") auto

declare filter_args.simps [simp del]

text \<open>The loop of \<open>arrayDeclaration\<close>; a trailing comma is allowed.\<close>

function elements_loop :: "ast parser \<Rightarrow> ast list \<Rightarrow> ast list parser" where
  "elements_loop expr elements ts =
    (if p_peek ['']''] ts \<noteq> None then p_ret elements ts
     else p_bind expr (\<lambda>e. p_bind (p_expect ['','']) (\<lambda>comma us. case comma of
        Some _ \<Rightarrow> shorter ts (elements_loop expr (elements @ [e])) us
      | None \<Rightarrow> p_ret (elements @ [e]) us)) ts)"
  by pat_completeness auto
termination by (relation "measure (\<lambda>(expr, elements, ts). length ts)") auto

declare elements_loop.simps [simp del]

definition object_key :: "string \<Rightarrow> ast parser" where
  "object_key source ts =
    (case p_peek [] ts of
       Some t \<Rightarrow>
         if t_constant t \<noteq> None then p_constant source ts
         else if t_identifier t then p_identifier source ts
         else p_throw (ast_error source ''invalid key'' (Some t)) ts
     | None \<Rightarrow> p_throw (ast_error source ''invalid key'' None) ts)"

function properties_loop :: "string \<Rightarrow> ast parser \<Rightarrow> (ast \<times> ast) list \<Rightarrow> (ast \<times> ast) list parser" where
  "properties_loop source expr properties ts =
    (if p_peek [''}''] ts \<noteq> None then p_ret properties ts
     else p_bind (object_key source) (\<lambda>k. p_bind (p_consume source '':'') (\<lambda>_. p_bind expr (\<lambda>v.
        p_bind (p_expect ['','']) (\<lambda>comma us. case comma of
          Some _ \<Rightarrow> shorter ts (properties_loop source expr (properties @ [(k, v)])) us
        | None \<Rightarrow> p_ret (properties @ [(k, v)]) us)))) ts)"
  by pat_completeness auto
termination by (relation "measure (\<lambda>(source, expr, properties, ts). length ts)") auto

declare properties_loop.simps [simp del]

section \<open>The grammar\<close>

definition parseArguments :: "string \<Rightarrow> ast parser \<Rightarrow> ast list parser" where
  "parseArguments source expr = p_bind (p_peekToken source) (\<lambda>t.
     if t_text t \<noteq> '')'' then arguments_loop expr [] else p_ret [])"

definition arrayDeclaration :: "string \<Rightarrow> ast parser \<Rightarrow> ast parser" where
  "arrayDeclaration source expr =
    p_bind (p_bind (p_peekToken source) (\<lambda>t. if t_text t \<noteq> '']'' then elements_loop expr [] else p_ret []))
      (\<lambda>elements. p_bind (p_consume source '']'') (\<lambda>_. p_ret (ArrayExpression elements)))"

definition object_expression :: "string \<Rightarrow> ast parser \<Rightarrow> ast parser" where
  "object_expression source expr =
    p_bind (p_bind (p_peekToken source) (\<lambda>t. if t_text t \<noteq> ''}'' then properties_loop source expr [] else p_ret []))
      (\<lambda>properties. p_bind (p_consume source ''}'') (\<lambda>_. p_ret (ObjectExpression properties)))"

definition p_filter :: "string \<Rightarrow> ast parser \<Rightarrow> ast \<Rightarrow> ast parser" where
  "p_filter source expr baseExpression = p_bind (p_identifier source) (\<lambda>callee.
     p_bind (filter_args expr [baseExpression]) (\<lambda>args. p_ret (CallExpression callee args True)))"

function filter_loop :: "string \<Rightarrow> ast parser \<Rightarrow> ast \<Rightarrow> ast parser" where
  "filter_loop source expr left ts =
    p_bind (p_expect [''|'']) (\<lambda>token us. case token of
        None \<Rightarrow> p_ret left us
      | Some _ \<Rightarrow> p_bind (p_filter source expr left) (\<lambda>left'. shorter ts (filter_loop source expr left')) us) ts"
  by pat_completeness auto
termination by (relation "measure (\<lambda>(source, expr, left, ts). length ts)") auto

declare filter_loop.simps [simp del]

definition filterChain :: "string \<Rightarrow> ast parser \<Rightarrow> ast parser" where
  "filterChain source expr = p_bind expr (filter_loop source expr)"

text \<open>The loop of \<open>primary\<close> over calls and members.\<close>

function postfix_loop :: "string \<Rightarrow> ast parser \<Rightarrow> ast \<Rightarrow> ast parser" where
  "postfix_loop source expr primary ts =
    p_bind (p_expect [''('', ''['', ''.'']) (\<lambda>next us. case next of
        None \<Rightarrow> p_ret primary us
      | Some t \<Rightarrow>
          p_bind
           (if t_text t = ''('' then
              p_bind (parseArguments source expr) (\<lambda>args. p_bind (p_consume source '')'') (\<lambda>_.
                p_ret (CallExpression primary args False)))
            else if t_text t = ''['' then
              p_bind expr (\<lambda>property. p_bind (p_consume source '']'') (\<lambda>_. p_ret (MemberExpression primary property True)))
            else p_bind (p_identifier source) (\<lambda>property. p_ret (MemberExpression primary property False)))
           (\<lambda>primary'. shorter ts (postfix_loop source expr primary')) us) ts"
  by pat_completeness auto
termination by (relation "measure (\<lambda>(source, expr, primary, ts). length ts)") auto

declare postfix_loop.simps [simp del]

text \<open>
  \<open>this.constants.hasOwnProperty(this.peek().text)\<close> with no token left asks for the name
  \<open>undefined\<close>, which is there, so that \<open>consume\<close> throws the end of the expression.
\<close>

definition primary_start :: "string \<Rightarrow> ast parser \<Rightarrow> ast parser" where
  "primary_start source expr ts =
    (case ts of
       [] \<Rightarrow> p_throw (ueoe source) ts
     | t # us \<Rightarrow>
         if t_text t = ''('' then
           p_bind (filterChain source expr) (\<lambda>e. p_bind (p_consume source '')'') (\<lambda>_. p_ret e)) us
         else if t_text t = ''['' then arrayDeclaration source expr us
         else if t_text t = ''{'' then object_expression source expr us
         else (case ast_constants (t_text t) of
             Some c \<Rightarrow> p_ret c us
           | None \<Rightarrow>
               if t_identifier t then p_identifier source ts
               else if t_constant t \<noteq> None then p_constant source ts
               else p_throw (ast_error source ''not a primary expression'' (Some t)) ts))"

definition primary :: "string \<Rightarrow> ast parser \<Rightarrow> ast parser" where
  "primary source expr = p_bind (primary_start source expr) (postfix_loop source expr)"

fun unary :: "string \<Rightarrow> ast parser \<Rightarrow> ast parser" where
  "unary source expr [] = primary source expr []"
| "unary source expr (t # ts) =
    (if t_text t \<in> {''+'', ''-'', ''!''}
     then p_bind (unary source expr) (\<lambda>argument. p_ret (UnaryExpression (t_text t) argument)) ts
     else primary source expr (t # ts))"

definition multiplicative :: "string \<Rightarrow> ast parser \<Rightarrow> ast parser" where
  "multiplicative source expr =
    p_bind (unary source expr) (left_assoc [''*'', ''/'', ''%''] BinaryExpression (unary source expr))"

definition additive :: "string \<Rightarrow> ast parser \<Rightarrow> ast parser" where
  "additive source expr =
    p_bind (multiplicative source expr) (left_assoc [''+'', ''-''] BinaryExpression (multiplicative source expr))"

definition relational :: "string \<Rightarrow> ast parser \<Rightarrow> ast parser" where
  "relational source expr =
    p_bind (additive source expr) (left_assoc [''<'', ''>'', ''<='', ''>=''] BinaryExpression (additive source expr))"

definition equality :: "string \<Rightarrow> ast parser \<Rightarrow> ast parser" where
  "equality source expr =
    p_bind (relational source expr) (left_assoc [''=='', ''!='', ''==='', ''!==''] BinaryExpression (relational source expr))"

definition logicalAND :: "string \<Rightarrow> ast parser \<Rightarrow> ast parser" where
  "logicalAND source expr =
    p_bind (equality source expr) (left_assoc [''&&''] LogicalExpression (equality source expr))"

definition logicalOR :: "string \<Rightarrow> ast parser \<Rightarrow> ast parser" where
  "logicalOR source expr =
    p_bind (logicalAND source expr) (left_assoc [''||''] LogicalExpression (logicalAND source expr))"

definition ternary :: "string \<Rightarrow> ast parser \<Rightarrow> ast parser" where
  "ternary source expr = p_bind (logicalOR source expr) (\<lambda>test. p_bind (p_expect [''?'']) (\<lambda>token. case token of
       Some _ \<Rightarrow> p_bind expr (\<lambda>alternate. p_bind (p_consume source '':'') (\<lambda>_. p_bind expr (\<lambda>consequent.
         p_ret (ConditionalExpression test alternate consequent))))
     | None \<Rightarrow> p_ret test))"

text \<open>\<open>assignment\<close>; its call of itself is the parser \<open>expr\<close>, as \<open>expression\<close> is \<open>assignment\<close>.\<close>

definition assignment :: "string \<Rightarrow> ast parser \<Rightarrow> ast parser" where
  "assignment source expr = p_bind (ternary source expr) (\<lambda>result. p_bind (p_expect [''='']) (\<lambda>token. case token of
       Some _ \<Rightarrow> p_bind expr (\<lambda>right. p_ret (AssignmentExpression result right))
     | None \<Rightarrow> p_ret result))"

fun expression :: "nat \<Rightarrow> string \<Rightarrow> ast parser" where
  "expression 0 source ts = None"
| "expression (Suc n) source ts = assignment source (expression n source) ts"

section \<open>Programs\<close>

function program_loop :: "string \<Rightarrow> ast parser \<Rightarrow> ast list \<Rightarrow> ast list parser" where
  "program_loop source expr body ts =
    p_bind (if ts \<noteq> [] \<and> p_peek [''}'', '')'', '';'', '']''] ts = None
            then p_bind (filterChain source expr) (\<lambda>e. p_ret (body @ [e])) else p_ret body)
      (\<lambda>body'. p_bind (p_expect ['';'']) (\<lambda>semicolon us. case semicolon of
         None \<Rightarrow> p_ret body' us
       | Some _ \<Rightarrow> shorter ts (program_loop source expr body') us)) ts"
  by pat_completeness auto
termination by (relation "measure (\<lambda>(source, expr, body, ts). length ts)") auto

declare program_loop.simps [simp del]

definition program :: "nat \<Rightarrow> string \<Rightarrow> ast list parser" where
  "program n source = program_loop source (expression n source) []"

text \<open>\<open>ast(text)\<close>: a depth of one more than the number of tokens is enough.\<close>

definition ast_of :: "string \<Rightarrow> (js_error + ast list) option" where
  "ast_of source = (case lex source of
     Inl e \<Rightarrow> Some (Inl e)
   | Inr tokens \<Rightarrow> (case program (Suc (length tokens)) source tokens of
       None \<Rightarrow> None
     | Some (Inl e) \<Rightarrow> Some (Inl e)
     | Some (Inr (body, rest)) \<Rightarrow>
         (case rest of [] \<Rightarrow> Some (Inr body)
          | t # _ \<Rightarrow> Some (Inl (ast_error source ''is an unexpected token'' (Some t))))))"

end
