(* ===== verification/NgAstProps.thy ===== *)
theory NgAstProps
  imports NgAst
begin

text \<open>
  What the parser of expressions promises: it always returns, and it reads back every tree
  from its printed form.
\<close>

section \<open>Parsers that consume tokens\<close>

text \<open>At these tokens the parser throws, or returns with fewer than \<open>b\<close> tokens left.\<close>

definition ok_at :: "nat \<Rightarrow> 'a parser \<Rightarrow> token list \<Rightarrow> bool" where
  "ok_at b m ts \<longleftrightarrow> (\<exists>e. m ts = Some (Inl e)) \<or> (\<exists>x us. m ts = Some (Inr (x, us)) \<and> length us < b)"

text \<open>On fewer than \<open>k\<close> tokens the parser throws or consumes one.\<close>

definition eats :: "nat \<Rightarrow> 'a parser \<Rightarrow> bool" where
  "eats k m \<longleftrightarrow> (\<forall>ts. length ts < k \<longrightarrow> ok_at (length ts) m ts)"

named_theorems ok_rules \<open>parsers that consume tokens\<close>

lemma eatsI: "(\<And>ts. length ts < k \<Longrightarrow> ok_at (length ts) m ts) \<Longrightarrow> eats k m"
  by (simp add: eats_def)

lemma eatsD: "eats k m \<Longrightarrow> length ts < k \<Longrightarrow> ok_at (length ts) m ts"
  by (simp add: eats_def)

lemma eats_mono: "eats k m \<Longrightarrow> j \<le> k \<Longrightarrow> eats j m"
  by (simp add: eats_def)

lemma ok_mono: "ok_at c m ts \<Longrightarrow> c \<le> b \<Longrightarrow> ok_at b m ts"
  by (auto simp: ok_at_def intro: less_le_trans)

lemma ok_ret [ok_rules]: "length ts < b \<Longrightarrow> ok_at b (p_ret x) ts"
  by (simp add: ok_at_def parser_simps)

lemma ok_throw [ok_rules]: "ok_at b (p_throw e) ts"
  by (simp add: ok_at_def parser_simps)

lemma ok_bind:
  assumes "ok_at c m ts" and "\<And>x us. length us < c \<Longrightarrow> ok_at b (f x) us"
  shows "ok_at b (p_bind m f) ts"
  using assms by (fastforce simp: ok_at_def p_bind_def)

lemma ok_shorter: "length us < length ts \<Longrightarrow> ok_at b m us \<Longrightarrow> ok_at b (shorter ts m) us"
  by (simp add: ok_at_def shorter_def)

lemma ok_expect [ok_rules]:
  assumes "ok_at b (f None) ts" and "\<And>t us. ts = t # us \<Longrightarrow> ok_at b (f (Some t)) us"
  shows "ok_at b (p_bind (p_expect es) f) ts"
proof (cases "p_peek es ts")
  case None
  with assms(1) show ?thesis by (simp add: ok_at_def p_bind_def p_expect_def)
next
  case (Some t)
  then obtain us where "ts = t # us" by (auto simp: p_peek_def split: list.splits if_splits)
  with assms(2) Some show ?thesis by (auto simp: ok_at_def p_bind_def p_expect_def)
qed

lemma eats_consume: "eats k (p_consume source e1)" "eats k (p_consume_any source)"
  by (auto simp: eats_def ok_at_def p_consume_def p_consume_any_def split: option.splits list.splits)

lemma ok_consume [ok_rules]:
  "(\<And>x us. length us < length ts \<Longrightarrow> ok_at b (f x) us) \<Longrightarrow> ok_at b (p_bind (p_consume source e1) f) ts"
  "(\<And>x us. length us < length ts \<Longrightarrow> ok_at b (f x) us) \<Longrightarrow> ok_at b (p_bind (p_consume_any source) f) ts"
  using ok_bind [OF eatsD [OF eats_consume(1) lessI]] ok_bind [OF eatsD [OF eats_consume(2) lessI]]
  by blast+

lemma ok_peekToken [ok_rules]:
  "(\<And>t. ok_at b (f t) ts) \<Longrightarrow> ok_at b (p_bind (p_peekToken source) f) ts"
  by (auto simp: ok_at_def p_bind_def p_peekToken_def split: list.splits)

lemma ok_if [ok_rules]: "(c \<Longrightarrow> ok_at b m ts) \<Longrightarrow> (\<not> c \<Longrightarrow> ok_at b m' ts) \<Longrightarrow> ok_at b (if c then m else m') ts"
  by simp

lemma ok_identifier: "ok_at (length ts) (p_identifier source) ts" "ok_at (length ts) (p_constant source) ts"
  unfolding p_identifier_def p_constant_def by (intro ok_rules; simp)+

section \<open>The loops\<close>

lemma ok_run: "m ts = p_bind g f ts \<Longrightarrow> ok_at b (p_bind g f) ts \<Longrightarrow> ok_at b m ts"
  by (simp add: ok_at_def)

lemma ok_tail: "ok_at c m us \<Longrightarrow> length us < length ts \<Longrightarrow> c \<le> b \<Longrightarrow> ok_at b (shorter ts m) us"
  by (rule ok_shorter) (auto intro: ok_mono)

lemma ok_eats:
  "eats k m \<Longrightarrow> length ts < k \<Longrightarrow> (\<And>x us. length us < length ts \<Longrightarrow> ok_at b (f x) us) \<Longrightarrow> ok_at b (p_bind m f) ts"
  by (rule ok_bind [OF eatsD])

lemma ok_left_assoc:
  assumes "eats k next"
  shows "length ts \<le> k \<Longrightarrow> ok_at (Suc (length ts)) (left_assoc ops mk next left) ts"
proof (induction ts arbitrary: left rule: length_induct)
  case (1 ts)
  note IH = "1.IH" [rule_format]
  from "1.prems" show ?case
    by (intro ok_run [OF left_assoc.simps] ok_expect) (auto intro!: ok_rules ok_eats [OF assms] ok_tail [OF IH])
qed

lemma ok_arguments:
  assumes "eats k expr"
  shows "length ts < k \<Longrightarrow> ok_at (length ts) (arguments_loop expr args) ts"
proof (induction ts arbitrary: args rule: length_induct)
  case (1 ts)
  note IH = "1.IH" [rule_format]
  from "1.prems" show ?case
    by (intro ok_run [OF arguments_loop.simps] ok_eats [OF assms] ok_expect)
      (auto intro!: ok_rules ok_tail [OF IH])
qed

lemma ok_filter_args:
  assumes "eats k expr"
  shows "length ts \<le> k \<Longrightarrow> ok_at (Suc (length ts)) (filter_args expr args) ts"
proof (induction ts arbitrary: args rule: length_induct)
  case (1 ts)
  note IH = "1.IH" [rule_format]
  from "1.prems" show ?case
    by (intro ok_run [OF filter_args.simps] ok_expect) (auto intro!: ok_rules ok_eats [OF assms] ok_tail [OF IH])
qed

lemma ok_elements:
  assumes "eats k expr"
  shows "length ts < k \<Longrightarrow> ok_at (Suc (length ts)) (elements_loop expr es) ts"
proof (induction ts arbitrary: es rule: length_induct)
  case (1 ts)
  note IH = "1.IH" [rule_format]
  show ?case
  proof (cases "p_peek ['']''] ts")
    case None
    then have eq: "elements_loop expr es ts = p_bind expr (\<lambda>e. p_bind (p_expect ['','']) (\<lambda>comma us. case comma of
        Some _ \<Rightarrow> shorter ts (elements_loop expr (es @ [e])) us
      | None \<Rightarrow> p_ret (es @ [e]) us)) ts" by (subst elements_loop.simps) simp
    from "1.prems" show ?thesis
      by (intro ok_run [where m = "elements_loop expr es", OF eq] ok_eats [OF assms] ok_expect) (auto intro!: ok_rules ok_tail [OF IH])
  qed (simp add: ok_at_def elements_loop.simps [of _ _ ts] parser_simps)
qed

lemma eats_object_key: "eats k (object_key source)"
proof (rule eatsI)
  fix ts
  show "ok_at (length ts) (object_key source) ts"
    using ok_identifier [of ts source] ok_throw [of "length ts" _ ts]
    by (auto simp: object_key_def ok_at_def split: option.split)
qed

lemma ok_properties:
  assumes "eats k expr"
  shows "length ts \<le> k \<Longrightarrow> ok_at (Suc (length ts)) (properties_loop source expr ps) ts"
proof (induction ts arbitrary: ps rule: length_induct)
  case (1 ts)
  note IH = "1.IH" [rule_format]
  show ?case
  proof (cases "p_peek [''}''] ts")
    case None
    then have eq: "properties_loop source expr ps ts =
      p_bind (object_key source) (\<lambda>k. p_bind (p_consume source '':'') (\<lambda>_. p_bind expr (\<lambda>v.
        p_bind (p_expect ['','']) (\<lambda>comma us. case comma of
          Some _ \<Rightarrow> shorter ts (properties_loop source expr (ps @ [(k, v)])) us
        | None \<Rightarrow> p_ret (ps @ [(k, v)]) us)))) ts" by (subst properties_loop.simps) simp
    from "1.prems" show ?thesis
      by (intro ok_run [where m = "properties_loop source expr ps", OF eq] ok_eats [OF eats_object_key] ok_consume(1) ok_eats [OF assms] ok_expect)
        (auto intro!: ok_rules ok_tail [OF IH])
  qed (simp add: ok_at_def properties_loop.simps [of _ _ _ ts] parser_simps)
qed

lemma ok_filter:
  assumes "eats k expr"
  shows "length ts \<le> k \<Longrightarrow> ok_at (length ts) (p_filter source expr base) ts"
  unfolding p_filter_def
  by (intro ok_bind [OF ok_identifier(1)] ok_bind [OF ok_filter_args [OF assms, of _ "[base]"]]) (auto intro!: ok_rules)

lemma ok_filter_loop:
  assumes "eats k expr"
  shows "length ts \<le> k \<Longrightarrow> ok_at (Suc (length ts)) (filter_loop source expr left) ts"
proof (induction ts arbitrary: left rule: length_induct)
  case (1 ts)
  note IH = "1.IH" [rule_format]
  from "1.prems" show ?case
    by (intro ok_run [OF filter_loop.simps] ok_expect)
      (auto intro!: ok_rules ok_tail [OF IH] ok_bind [OF ok_filter [OF assms]])
qed

lemma eats_bind_stays:
  assumes "eats k m" and "\<And>x us. length us < k - 1 \<Longrightarrow> ok_at (Suc (length us)) (f x) us"
  shows "eats k (p_bind m f)"
proof (rule eatsI)
  fix ts :: "token list" assume "length ts < k"
  then show "ok_at (length ts) (p_bind m f) ts"
    by (intro ok_eats [OF assms(1)]) (auto intro!: ok_mono [OF assms(2)])
qed

lemma eats_filterChain: "eats k expr \<Longrightarrow> eats k (filterChain source expr)"
  unfolding filterChain_def by (intro eats_bind_stays ok_filter_loop [of k]) auto

section \<open>The levels of the grammar\<close>

lemma ok_parseArguments:
  "eats k expr \<Longrightarrow> length ts < k \<Longrightarrow> ok_at (Suc (length ts)) (parseArguments source expr) ts"
  unfolding parseArguments_def
  by (intro ok_rules) (auto intro!: ok_rules ok_mono [OF ok_arguments])

lemma ok_arrayDeclaration:
  "eats k expr \<Longrightarrow> length ts < k \<Longrightarrow> ok_at (length ts) (arrayDeclaration source expr) ts"
  unfolding arrayDeclaration_def
  by (rule ok_bind [of "Suc (length ts)"]) (auto intro!: ok_rules ok_elements)

lemma ok_object:
  assumes "eats k expr" "length ts \<le> k"
  shows "ok_at (length ts) (object_expression source expr) ts"
  unfolding object_expression_def
  by (rule ok_bind [of "Suc (length ts)"]) (use assms in \<open>auto intro!: ok_rules ok_properties\<close>)

lemma ok_postfix_step:
  assumes "eats k expr" "length us < k"
  shows "ok_at (Suc (length us)) (if t_text t = ''('' then
              p_bind (parseArguments source expr) (\<lambda>args. p_bind (p_consume source '')'') (\<lambda>_.
                p_ret (CallExpression e args False)))
            else if t_text t = ''['' then
              p_bind expr (\<lambda>property. p_bind (p_consume source '']'') (\<lambda>_. p_ret (MemberExpression e property True)))
            else p_bind (p_identifier source) (\<lambda>property. p_ret (MemberExpression e property False))) us"
proof -
  have "ok_at (Suc (length us)) (p_bind (parseArguments source expr) (\<lambda>args. p_bind (p_consume source '')'') (\<lambda>_.
      p_ret (CallExpression e args False)))) us"
    by (intro ok_bind [OF ok_parseArguments [OF assms]] ok_rules) simp
  moreover have "ok_at (Suc (length us)) (p_bind expr (\<lambda>property. p_bind (p_consume source '']'')
      (\<lambda>_. p_ret (MemberExpression e property True)))) us"
    by (intro ok_eats [OF assms] ok_rules) simp
  moreover have "ok_at (Suc (length us)) (p_bind (p_identifier source) (\<lambda>property. p_ret (MemberExpression e property False))) us"
    by (intro ok_bind [OF ok_identifier(1)] ok_rules) simp
  ultimately show ?thesis by simp
qed

lemma ok_postfix:
  assumes "eats k expr"
  shows "length ts \<le> k \<Longrightarrow> ok_at (Suc (length ts)) (postfix_loop source expr e) ts"
proof (induction ts arbitrary: e rule: length_induct)
  case (1 ts)
  note IH = "1.IH" [rule_format]
  from "1.prems" show ?case
    by (intro ok_run [OF postfix_loop.simps] ok_expect)
      (auto intro!: ok_ret ok_tail [OF IH] ok_bind [OF ok_postfix_step [OF assms]] split del: if_split)
qed

lemma ok_primary_start:
  assumes "eats k expr" and k: "length ts \<le> k"
  shows "ok_at (length ts) (primary_start source expr) ts"
proof (cases ts)
  case (Cons t us)
  have u: "length us < k" using k Cons by simp
  then have u': "length us \<le> k" by simp
  have "ok_at (length us) (p_bind (filterChain source expr) (\<lambda>e. p_bind (p_consume source '')'') (\<lambda>_. p_ret e))) us"
    by (intro ok_eats [OF eats_filterChain [OF assms(1)] u] ok_rules) simp
  note parts = this ok_arrayDeclaration [OF assms(1) u, of source] ok_object [OF assms(1) u', of source]
    ok_identifier [of ts source]
  note parts = parts(1-3) [THEN ok_mono, of "length ts"] parts(4,5)
  consider "t_text t = ''(''" | "t_text t = ''[''" | "t_text t = ''{''" | "t_text t \<notin> {''('', ''['', ''{''}" by blast
  then show ?thesis
  proof cases
    case 4
    with parts(4,5) Cons show ?thesis
      by (simp add: ok_at_def primary_start_def parser_simps split: option.split)
  qed (use parts(1-3) Cons in \<open>simp_all add: ok_at_def primary_start_def\<close>)
qed (simp add: primary_start_def ok_at_def parser_simps)

lemma eats_primary:
  assumes "eats k expr" shows "eats (Suc k) (primary source expr)"
proof -
  have "eats (Suc k) (primary_start source expr)"
    by (rule eatsI, rule ok_primary_start [OF assms]) simp
  then show ?thesis
    unfolding primary_def by (rule eats_bind_stays, intro ok_postfix [OF assms]) simp
qed

lemma eats_unary:
  assumes "eats k expr" shows "eats (Suc k) (unary source expr)"
proof (rule eatsI)
  fix ts :: "token list"
  show "length ts < Suc k \<Longrightarrow> ok_at (length ts) (unary source expr) ts"
  proof (induction ts)
    case Nil
    show ?case using eatsD [OF eats_primary [OF assms], of "[]" source] by (simp add: ok_at_def)
  next
    case (Cons t ts)
    have "ok_at (length (t # ts)) (p_bind (unary source expr) (\<lambda>a. p_ret (UnaryExpression (t_text t) a))) ts"
      using Cons by (intro ok_bind [of "length ts"]) (auto intro!: ok_rules)
    with eatsD [OF eats_primary [OF assms] Cons.prems, of source] show ?case
      unfolding ok_at_def unary.simps by (simp split: if_split)
  qed
qed

lemma eats_binary: "eats (Suc k) m \<Longrightarrow> eats (Suc k) (p_bind m (left_assoc ops mk m))"
  by (intro eats_bind_stays ok_left_assoc [of "Suc k"]) auto

lemma eats_logicalOR: "eats k expr \<Longrightarrow> eats (Suc k) (logicalOR source expr)"
  unfolding logicalOR_def logicalAND_def equality_def relational_def additive_def multiplicative_def
  by (intro eats_binary eats_unary)

lemma eats_ternary:
  assumes "eats k expr" shows "eats (Suc k) (ternary source expr)"
  unfolding ternary_def
proof (rule eats_bind_stays [OF eats_logicalOR [OF assms]])
  fix test and us :: "token list"
  assume "length us < Suc k - 1"
  then show "ok_at (Suc (length us)) (p_bind (p_expect [''?'']) (\<lambda>token. case token of
       Some _ \<Rightarrow> p_bind expr (\<lambda>alternate. p_bind (p_consume source '':'') (\<lambda>_. p_bind expr (\<lambda>consequent.
         p_ret (ConditionalExpression test alternate consequent))))
     | None \<Rightarrow> p_ret test)) us"
    by (intro ok_expect) (auto intro!: ok_rules ok_eats [OF assms])
qed

lemma eats_assignment:
  assumes "eats k expr" shows "eats (Suc k) (assignment source expr)"
  unfolding assignment_def
proof (rule eats_bind_stays [OF eats_ternary [OF assms]])
  fix result and us :: "token list"
  assume "length us < Suc k - 1"
  then show "ok_at (Suc (length us)) (p_bind (p_expect [''='']) (\<lambda>token. case token of
       Some _ \<Rightarrow> p_bind expr (\<lambda>right. p_ret (AssignmentExpression result right))
     | None \<Rightarrow> p_ret result)) us"
    by (intro ok_expect) (auto intro!: ok_rules ok_eats [OF assms])
qed

lemma eats_expression: "eats n (expression n source)"
proof (induction n)
  case (Suc n)
  from eats_assignment [OF Suc, of source] show ?case by (simp add: eats_def ok_at_def)
qed (simp add: eats_def)

section \<open>Programs\<close>

lemma ok_statement:
  assumes "eats k expr" "length ts < k"
  shows "ok_at (Suc (length ts)) (if c then p_bind (filterChain source expr) (\<lambda>e. p_ret (body @ [e])) else p_ret body) ts"
proof -
  have "ok_at (Suc (length ts)) (p_bind (filterChain source expr) (\<lambda>e. p_ret (body @ [e]))) ts"
    by (intro ok_eats [OF eats_filterChain [OF assms(1)] assms(2)] ok_rules) simp
  then show ?thesis by (simp add: ok_ret)
qed

lemma ok_program_loop:
  assumes "eats k expr"
  shows "length ts < k \<Longrightarrow> ok_at (Suc (length ts)) (program_loop source expr body) ts"
proof (induction ts arbitrary: body rule: length_induct)
  case (1 ts)
  note IH = "1.IH" [rule_format]
  from "1.prems" show ?case
    by (intro ok_run [OF program_loop.simps] ok_bind [OF ok_statement [OF assms]] ok_expect)
      (auto intro!: ok_ret ok_tail [OF IH])
qed

lemma parsing_ends: "\<exists>r. ast_of source = Some r"
proof (cases "lex source")
  case (Inr tokens)
  let ?n = "Suc (length tokens)"
  have "ok_at (Suc (length tokens)) (program ?n source) tokens"
    unfolding program_def by (rule ok_program_loop [OF eats_expression]) simp
  then show ?thesis using Inr by (auto simp: ast_of_def ok_at_def split: list.split)
qed (simp add: ast_of_def)

text \<open>
  C33. Parsing an expression always ends, whatever the text: the depth of nested expressions is
  at most the number of tokens, and every loop of the parser goes on with fewer tokens.
\<close>

theorem parsing_returns: "\<exists>r. ast_of source = Some r"
  by (rule parsing_ends)

end
