(* ===== verification/NgPrint.thy ===== *)
theory NgPrint
  imports NgAstProps
begin

text \<open>
  Printing syntax trees with the parentheses their levels need, and reading them back:
  the precedence and the associativity of every operator, as the grammar has them.
\<close>

section \<open>Printing\<close>

datatype lexeme = Punct string | Name string | NumLit string | StrLit "nat list"

definition ident_name :: "string \<Rightarrow> bool" where
  "ident_name s \<longleftrightarrow> s \<noteq> [] \<and> lex_isIdent (hd s) \<and> list_all (\<lambda>c. lex_isIdent c \<or> is_digit c) s"

definition number_name :: "string \<Rightarrow> bool" where
  "number_name s \<longleftrightarrow> s \<noteq> [] \<and> is_digit (hd s) \<and> list_all (\<lambda>c. c = CHR ''.'' \<or> is_digit c) s"

fun constant_ok :: "constant_value \<Rightarrow> bool" where
  "constant_ok (NumberOf s) = number_name s"
| "constant_ok (StringOf v) = list_all (\<lambda>u. u < 65536) v"

fun constant_lexeme :: "constant_value \<Rightarrow> lexeme" where
  "constant_lexeme (NumberOf s) = NumLit s"
| "constant_lexeme (StringOf v) = StrLit v"

fun literal_lexeme :: "literal \<Rightarrow> lexeme" where
  "literal_lexeme (ConstantLit c) = constant_lexeme c"
| "literal_lexeme TrueLit = Name ''true''"
| "literal_lexeme FalseLit = Name ''false''"
| "literal_lexeme NullLit = Name ''null''"
| "literal_lexeme UndefinedLit = Name ''undefined''"

text \<open>The levels: 0 filters, 1 assignment and conditional, 3 to 8 binary operators, 9 unary, 10 primary.\<close>

definition level_ops :: "nat \<Rightarrow> string list" where
  "level_ops p = [[], [], [], [''||''], [''&&''], [''=='', ''!='', ''==='', ''!==''], [''<'', ''>'', ''<='', ''>=''],
     [''+'', ''-''], [''*'', ''/'', ''%'']] ! p"

definition op_level :: "string \<Rightarrow> nat" where
  "op_level s = (if s = ''||'' then 3 else if s = ''&&'' then 4 else if s \<in> set (level_ops 5) then 5
     else if s \<in> set (level_ops 6) then 6 else if s \<in> set (level_ops 7) then 7 else 8)"

definition parens :: "bool \<Rightarrow> lexeme list \<Rightarrow> lexeme list" where
  "parens b ls = (if b then Punct ''('' # ls @ [Punct '')''] else ls)"

fun commas :: "lexeme list list \<Rightarrow> lexeme list" where
  "commas [] = []"
| "commas [ls] = ls"
| "commas (ls # ms # lss) = ls @ Punct '','' # commas (ms # lss)"

fun key_lexeme :: "ast \<Rightarrow> lexeme" where
  "key_lexeme (Literal (ConstantLit c)) = constant_lexeme c"
| "key_lexeme (Identifier s) = Name s"
| "key_lexeme _ = Name []"

fun show_ast :: "nat \<Rightarrow> ast \<Rightarrow> lexeme list" where
  "show_ast p (Literal l) = [literal_lexeme l]"
| "show_ast p ThisExpression = [Name ''this'']"
| "show_ast p (Identifier s) = [Name s]"
| "show_ast p (UnaryExpression op a) = parens (9 < p) (Punct op # show_ast 9 a)"
| "show_ast p (BinaryExpression op l r) =
    parens (op_level op < p) (show_ast (op_level op) l @ Punct op # show_ast (Suc (op_level op)) r)"
| "show_ast p (LogicalExpression op l r) =
    parens (op_level op < p) (show_ast (op_level op) l @ Punct op # show_ast (Suc (op_level op)) r)"
| "show_ast p (ConditionalExpression t a c) =
    parens (1 < p) (show_ast 3 t @ Punct ''?'' # show_ast 1 a @ Punct '':'' # show_ast 1 c)"
| "show_ast p (AssignmentExpression l r) = parens (1 < p) (show_ast 3 l @ Punct ''='' # show_ast 1 r)"
| "show_ast p (MemberExpression a b computed) =
    show_ast 10 a @ (if computed then Punct ''['' # show_ast 1 b @ [Punct '']'']
                     else [Punct ''.'', key_lexeme b])"
| "show_ast p (CallExpression c args filtered) =
    (if filtered then
       (case args of
          [] \<Rightarrow> []
        | b # bs \<Rightarrow> parens (0 < p) (show_ast 0 b @ Punct ''|'' # key_lexeme c #
            concat (map (\<lambda>a. Punct '':'' # show_ast 1 a) bs)))
     else show_ast 10 c @ Punct ''('' # commas (map (show_ast 1) args) @ [Punct '')''])"
| "show_ast p (ArrayExpression es) = Punct ''['' # commas (map (show_ast 1) es) @ [Punct '']'']"
| "show_ast p (ObjectExpression ps) =
    Punct ''{'' # commas (map (\<lambda>kv. key_lexeme (fst kv) # Punct '':'' # show_ast 1 (snd kv)) ps) @ [Punct ''}'']"
| "show_ast p NGValueParameter = []"

text \<open>The trees the grammar can give.\<close>

fun key_ok :: "ast \<Rightarrow> bool" where
  "key_ok (Literal (ConstantLit c)) = constant_ok c"
| "key_ok (Identifier s) = ident_name s"
| "key_ok _ = False"

fun name_ok :: "ast \<Rightarrow> bool" where
  "name_ok (Identifier s) = ident_name s"
| "name_ok _ = False"

fun printable :: "ast \<Rightarrow> bool" where
  "printable (Literal l) = (case l of ConstantLit c \<Rightarrow> constant_ok c | _ \<Rightarrow> True)"
| "printable ThisExpression = True"
| "printable (Identifier s) = (ident_name s \<and> ast_constants s = None)"
| "printable (UnaryExpression op a) = (op \<in> {''+'', ''-'', ''!''} \<and> printable a)"
| "printable (BinaryExpression op l r) =
    (op \<in> set (level_ops 5 @ level_ops 6 @ level_ops 7 @ level_ops 8) \<and> printable l \<and> printable r)"
| "printable (LogicalExpression op l r) = (op \<in> {''||'', ''&&''} \<and> printable l \<and> printable r)"
| "printable (ConditionalExpression t a c) = (printable t \<and> printable a \<and> printable c)"
| "printable (AssignmentExpression l r) = (printable l \<and> printable r)"
| "printable (MemberExpression a b computed) = (printable a \<and> (if computed then printable b else name_ok b))"
| "printable (CallExpression c args filtered) =
    ((if filtered then name_ok c \<and> args \<noteq> [] else printable c) \<and> list_all printable args)"
| "printable (ArrayExpression es) = list_all printable es"
| "printable (ObjectExpression ps) = list_all (\<lambda>kv. key_ok (fst kv) \<and> printable (snd kv)) ps"
| "printable NGValueParameter = False"

section \<open>Tokens of a printed tree\<close>

fun realises :: "lexeme \<Rightarrow> token \<Rightarrow> bool" where
  "realises (Punct s) t = (t_text t = s \<and> \<not> t_identifier t \<and> t_constant t = None)"
| "realises (Name s) t = (t_text t = s \<and> t_identifier t \<and> t_constant t = None)"
| "realises (NumLit s) t = (t_text t = s \<and> \<not> t_identifier t \<and> t_constant t = Some (NumberOf s))"
| "realises (StrLit v) t = ((\<exists>r. t_text t = CHR 0x22 # r) \<and> \<not> t_identifier t \<and> t_constant t = Some (StringOf v))"

abbreviation spelt :: "lexeme list \<Rightarrow> token list \<Rightarrow> bool" where
  "spelt \<equiv> list_all2 realises"

text \<open>What a printed tree begins with.\<close>

fun opens :: "lexeme \<Rightarrow> bool" where
  "opens (Punct s) = (s \<in> {''('', ''['', ''{''})"
| "opens (Name s) = ident_name s"
| "opens (NumLit s) = number_name s"
| "opens (StrLit v) = True"

definition starts :: "lexeme \<Rightarrow> bool" where
  "starts l \<longleftrightarrow> opens l \<or> l \<in> Punct ` {''+'', ''-'', ''!''}"

lemma ident_keywords: "ident_name ''true''" "ident_name ''false''" "ident_name ''null''" "ident_name ''undefined''" "ident_name ''this''"
  by code_simp+

lemma opens_literal: "printable (Literal l) \<Longrightarrow> opens (literal_lexeme l)"
  by (cases l rule: literal_lexeme.cases) (auto simp: ident_keywords elim: constant_ok.elims)

definition starts_at :: "nat \<Rightarrow> lexeme list \<Rightarrow> bool" where
  "starts_at p ls \<longleftrightarrow> (\<exists>l ms. ls = l # ms \<and> starts l \<and> (p = 10 \<longrightarrow> opens l))"

lemma starts_at_open: "opens l \<Longrightarrow> starts_at p (l # ms)"
  by (simp add: starts_at_def starts_def)

lemma starts_at_append: "starts_at p ls \<Longrightarrow> starts_at p (ls @ ms)"
  by (auto simp: starts_at_def)

lemma starts_at_10: "starts_at 10 ls \<Longrightarrow> starts_at p ls"
  by (auto simp: starts_at_def)

lemma starts_at_parens: "starts_at q ls \<Longrightarrow> \<not> b \<longrightarrow> p \<noteq> 10 \<Longrightarrow> starts_at p (parens b ls)"
  by (auto simp: starts_at_def parens_def starts_def)

lemma op_level_bound: "op_level op \<le> 8"
  by (simp add: op_level_def)

lemma show_starts: "printable e \<Longrightarrow> starts_at p (show_ast p e)"
proof (induction e arbitrary: p)
  case (Literal l)
  then show ?case using opens_literal by (simp add: starts_at_open del: printable.simps)
next
  case (UnaryExpression op a)
  then show ?case by (auto simp: starts_at_def parens_def starts_def)
next
  case (BinaryExpression op l r)
  then have "printable l" by simp
  from BinaryExpression.IH(1) [OF this] op_level_bound [of op] show ?case
    by (auto intro!: starts_at_parens starts_at_append)
next
  case (LogicalExpression op l r)
  then have "printable l" by simp
  from LogicalExpression.IH(1) [OF this] op_level_bound [of op] show ?case
    by (auto intro!: starts_at_parens starts_at_append)
next
  case (ConditionalExpression t a c)
  then have "printable t" by simp
  from ConditionalExpression.IH(1) [OF this] show ?case by (auto intro!: starts_at_parens starts_at_append)
next
  case (AssignmentExpression l r)
  then have "printable l" by simp
  from AssignmentExpression.IH(1) [OF this] show ?case by (auto intro!: starts_at_parens starts_at_append)
next
  case (MemberExpression a b computed)
  then have "printable a" by simp
  from MemberExpression.IH(1) [OF this] show ?case by (auto intro!: starts_at_append intro: starts_at_10)
next
  case (CallExpression c args filtered)
  show ?case
  proof (cases filtered)
    case True
    with CallExpression.prems obtain b bs where a: "args = b # bs" "printable b" by (cases args) auto
    from CallExpression.IH(2) [of b 0] a have "starts_at 0 (show_ast 0 b)" by simp
    with True a show ?thesis by (auto intro!: starts_at_parens starts_at_append)
  next
    case False
    with CallExpression.prems have "printable c" by simp
    from CallExpression.IH(1) [OF this] False show ?thesis by (auto intro!: starts_at_append intro: starts_at_10)
  qed
qed (auto intro!: starts_at_open simp: ident_keywords)

section \<open>The levels of the grammar\<close>

text \<open>The parser of a level, with the depth \<open>n\<close> left for what it nests.\<close>

definition level_parser :: "string \<Rightarrow> nat \<Rightarrow> nat \<Rightarrow> ast parser" where
  "level_parser source p n = (let expr = expression n source in
     [filterChain source (expression (Suc n) source), assignment source expr, ternary source expr, logicalOR source expr,
      logicalAND source expr, equality source expr, relational source expr, additive source expr,
      multiplicative source expr, unary source expr, primary source expr] ! p)"

text \<open>A level below the unary operators reads the next level, and then its tail.\<close>

definition level_tail :: "string \<Rightarrow> nat \<Rightarrow> nat \<Rightarrow> ast \<Rightarrow> ast parser" where
  "level_tail source p n = (let expr = expression n source in
     if p = 0 then filter_loop source (expression (Suc n) source)
     else if p = 1 then (\<lambda>result. p_bind (p_expect [''='']) (\<lambda>token. case token of
       Some _ \<Rightarrow> p_bind expr (\<lambda>right. p_ret (AssignmentExpression result right))
     | None \<Rightarrow> p_ret result))
     else if p = 2 then (\<lambda>test. p_bind (p_expect [''?'']) (\<lambda>token. case token of
       Some _ \<Rightarrow> p_bind expr (\<lambda>alternate. p_bind (p_consume source '':'') (\<lambda>_. p_bind expr (\<lambda>consequent.
         p_ret (ConditionalExpression test alternate consequent))))
     | None \<Rightarrow> p_ret test))
     else left_assoc (level_ops p) (if p < 5 then LogicalExpression else BinaryExpression) (level_parser source (Suc p) n))"

lemma below_9: "p \<le> (8::nat) \<Longrightarrow> p = 0 \<or> p = 1 \<or> p = 2 \<or> p = 3 \<or> p = 4 \<or> p = 5 \<or> p = 6 \<or> p = 7 \<or> p = 8"
  by linarith

lemma level_parser_simps:
  "level_parser source (Suc 0) n = expression (Suc n) source"
  "level_parser source 9 n = unary source (expression n source)"
  "level_parser source 10 n = primary source (expression n source)"
  by (simp_all add: level_parser_def fun_eq_iff)

lemma level_step: "p \<le> 8 \<Longrightarrow> level_parser source p n = p_bind (level_parser source (Suc p) n) (level_tail source p n)"
proof (drule below_9, elim disjE)
  have "expression (Suc n) source = assignment source (expression n source)" by (simp add: fun_eq_iff)
  then show "p = 0 \<Longrightarrow> ?thesis" by (simp add: level_parser_def level_tail_def Let_def filterChain_def)
qed (simp_all only: level_parser_def level_tail_def Let_def level_ops_def,
  simp_all add: assignment_def [of source "expression n source"] ternary_def [of source "expression n source"]
    logicalOR_def [of source "expression n source"] logicalAND_def [of source "expression n source"],
  simp_all only: equality_def [of source "expression n source"] relational_def [of source "expression n source"]
    additive_def [of source "expression n source"] multiplicative_def [of source "expression n source"])

text \<open>The texts after which a level, or one above it, goes on.\<close>

definition continuations :: "string list list" where
  "continuations = [[''|'', '':''], [''=''], [''?''], level_ops 3, level_ops 4, level_ops 5, level_ops 6, level_ops 7, level_ops 8, [],
     [''('', ''['', ''.'']]"

definition conts :: "nat \<Rightarrow> string list" where
  "conts p = concat (drop p continuations)"

definition stop :: "nat \<Rightarrow> token list \<Rightarrow> bool" where
  "stop p rest = (case rest of [] \<Rightarrow> True | t # _ \<Rightarrow> t_text t \<notin> set (conts p))"

lemma set_conts_mono: "p \<le> q \<Longrightarrow> set (conts q) \<subseteq> set (conts p)"
  by (auto simp: conts_def dest: set_drop_subset_set_drop [THEN subsetD])

lemma stop_mono: "stop p rest \<Longrightarrow> p \<le> q \<Longrightarrow> stop q rest"
  using set_conts_mono [of p q] by (auto simp: stop_def split: list.splits)

lemma expect_stop:
  assumes "stop p rest" "set es \<subseteq> set (conts p)" "es \<noteq> []"
  shows "p_expect es rest = Some (Inr (None, rest))"
  using assms by (auto simp: stop_def p_expect_def p_peek_def split: list.splits)

lemma expect_hit: "t_text t \<in> set es \<Longrightarrow> p_expect es (t # us) = Some (Inr (Some t, us))"
  by (simp add: p_expect_def p_peek_def)

lemma consume_hit: "t_text t = s \<Longrightarrow> p_consume source s (t # us) = Some (Inr (t, us))"
  by (simp add: p_consume_def p_peek_def)

lemma left_assoc_stop: "stop p rest \<Longrightarrow> set ops \<subseteq> set (conts p) \<Longrightarrow> ops \<noteq> [] \<Longrightarrow> left_assoc ops mk next e rest = p_ret e rest"
  by (simp add: left_assoc.simps expect_stop p_bind_def)

lemma tail_stop: "p \<le> 8 \<Longrightarrow> stop p rest \<Longrightarrow> level_tail source p n e rest = p_ret e rest"
proof (drule below_9, elim disjE)
  assume s: "stop p rest"
  show "p = 0 \<Longrightarrow> ?thesis"
    using s by (simp add: level_tail_def filter_loop.simps expect_stop conts_def continuations_def p_bind_def)
  show "p = 1 \<Longrightarrow> ?thesis" "p = 2 \<Longrightarrow> ?thesis"
    using s by (simp_all add: level_tail_def expect_stop conts_def continuations_def p_bind_def Let_def)
qed (auto simp: level_tail_def conts_def continuations_def level_ops_def intro!: left_assoc_stop)

lemma postfix_stop: "stop 10 rest \<Longrightarrow> postfix_loop source expr e rest = p_ret e rest"
  by (simp add: postfix_loop.simps expect_stop conts_def continuations_def p_bind_def)

text \<open>From a level down to one below it.\<close>

lemma level_tail_at:
  "level_parser source (Suc p) n us = p_ret e rest \<Longrightarrow> p \<le> 8 \<Longrightarrow>
    level_parser source p n us = level_tail source p n e rest"
  by (simp add: level_step p_bind_def p_ret_def)

lemma level_down:
  assumes "level_parser source q n us = p_ret e rest" "p \<le> q" "q \<le> 9" "stop p rest"
  shows "level_parser source p n us = p_ret e rest"
  using assms(2)
proof (induction rule: inc_induct)
  case base
  show ?case by (rule assms(1))
next
  case (step m)
  then have m: "m \<le> 8" "stop m rest" using assms(3,4) by (auto intro: stop_mono)
  from level_tail_at [OF step.IH m(1)] tail_stop [OF m] show ?case by simp
qed

section \<open>Reading a printed tree\<close>

text \<open>
  At the level of its printing a tree is read with the tokens after it left (\<open>reads\<close>), or the
  tail of the level goes on with it (\<open>goes_on\<close>).
\<close>

definition reads :: "string \<Rightarrow> ast \<Rightarrow> bool" where
  "reads source e \<longleftrightarrow> (\<forall>p n ts rest. p \<le> 10 \<longrightarrow> spelt (show_ast p e) ts \<longrightarrow> length ts + length rest \<le> n \<longrightarrow> stop p rest \<longrightarrow>
     level_parser source p n (ts @ rest) = p_ret e rest)"

definition follows :: "nat \<Rightarrow> token list \<Rightarrow> bool" where
  "follows p rest \<longleftrightarrow> stop (Suc p) rest \<and> (p = 0 \<longrightarrow> p_peek ['':''] rest = None)"

definition goes_on :: "string \<Rightarrow> ast \<Rightarrow> bool" where
  "goes_on source e \<longleftrightarrow>
     (\<forall>p n ts rest. p \<le> 8 \<longrightarrow> p \<notin> {1, 2} \<longrightarrow> spelt (show_ast p e) ts \<longrightarrow> length ts + length rest \<le> n \<longrightarrow> follows p rest \<longrightarrow>
       level_parser source p n (ts @ rest) = level_tail source p n e rest) \<and>
     (\<forall>n ts rest. spelt (show_ast 10 e) ts \<longrightarrow> length ts + length rest \<le> n \<longrightarrow>
       primary source (expression n source) (ts @ rest) = postfix_loop source (expression n source) e rest)"

lemma readsD:
  "reads source e \<Longrightarrow> spelt (show_ast p e) ts \<Longrightarrow> length ts + length rest \<le> n \<Longrightarrow> stop p rest \<Longrightarrow> p \<le> 10 \<Longrightarrow>
    level_parser source p n (ts @ rest) = p_ret e rest"
  by (simp add: reads_def)

lemma goes_onD:
  "goes_on source e \<Longrightarrow> spelt (show_ast p e) ts \<Longrightarrow> length ts + length rest \<le> n \<Longrightarrow> follows p rest \<Longrightarrow> p \<le> 8 \<Longrightarrow>
    p \<noteq> 1 \<Longrightarrow> p \<noteq> 2 \<Longrightarrow> level_parser source p n (ts @ rest) = level_tail source p n e rest"
  by (simp add: goes_on_def)

lemma goes_on_primaryD:
  "goes_on source e \<Longrightarrow> spelt (show_ast 10 e) ts \<Longrightarrow> length ts + length rest \<le> n \<Longrightarrow>
    primary source (expression n source) (ts @ rest) = postfix_loop source (expression n source) e rest"
  by (simp add: goes_on_def)

lemma stop_follows: "stop p rest \<Longrightarrow> follows p rest"
proof -
  assume s: "stop p rest"
  have "p = 0 \<longrightarrow> p_peek ['':''] rest = None"
  proof
    assume "p = 0"
    with s show "p_peek ['':''] rest = None"
      by (cases rest) (auto simp: p_peek_def stop_def conts_def continuations_def)
  qed
  with stop_mono [OF s, of "Suc p"] show ?thesis by (simp add: follows_def)
qed

text \<open>From the primary level down, for a text that begins with no unary operator.\<close>

lemma unary_primary:
  "ts \<noteq> [] \<Longrightarrow> t_text (hd ts) \<notin> {''+'', ''-'', ''!''} \<Longrightarrow> unary source expr (ts @ rest) = primary source expr (ts @ rest)"
  by (cases ts) auto

lemma reads_from_primary:
  assumes prim: "primary source (expression n source) us = postfix_loop source (expression n source) e rest"
    and un: "unary source (expression n source) us = primary source (expression n source) us"
    and p: "p \<le> 10" "stop p rest"
  shows "level_parser source p n us = p_ret e rest"
proof (cases "p = 10")
  case True
  with prim p(2) show ?thesis by (simp add: level_parser_simps postfix_stop)
next
  case False
  have "level_parser source 9 n us = p_ret e rest"
    using prim un stop_mono [OF p(2,1)] by (simp add: level_parser_simps postfix_stop)
  from level_down [OF this] False p show ?thesis by simp
qed

lemma goes_on_from_primary:
  assumes prim: "primary source (expression n source) us = postfix_loop source (expression n source) e rest"
    and un: "unary source (expression n source) us = primary source (expression n source) us"
    and p: "p \<le> 8" "follows p rest"
  shows "level_parser source p n us = level_tail source p n e rest"
  using reads_from_primary [OF prim un, of "Suc p"] p by (intro level_tail_at) (auto simp: follows_def)

text \<open>A tree in parentheses.\<close>

lemma parens_primary:
  assumes read: "\<And>n ts rest. spelt body ts \<Longrightarrow> length ts + length rest \<le> n \<Longrightarrow> stop 0 rest \<Longrightarrow>
      level_parser source 0 n (ts @ rest) = p_ret e rest"
    and ts: "spelt (Punct ''('' # body @ [Punct '')'']) ts" "length ts + length rest \<le> n"
  shows "primary source (expression n source) (ts @ rest) = postfix_loop source (expression n source) e rest"
    and "unary source (expression n source) (ts @ rest) = primary source (expression n source) (ts @ rest)"
proof -
  from ts(1) obtain t us v where t: "ts = t # us @ [v]" "t_text t = ''(''" "spelt body us" "t_text v = '')''"
    by (auto simp: list_all2_Cons1 list_all2_append1)
  with ts(2) obtain m where m: "n = Suc m" by (cases n) auto
  have "stop 0 (v # rest)" using t(4) by (simp add: stop_def conts_def continuations_def level_ops_def)
  with read [OF t(3), of "v # rest" m] ts(2) t(1) m
  have "filterChain source (expression n source) (us @ v # rest) = p_ret e (v # rest)"
    by (simp add: level_parser_def)
  then show "primary source (expression n source) (ts @ rest) = postfix_loop source (expression n source) e rest"
    using t by (simp add: primary_def primary_start_def p_bind_def p_ret_def consume_hit)
  show "unary source (expression n source) (ts @ rest) = primary source (expression n source) (ts @ rest)"
    using t by simp
qed

text \<open>A tree of a level up to the unary operators: from its own level to all.\<close>

lemma levels_from_core:
  assumes shown: "\<And>p. show_ast p e = parens (q < p) body" and q: "q \<le> 9"
    and core: "\<And>n ts rest. spelt body ts \<Longrightarrow> length ts + length rest \<le> n \<Longrightarrow> stop q rest \<Longrightarrow>
      level_parser source q n (ts @ rest) = p_ret e rest"
    and tail: "\<And>n ts rest. q \<notin> {1, 2, 9} \<Longrightarrow> spelt body ts \<Longrightarrow> length ts + length rest \<le> n \<Longrightarrow> follows q rest \<Longrightarrow>
      level_parser source q n (ts @ rest) = level_tail source q n e rest"
  shows "reads source e" "goes_on source e"
proof -
  have low: "level_parser source p n (ts @ rest) = p_ret e rest"
    if "spelt body ts" "length ts + length rest \<le> n" "stop p rest" "p \<le> q" for p n ts rest
    using level_down [OF core [OF that(1,2)] that(4) q that(3)] stop_mono [OF that(3,4)] by blast
  have prim: "primary source (expression n source) (ts @ rest) = postfix_loop source (expression n source) e rest"
      "unary source (expression n source) (ts @ rest) = primary source (expression n source) (ts @ rest)"
    if "spelt (Punct ''('' # body @ [Punct '')'']) ts" "length ts + length rest \<le> n" for n ts rest
    by (rule parens_primary [OF low that]; simp)+
  show "reads source e"
    unfolding reads_def
  proof (intro allI impI)
    fix p n ts rest
    assume p: "p \<le> (10::nat)" and s: "spelt (show_ast p e) ts" and l: "length ts + length rest \<le> n" and st: "stop p rest"
    show "level_parser source p n (ts @ rest) = p_ret e rest"
    proof (cases "q < p")
      case True
      with s have s': "spelt (Punct ''('' # body @ [Punct '')'']) ts" by (simp add: shown parens_def)
      show ?thesis by (rule reads_from_primary [OF prim [OF s' l] p st])
    next
      case False
      with s have "spelt body ts" by (simp add: shown parens_def)
      with low l st False show ?thesis by simp
    qed
  qed
  show "goes_on source e"
    unfolding goes_on_def
  proof (intro conjI allI impI)
    fix p n ts rest
    assume p: "p \<le> (8::nat)" "p \<notin> {1, 2}" and s: "spelt (show_ast p e) ts" and l: "length ts + length rest \<le> n" and f: "follows p rest"
    show "level_parser source p n (ts @ rest) = level_tail source p n e rest"
    proof (cases "q < p")
      case True
      with s have s': "spelt (Punct ''('' # body @ [Punct '')'']) ts" by (simp add: shown parens_def)
      show ?thesis by (rule goes_on_from_primary [OF prim [OF s' l] p(1) f])
    next
      case False
      with s have b: "spelt body ts" by (simp add: shown parens_def)
      show ?thesis
      proof (cases "p = q")
        case True
        with tail [OF _ b l] f p show ?thesis by simp
      next
        case neq: False
        with False have "Suc p \<le> q" by simp
        from level_tail_at [OF low [OF b l _ this] p(1)] f show ?thesis by (simp add: follows_def)
      qed
    qed
  next
    fix n ts and rest :: "token list"
    assume s: "spelt (show_ast 10 e) ts" and l: "length ts + length rest \<le> n"
    from s q have "spelt (Punct ''('' # body @ [Punct '')'']) ts" by (simp add: shown parens_def)
    from prim(1) [OF this l] show "primary source (expression n source) (ts @ rest) = postfix_loop source (expression n source) e rest" .
  qed
qed

text \<open>A tree of the primary level.\<close>

lemma realises_opens: "realises l t \<Longrightarrow> opens l \<Longrightarrow> t_text t \<notin> {''+'', ''-'', ''!''}"
  by (cases l) (auto simp: ident_name_def number_name_def lex_isIdent_def is_digit_def)

lemma levels_from_primary:
  assumes shown: "\<And>p. show_ast p e = body" and "starts_at 10 body"
    and prim: "\<And>n ts rest. spelt body ts \<Longrightarrow> length ts + length rest \<le> n \<Longrightarrow>
      primary source (expression n source) (ts @ rest) = postfix_loop source (expression n source) e rest"
  shows "reads source e" "goes_on source e"
proof -
  have un: "unary source (expression n source) (ts @ rest) = primary source (expression n source) (ts @ rest)"
    if "spelt body ts" for n ts rest
  proof -
    obtain l ls where l: "body = l # ls" "opens l" using assms(2) by (auto simp: starts_at_def)
    with that obtain t us where "ts = t # us" "realises l t" by (auto simp: list_all2_Cons1)
    with realises_opens [of l t] l(2) show ?thesis by (intro unary_primary) auto
  qed
  show "reads source e" "goes_on source e"
    unfolding reads_def goes_on_def shown
    using reads_from_primary [OF prim un] goes_on_from_primary [OF prim un] prim by blast+
qed

section \<open>The trees of each level\<close>

lemma read_expr:
  assumes "reads source e" "spelt (show_ast 1 e) ts" "length ts + length rest < n" "stop 1 rest"
  shows "expression n source (ts @ rest) = Some (Inr (e, rest))"
proof -
  obtain m where m: "n = Suc m" using assms(3) by (cases n) auto
  with readsD [OF assms(1,2), of rest m] assms(3,4) have "level_parser source (Suc 0) m (ts @ rest) = p_ret e rest" by simp
  then show ?thesis by (simp add: level_parser_simps m p_ret_def del: expression.simps)
qed

lemma stop_closed: "t_text t \<in> {'')'', '']'', ''}'', '','', '':''} \<Longrightarrow> stop (Suc p) (t # rest)"
proof -
  assume t: "t_text t \<in> {'')'', '']'', ''}'', '','', '':''}"
  have "set (conts (Suc p)) \<subseteq> set (conts 1)" by (rule set_conts_mono) simp
  moreover have "t_text t \<notin> set (conts 1)" using t by (auto simp: conts_def continuations_def level_ops_def)
  ultimately show ?thesis by (auto simp: stop_def)
qed

lemma realises_starts: "realises l t \<Longrightarrow> starts l \<Longrightarrow> t_text t \<notin> {'')'', '']'', ''}'', '';''}"
  by (cases l) (auto simp: starts_def ident_name_def number_name_def lex_isIdent_def is_digit_def)

lemma spelt_starts:
  assumes "printable e" "spelt (show_ast p e) ts"
  obtains t us where "ts = t # us" "t_text t \<notin> {'')'', '']'', ''}'', '';''}"
proof -
  obtain l ls where "show_ast p e = l # ls" "starts l" using show_starts [OF assms(1), of p] by (auto simp: starts_at_def)
  with assms(2) realises_starts [of l] that show thesis by (auto simp: list_all2_Cons1)
qed

subsection \<open>Primary trees\<close>

lemma primary_of_start:
  "primary_start source expr us = Some (Inr (e, rest)) \<Longrightarrow> primary source expr us = postfix_loop source expr e rest"
  by (simp add: primary_def p_bind_def)

lemma number_not_open: "number_name s \<Longrightarrow> s \<notin> {''('', ''['', ''{''}"
  by (auto simp: number_name_def is_digit_def)

lemma not_keyword: "s \<noteq> [] \<Longrightarrow> hd s \<notin> {CHR ''t'', CHR ''f'', CHR ''n'', CHR ''u''} \<Longrightarrow> ast_constants s = None"
  by (cases s) (simp_all add: ast_constants_def)

lemma number_not_keyword: "number_name s \<Longrightarrow> ast_constants s = None"
proof (rule not_keyword)
  assume s: "number_name s"
  then show "s \<noteq> []" by (simp add: number_name_def)
  have "\<not> is_digit (CHR ''t'')" "\<not> is_digit (CHR ''f'')" "\<not> is_digit (CHR ''n'')" "\<not> is_digit (CHR ''u'')"
    by code_simp+
  then show "hd s \<notin> {CHR ''t'', CHR ''f'', CHR ''n'', CHR ''u''}" using s by (auto simp: number_name_def)
qed

lemma constant_start:
  assumes "constant_ok c" "realises (constant_lexeme c) t"
  shows "t_text t \<notin> {''('', ''['', ''{''}" "ast_constants (t_text t) = None" "t_constant t = Some c" "\<not> t_identifier t"
proof -
  have "t_text t \<notin> {''('', ''['', ''{''} \<and> ast_constants (t_text t) = None \<and> t_constant t = Some c \<and> \<not> t_identifier t"
  proof (cases c)
    case (NumberOf s)
    with assms number_not_open [of s] number_not_keyword [of s] show ?thesis by simp
  next
    case (StringOf v)
    with assms(2) obtain r where r: "t_text t = CHR 0x22 # r" "t_constant t = Some c" "\<not> t_identifier t" by auto
    moreover have "ast_constants (CHR 0x22 # r) = None" by (rule not_keyword) simp_all
    ultimately show ?thesis by simp
  qed
  then show "t_text t \<notin> {''('', ''['', ''{''}" "ast_constants (t_text t) = None" "t_constant t = Some c" "\<not> t_identifier t"
    by simp_all
qed

lemma read_literal:
  assumes "printable (Literal l)" shows "reads source (Literal l)" "goes_on source (Literal l)"
proof -
  have "primary_start source expr (ts @ rest) = Some (Inr (Literal l, rest))"
    if "spelt [literal_lexeme l] ts" for expr ts rest
  proof -
    from that obtain t where t: "ts = [t]" "realises (literal_lexeme l) t" by (auto simp: list_all2_Cons1)
    show ?thesis
    proof (cases l)
      case (ConstantLit c)
      with assms t constant_start [of c t] show ?thesis
        by (simp add: primary_start_def p_constant_def p_consume_any_def parser_simps)
    qed (use t in \<open>simp_all add: primary_start_def ast_constants_def parser_simps\<close>)
  qed
  then have "primary source (expression n source) (ts @ rest) = postfix_loop source (expression n source) (Literal l) rest"
    if "spelt [literal_lexeme l] ts" for n ts rest using that by (blast intro: primary_of_start)
  then show "reads source (Literal l)" "goes_on source (Literal l)"
    using levels_from_primary [of "Literal l" "[literal_lexeme l]" source] opens_literal [OF assms]
    by (simp_all add: starts_at_open del: printable.simps)
qed

lemma read_this: "reads source ThisExpression" "goes_on source ThisExpression"
proof -
  have "primary source (expression n source) (ts @ rest) = postfix_loop source (expression n source) ThisExpression rest"
    if "spelt [Name ''this''] ts" for n ts rest
    using that by (intro primary_of_start) (auto simp: list_all2_Cons1 primary_start_def ast_constants_def parser_simps)
  then show "reads source ThisExpression" "goes_on source ThisExpression"
    using levels_from_primary [of ThisExpression "[Name ''this'']" source] by (simp_all add: starts_at_open ident_keywords)
qed

lemma read_name: "realises (Name s) t \<Longrightarrow> p_identifier source (t # us) = Some (Inr (Identifier s, us))"
  by (simp add: p_identifier_def p_consume_any_def parser_simps)

lemma ident_not_open: "ident_name s \<Longrightarrow> s \<notin> {''('', ''['', ''{''}"
  by (auto simp: ident_name_def lex_isIdent_def)

lemma read_identifier:
  assumes "printable (Identifier s)" shows "reads source (Identifier s)" "goes_on source (Identifier s)"
proof -
  have s: "ident_name s" "ast_constants s = None" using assms by simp_all
  have "primary source (expression n source) (ts @ rest) = postfix_loop source (expression n source) (Identifier s) rest"
    if "spelt [Name s] ts" for n ts rest
  proof (rule primary_of_start)
    from that obtain t where t: "ts = [t]" "realises (Name s) t" by (auto simp: list_all2_Cons1)
    with read_name [OF t(2)] ident_not_open [OF s(1)] s(2)
    show "primary_start source (expression n source) (ts @ rest) = Some (Inr (Identifier s, rest))"
      by (simp add: primary_start_def)
  qed
  then show "reads source (Identifier s)" "goes_on source (Identifier s)"
    using levels_from_primary [of "Identifier s" "[Name s]" source] s(1) by (simp_all add: starts_at_open)
qed

subsection \<open>Lists of trees\<close>

lemma commas_Cons: "lss \<noteq> [] \<Longrightarrow> commas (ls # lss) = ls @ Punct '','' # commas lss"
  by (cases lss) simp_all

lemma comma_not_closed: "t_text v \<in> {'')'', '']'', ''}''} \<Longrightarrow> p_expect ['',''] (v # rest) = Some (Inr (None, v # rest))"
  by (auto simp: p_expect_def p_peek_def)

lemma read_arguments:
  assumes "es \<noteq> []" "\<And>e. e \<in> set es \<Longrightarrow> reads source e" "spelt (commas (map (show_ast 1) es)) ts"
    and "t_text v \<in> {'')'', '']'', ''}''}" "length ts + length (v # rest) < n"
  shows "arguments_loop (expression n source) args (ts @ v # rest) = Some (Inr (args @ es, v # rest))"
  using assms
proof (induction es arbitrary: args ts)
  case (Cons e es)
  then have e: "reads source e" by simp
  show ?case
  proof (cases "es = []")
    case True
    have "expression n source (ts @ v # rest) = Some (Inr (e, v # rest))"
      using Cons.prems True stop_closed [of v 0] by (intro read_expr [OF e]) auto
    with True comma_not_closed [OF Cons.prems(4)] show ?thesis
      by (simp add: arguments_loop.simps [of _ _ "ts @ v # rest"] p_bind_def p_ret_def)
  next
    case False
    with Cons.prems(3) obtain us c vs where ts: "ts = us @ c # vs" "spelt (show_ast 1 e) us" "t_text c = '',''"
        "spelt (commas (map (show_ast 1) es)) vs"
      by (auto simp: commas_Cons list_all2_append1 list_all2_Cons1)
    have "expression n source (us @ c # vs @ v # rest) = Some (Inr (e, c # vs @ v # rest))"
      using Cons.prems(5) ts stop_closed [of c 0] by (intro read_expr [OF e]) auto
    moreover have "arguments_loop (expression n source) (args @ [e]) (vs @ v # rest) = Some (Inr (args @ e # es, v # rest))"
      using Cons.IH [OF False _ ts(4) Cons.prems(4), of "args @ [e]"] Cons.prems(2,5) ts(1) by simp
    ultimately show ?thesis
      using ts by (simp add: arguments_loop.simps [of _ _ "us @ c # vs @ v # rest"] p_bind_def expect_hit shorter_def)
  qed
qed simp

lemma read_elements:
  assumes "es \<noteq> []" "\<And>e. e \<in> set es \<Longrightarrow> reads source e \<and> printable e" "spelt (commas (map (show_ast 1) es)) ts"
    and "t_text v = '']''" "length ts + length (v # rest) < n"
  shows "elements_loop (expression n source) args (ts @ v # rest) = Some (Inr (args @ es, v # rest))"
  using assms
proof (induction es arbitrary: args ts)
  case (Cons e es)
  then have e: "reads source e" "printable e" by simp_all
  show ?case
  proof (cases "es = []")
    case True
    with Cons.prems(3) have s: "spelt (show_ast 1 e) ts" by simp
    then obtain t us where t: "ts = t # us" "t_text t \<notin> {'')'', '']'', ''}'', '';''}" by (rule spelt_starts [OF e(2)])
    then have peek: "p_peek ['']''] (ts @ v # rest) = None" by (simp add: p_peek_def)
    have "expression n source (ts @ v # rest) = Some (Inr (e, v # rest))"
      using Cons.prems s stop_closed [of v 0] by (intro read_expr [OF e(1)]) auto
    with True comma_not_closed [of v rest] Cons.prems(4) peek show ?thesis
      by (simp add: elements_loop.simps [of _ _ "ts @ v # rest"] p_bind_def p_ret_def)
  next
    case False
    with Cons.prems(3) obtain us c vs where ts: "ts = us @ c # vs" "spelt (show_ast 1 e) us" "t_text c = '',''"
        "spelt (commas (map (show_ast 1) es)) vs"
      by (auto simp: commas_Cons list_all2_append1 list_all2_Cons1)
    obtain t us' where t: "us = t # us'" "t_text t \<notin> {'')'', '']'', ''}'', '';''}" by (rule spelt_starts [OF e(2) ts(2)])
    then have peek: "p_peek ['']''] (us @ c # vs @ v # rest) = None" by (simp add: p_peek_def)
    have "expression n source (us @ c # vs @ v # rest) = Some (Inr (e, c # vs @ v # rest))"
      using Cons.prems(5) ts stop_closed [of c 0] by (intro read_expr [OF e(1)]) auto
    moreover have "elements_loop (expression n source) (args @ [e]) (vs @ v # rest) = Some (Inr (args @ e # es, v # rest))"
      using Cons.IH [OF False _ ts(4) Cons.prems(4), of "args @ [e]"] Cons.prems(2,5) ts(1) by simp
    ultimately show ?thesis
      using ts peek by (simp add: elements_loop.simps [of _ _ "us @ c # vs @ v # rest"] p_bind_def expect_hit shorter_def)
  qed
qed simp

lemma read_key:
  assumes "key_ok k" "realises (key_lexeme k) t"
  shows "object_key source (t # us) = Some (Inr (k, us))" "t_text t \<noteq> ''}''"
proof -
  have "object_key source (t # us) = Some (Inr (k, us)) \<and> t_text t \<noteq> ''}''"
  proof (cases k rule: key_ok.cases)
    case (1 c)
    with assms constant_start [of c t] have "t_constant t = Some c" by simp
    moreover have "t_text t \<noteq> ''}''"
      using assms 1 by (cases c) (auto simp: number_name_def is_digit_def)
    ultimately show ?thesis
      using 1 by (simp add: object_key_def p_peek_def p_constant_def p_consume_any_def parser_simps)
  next
    case (2 s)
    with assms have "realises (Name s) t" "ident_name s" by simp_all
    with 2 read_name [of s t source us] show ?thesis
      by (auto simp: object_key_def p_peek_def ident_name_def lex_isIdent_def)
  qed (use assms(1) in simp_all)
  then show "object_key source (t # us) = Some (Inr (k, us))" "t_text t \<noteq> ''}''" by simp_all
qed

abbreviation show_property :: "ast \<times> ast \<Rightarrow> lexeme list" where
  "show_property kv \<equiv> key_lexeme (fst kv) # Punct '':'' # show_ast 1 (snd kv)"

lemma read_properties:
  assumes "ps \<noteq> []" "\<And>kv. kv \<in> set ps \<Longrightarrow> reads source (snd kv) \<and> key_ok (fst kv)" "spelt (commas (map show_property ps)) ts"
    and "t_text v = ''}''" "length ts + length (v # rest) < n"
  shows "properties_loop source (expression n source) args (ts @ v # rest) = Some (Inr (args @ ps, v # rest))"
  using assms
proof (induction ps arbitrary: args ts)
  case (Cons kv ps)
  then have e: "reads source (snd kv)" "key_ok (fst kv)" by simp_all
  show ?case
  proof (cases "ps = []")
    case True
    with Cons.prems(3) obtain t c us where ts: "ts = t # c # us" "realises (key_lexeme (fst kv)) t" "t_text c = '':''"
        "spelt (show_ast 1 (snd kv)) us"
      by (auto simp: list_all2_Cons1)
    note k = read_key [OF e(2) ts(2)]
    have "expression n source (us @ v # rest) = Some (Inr (snd kv, v # rest))"
      using Cons.prems(4,5) ts stop_closed [of v 0] by (intro read_expr [OF e(1)]) auto
    with True comma_not_closed [of v rest] Cons.prems(4) k ts(3) show ?thesis
      unfolding ts(1)
      by (simp add: properties_loop.simps [of _ _ _ "t # c # us @ v # rest"] p_bind_def p_ret_def p_peek_def consume_hit)
  next
    case False
    with Cons.prems(3) obtain t k us c vs where ts: "ts = t # k # us @ c # vs" "realises (key_lexeme (fst kv)) t" "t_text k = '':''"
        "spelt (show_ast 1 (snd kv)) us" "t_text c = '',''" "spelt (commas (map show_property ps)) vs"
      by (auto simp: commas_Cons list_all2_append1 list_all2_Cons1)
    note key = read_key [OF e(2) ts(2)]
    have "expression n source (us @ c # vs @ v # rest) = Some (Inr (snd kv, c # vs @ v # rest))"
      using Cons.prems(5) ts stop_closed [of c 0] by (intro read_expr [OF e(1)]) auto
    moreover have "properties_loop source (expression n source) (args @ [kv]) (vs @ v # rest) = Some (Inr (args @ kv # ps, v # rest))"
      using Cons.IH [OF False _ ts(6) Cons.prems(4), of "args @ [kv]"] Cons.prems(2,5) ts(1) by simp
    ultimately show ?thesis
      using ts(3,5) key unfolding ts(1)
      by (simp add: properties_loop.simps [of _ _ _ "t # k # us @ c # vs @ v # rest"] p_bind_def p_peek_def expect_hit
        consume_hit shorter_def)
  qed
qed simp

subsection \<open>Arrays, objects, members and calls\<close>

lemma read_array:
  assumes "printable (ArrayExpression es)" "\<And>e. e \<in> set es \<Longrightarrow> reads source e"
  shows "reads source (ArrayExpression es)" "goes_on source (ArrayExpression es)"
proof -
  have "primary source (expression n source) (ts @ rest) = postfix_loop source (expression n source) (ArrayExpression es) rest"
    if s: "spelt (show_ast 10 (ArrayExpression es)) ts" and l: "length ts + length rest \<le> n" for n ts rest
  proof (rule primary_of_start)
    from s obtain t us v where t: "ts = t # us @ [v]" "t_text t = ''[''" "spelt (commas (map (show_ast 1) es)) us" "t_text v = '']''"
      by (auto simp: list_all2_Cons1 list_all2_append1)
    show "primary_start source (expression n source) (ts @ rest) = Some (Inr (ArrayExpression es, rest))"
    proof (cases "es = []")
      case True
      with t show ?thesis
        by (simp add: primary_start_def arrayDeclaration_def p_peekToken_def p_bind_def p_ret_def consume_hit)
    next
      case False
      obtain e es' where es: "es = e # es'" using False by (cases es) auto
      then have pe: "printable e" using assms(1) by simp
      have "\<exists>ws. spelt (show_ast 1 e) ws \<and> (\<exists>xs. us = ws @ xs)"
        using t(3) es by (cases "es' = []") (auto simp: commas_Cons list_all2_append1)
      then obtain w ws where w: "us = w # ws" "t_text w \<notin> {'')'', '']'', ''}'', '';''}"
        using spelt_starts [OF pe] by (metis append_Cons)
      have "elements_loop (expression n source) [] (us @ v # rest) = Some (Inr (es, v # rest))"
        using read_elements [OF False _ t(3,4), of source rest n "[]"] assms t(1) l by (simp add: list_all_iff)
      with t w show ?thesis
        by (simp add: primary_start_def arrayDeclaration_def p_peekToken_def p_bind_def p_ret_def consume_hit)
    qed
  qed
  then show "reads source (ArrayExpression es)" "goes_on source (ArrayExpression es)"
    using levels_from_primary [of "ArrayExpression es" "show_ast 10 (ArrayExpression es)" source]
    by (simp_all add: starts_at_open)
qed

lemma read_object:
  assumes "printable (ObjectExpression ps)" "\<And>kv. kv \<in> set ps \<Longrightarrow> reads source (snd kv)"
  shows "reads source (ObjectExpression ps)" "goes_on source (ObjectExpression ps)"
proof -
  have "primary source (expression n source) (ts @ rest) = postfix_loop source (expression n source) (ObjectExpression ps) rest"
    if s: "spelt (show_ast 10 (ObjectExpression ps)) ts" and l: "length ts + length rest \<le> n" for n ts rest
  proof (rule primary_of_start)
    from s obtain t us v where t: "ts = t # us @ [v]" "t_text t = ''{''" "spelt (commas (map show_property ps)) us" "t_text v = ''}''"
      by (auto simp: list_all2_Cons1 list_all2_append1)
    show "primary_start source (expression n source) (ts @ rest) = Some (Inr (ObjectExpression ps, rest))"
    proof (cases "ps = []")
      case True
      with t show ?thesis
        by (simp add: primary_start_def object_expression_def p_peekToken_def p_bind_def p_ret_def consume_hit)
    next
      case False
      obtain kv ps' where ps: "ps = kv # ps'" using False by (cases ps) auto
      obtain w ws where w: "us = w # ws" "realises (key_lexeme (fst kv)) w"
        using t(3) ps by (cases "ps' = []") (auto simp: commas_Cons list_all2_append1 list_all2_Cons1)
      have "key_ok (fst kv)" using assms(1) ps by simp
      note w' = read_key(2) [OF this w(2)]
      have "properties_loop source (expression n source) [] (us @ v # rest) = Some (Inr (ps, v # rest))"
        using read_properties [OF False _ t(3,4), of source rest n "[]"] assms t(1) l by (simp add: list_all_iff)
      with t w w' show ?thesis
        by (simp add: primary_start_def object_expression_def p_peekToken_def p_bind_def p_ret_def consume_hit)
    qed
  qed
  then show "reads source (ObjectExpression ps)" "goes_on source (ObjectExpression ps)"
    using levels_from_primary [of "ObjectExpression ps" "show_ast 10 (ObjectExpression ps)" source]
    by (simp_all add: starts_at_open)
qed

lemma read_member:
  assumes pr: "printable (MemberExpression a b computed)" and a: "goes_on source a"
    and b: "computed \<Longrightarrow> reads source b"
  shows "reads source (MemberExpression a b computed)" "goes_on source (MemberExpression a b computed)"
proof -
  let ?e = "MemberExpression a b computed"
  have "primary source (expression n source) (ts @ rest) = postfix_loop source (expression n source) ?e rest"
    if s: "spelt (show_ast 10 ?e) ts" and l: "length ts + length rest \<le> n" for n ts rest
  proof (cases computed)
    case True
    with s obtain us t vs v where t: "ts = us @ t # vs @ [v]" "spelt (show_ast 10 a) us" "t_text t = ''[''"
        "spelt (show_ast 1 b) vs" "t_text v = '']''"
      by (auto simp: list_all2_Cons1 list_all2_append1)
    have "expression n source (vs @ v # rest) = Some (Inr (b, v # rest))"
      using l t stop_closed [of v 0] by (intro read_expr [OF b [OF True]]) auto
    with goes_on_primaryD [OF a t(2), of "t # vs @ v # rest" n] l t True show ?thesis
      by (simp add: postfix_loop.simps [of _ _ _ "t # vs @ v # rest"] expect_hit p_bind_def p_ret_def consume_hit shorter_def)
  next
    case False
    with pr obtain f where f: "b = Identifier f" by (cases b) auto
    with s False obtain us t v where t: "ts = us @ [t, v]" "spelt (show_ast 10 a) us" "t_text t = ''.''" "realises (Name f) v"
      by (auto simp: list_all2_Cons1 list_all2_append1)
    with goes_on_primaryD [OF a t(2), of "t # v # rest" n] l False f read_name [OF t(4)] show ?thesis
      by (simp add: postfix_loop.simps [of _ _ _ "t # v # rest"] expect_hit p_bind_def p_ret_def shorter_def)
  qed
  then show "reads source ?e" "goes_on source ?e"
    using levels_from_primary [of ?e "show_ast 10 ?e" source] show_starts [OF pr, of 10] by simp_all
qed

lemma read_call:
  assumes pr: "printable (CallExpression c args False)" and c: "goes_on source c"
    and args: "\<And>e. e \<in> set args \<Longrightarrow> reads source e"
  shows "reads source (CallExpression c args False)" "goes_on source (CallExpression c args False)"
proof -
  let ?e = "CallExpression c args False"
  have "primary source (expression n source) (ts @ rest) = postfix_loop source (expression n source) ?e rest"
    if s: "spelt (show_ast 10 ?e) ts" and l: "length ts + length rest \<le> n" for n ts rest
  proof -
    from s obtain us t vs v where t: "ts = us @ t # vs @ [v]" "spelt (show_ast 10 c) us" "t_text t = ''(''"
        "spelt (commas (map (show_ast 1) args)) vs" "t_text v = '')''"
      by (auto simp: list_all2_Cons1 list_all2_append1)
    have "parseArguments source (expression n source) (vs @ v # rest) = Some (Inr (args, v # rest))"
    proof (cases "args = []")
      case True
      with t show ?thesis by (simp add: parseArguments_def p_peekToken_def p_bind_def p_ret_def)
    next
      case False
      then obtain e es where es: "args = e # es" by (cases args) auto
      then have pe: "printable e" using pr by simp
      have "\<exists>ws. spelt (show_ast 1 e) ws \<and> (\<exists>xs. vs = ws @ xs)"
        using t(4) es by (cases "es = []") (auto simp: commas_Cons list_all2_append1)
      then obtain w ws where w: "vs = w # ws" "t_text w \<notin> {'')'', '']'', ''}'', '';''}"
        using spelt_starts [OF pe] by (metis append_Cons)
      have "arguments_loop (expression n source) [] (vs @ v # rest) = Some (Inr (args, v # rest))"
        using read_arguments [OF False args t(4), of v rest n "[]"] t(1,5) l by simp
      with w show ?thesis by (simp add: parseArguments_def p_peekToken_def p_bind_def)
    qed
    with goes_on_primaryD [OF c t(2), of "t # vs @ v # rest" n] l t show ?thesis
      by (simp add: postfix_loop.simps [of _ _ _ "t # vs @ v # rest"] expect_hit p_bind_def p_ret_def consume_hit shorter_def)
  qed
  then show "reads source ?e" "goes_on source ?e"
    using levels_from_primary [of ?e "show_ast 10 ?e" source] show_starts [OF pr, of 10] by simp_all
qed

subsection \<open>Operators\<close>

lemma read_unary:
  assumes pr: "printable (UnaryExpression op a)" and a: "reads source a"
  shows "reads source (UnaryExpression op a)" "goes_on source (UnaryExpression op a)"
proof -
  let ?e = "UnaryExpression op a" and ?body = "Punct op # show_ast 9 a"
  have core: "level_parser source 9 n (ts @ rest) = p_ret ?e rest"
    if s: "spelt ?body ts" and l: "length ts + length rest \<le> n" and st: "stop 9 rest" for n ts rest
  proof -
    from s obtain t us where t: "ts = t # us" "t_text t = op" "spelt (show_ast 9 a) us" by (auto simp: list_all2_Cons1)
    have "unary source (expression n source) (us @ rest) = p_ret a rest"
      using readsD [OF a t(3), of rest n] l st t(1) by (simp add: level_parser_simps)
    with t pr show ?thesis by (simp add: level_parser_simps p_bind_def p_ret_def)
  qed
  show "reads source ?e" "goes_on source ?e"
    by (rule levels_from_core [of ?e 9 ?body]; use core in \<open>simp add: parens_def\<close>)+
qed

lemma op_level_ops:
  assumes "op \<in> set (level_ops p)" "3 \<le> p" "p \<le> 8"
  shows "op_level op = p"
  using assms(2,3) below_9 [OF assms(3)] assms(1) by (elim disjE) (auto simp: op_level_def level_ops_def)

lemma op_continues: "op \<in> set (level_ops p) \<Longrightarrow> 3 \<le> p \<Longrightarrow> p \<le> 8 \<Longrightarrow> t_text t = op \<Longrightarrow> follows p (t # rest)"
  using below_9 [of p]
  by (auto simp: follows_def stop_def conts_def continuations_def level_ops_def)

lemma read_operator:
  assumes shown: "\<And>q. show_ast q e = parens (p < q) (show_ast p l @ Punct op # show_ast (Suc p) r)"
    and op: "op \<in> set (level_ops p)" "3 \<le> p" "p \<le> 8"
    and e: "e = (if p < 5 then LogicalExpression else BinaryExpression) op l r"
    and l: "goes_on source l" and r: "reads source r"
  shows "reads source e" "goes_on source e"
proof -
  let ?body = "show_ast p l @ Punct op # show_ast (Suc p) r"
  have tail: "level_parser source p n (ts @ rest) = level_tail source p n e rest"
    if s: "spelt ?body ts" and len: "length ts + length rest \<le> n" and f: "follows p rest" for n ts rest
  proof -
    from s obtain us t vs where t: "ts = us @ t # vs" "spelt (show_ast p l) us" "t_text t = op" "spelt (show_ast (Suc p) r) vs"
      by (auto simp: list_all2_Cons1 list_all2_append1)
    have "level_parser source p n (us @ t # vs @ rest) = level_tail source p n l (t # vs @ rest)"
      using goes_onD [OF l t(2) _ op_continues [OF op t(3)], of "vs @ rest" n] len t(1) op by simp
    moreover have "level_parser source (Suc p) n (vs @ rest) = p_ret r rest"
      using readsD [OF r t(4), of rest n] len t(1) f op by (simp add: follows_def)
    ultimately show ?thesis
      using op t(1,3) e
      by (simp add: level_tail_def Let_def left_assoc.simps [of _ _ _ _ "t # vs @ rest"] expect_hit p_bind_def p_ret_def shorter_def)
  qed
  have core: "level_parser source p n (ts @ rest) = p_ret e rest"
    if "spelt ?body ts" "length ts + length rest \<le> n" "stop p rest" for n ts rest
    using tail [OF that(1,2) stop_follows [OF that(3)]] tail_stop [OF op(3) that(3)] by simp
  show "reads source e" "goes_on source e"
    using levels_from_core [OF shown _ core tail] op by auto
qed

lemma read_binary:
  assumes "printable (BinaryExpression op l r)" "goes_on source l" "reads source r"
  shows "reads source (BinaryExpression op l r)" "goes_on source (BinaryExpression op l r)"
proof -
  from assms(1) consider "op \<in> set (level_ops 5)" | "op \<in> set (level_ops 6)" | "op \<in> set (level_ops 7)" | "op \<in> set (level_ops 8)"
    by auto
  then obtain p where p: "op \<in> set (level_ops p)" "5 \<le> p" "p \<le> 8" by cases auto
  then have "op_level op = p" by (intro op_level_ops) auto
  then have "\<And>q. show_ast q (BinaryExpression op l r) = parens (p < q) (show_ast p l @ Punct op # show_ast (Suc p) r)" by simp
  from read_operator [OF this p(1) _ p(3) _ assms(2,3)] p(2)
  show "reads source (BinaryExpression op l r)" "goes_on source (BinaryExpression op l r)" by simp_all
qed

lemma read_logical:
  assumes "printable (LogicalExpression op l r)" "goes_on source l" "reads source r"
  shows "reads source (LogicalExpression op l r)" "goes_on source (LogicalExpression op l r)"
proof -
  from assms(1) consider "op \<in> set (level_ops 3)" | "op \<in> set (level_ops 4)" by (auto simp: level_ops_def)
  then obtain p where p: "op \<in> set (level_ops p)" "3 \<le> p" "p < 5" by cases auto
  then have "op_level op = p" by (intro op_level_ops) auto
  then have "\<And>q. show_ast q (LogicalExpression op l r) = parens (p < q) (show_ast p l @ Punct op # show_ast (Suc p) r)" by simp
  from read_operator [OF this p(1,2) _ _ assms(2,3)] p(3)
  show "reads source (LogicalExpression op l r)" "goes_on source (LogicalExpression op l r)" by simp_all
qed

lemma read_conditional:
  assumes t: "reads source t" and a: "reads source a" and c: "reads source c"
  shows "reads source (ConditionalExpression t a c)" "goes_on source (ConditionalExpression t a c)"
proof -
  let ?e = "ConditionalExpression t a c"
  let ?body = "show_ast 3 t @ Punct ''?'' # show_ast 1 a @ Punct '':'' # show_ast 1 c"
  have core: "level_parser source 1 n (ts @ rest) = p_ret ?e rest"
    if s: "spelt ?body ts" and l: "length ts + length rest \<le> n" and st: "stop 1 rest" for n ts rest
  proof -
    from s obtain us q vs k ws where t': "ts = us @ q # vs @ k # ws" "spelt (show_ast 3 t) us" "t_text q = ''?''"
        "spelt (show_ast 1 a) vs" "t_text k = '':''" "spelt (show_ast 1 c) ws"
      by (auto simp: list_all2_Cons1 list_all2_append1)
    have "stop 3 (q # vs @ k # ws @ rest)" using t'(3) by (simp add: stop_def conts_def continuations_def level_ops_def)
    then have "level_parser source 3 n (us @ q # vs @ k # ws @ rest) = p_ret t (q # vs @ k # ws @ rest)"
      using readsD [OF t t'(2), of "q # vs @ k # ws @ rest" n] l t'(1) by simp
    moreover have "expression n source (vs @ k # ws @ rest) = Some (Inr (a, k # ws @ rest))"
      using l t' stop_closed [of k 0] by (intro read_expr [OF a]) auto
    moreover have "expression n source (ws @ rest) = Some (Inr (c, rest))"
      using l t' st by (intro read_expr [OF c]) auto
    ultimately have "level_parser source 2 n (ts @ rest) = p_ret ?e rest"
      using t' by (simp add: level_step [of 2] level_tail_def Let_def p_bind_def p_ret_def expect_hit consume_hit)
    from level_down [OF this _ _ st] show ?thesis by simp
  qed
  show "reads source ?e" "goes_on source ?e"
    by (rule levels_from_core [of ?e 1 ?body]; use core in simp)+
qed

lemma read_assignment:
  assumes l: "reads source l" and r: "reads source r"
  shows "reads source (AssignmentExpression l r)" "goes_on source (AssignmentExpression l r)"
proof -
  let ?e = "AssignmentExpression l r" and ?body = "show_ast 3 l @ Punct ''='' # show_ast 1 r"
  have core: "level_parser source 1 n (ts @ rest) = p_ret ?e rest"
    if s: "spelt ?body ts" and len: "length ts + length rest \<le> n" and st: "stop 1 rest" for n ts rest
  proof -
    from s obtain us q vs where t: "ts = us @ q # vs" "spelt (show_ast 3 l) us" "t_text q = ''=''" "spelt (show_ast 1 r) vs"
      by (auto simp: list_all2_Cons1 list_all2_append1)
    have st2: "stop 2 (q # vs @ rest)" using t(3) by (simp add: stop_def conts_def continuations_def level_ops_def)
    have "level_parser source 3 n (us @ q # vs @ rest) = p_ret l (q # vs @ rest)"
      using readsD [OF l t(2), of "q # vs @ rest" n] stop_mono [OF st2, of 3] len t(1) by simp
    from level_down [OF this _ _ st2] have "level_parser source 2 n (us @ q # vs @ rest) = p_ret l (q # vs @ rest)" by simp
    moreover have "expression n source (vs @ rest) = Some (Inr (r, rest))"
      using len t st by (intro read_expr [OF r]) auto
    ultimately show ?thesis
      using t by (simp add: level_step [of "Suc 0"] numeral_2_eq_2 level_tail_def Let_def p_bind_def p_ret_def expect_hit)
  qed
  show "reads source ?e" "goes_on source ?e"
    by (rule levels_from_core [of ?e 1 ?body]; use core in simp)+
qed

subsection \<open>Filters\<close>

lemma read_filter_args:
  assumes "\<And>e. e \<in> set es \<Longrightarrow> reads source e" "spelt (concat (map (\<lambda>a. Punct '':'' # show_ast 1 a) es)) ts"
    and "length ts + length rest \<le> n" "follows 0 rest"
  shows "filter_args (expression (Suc n) source) args (ts @ rest) = Some (Inr (args @ es, rest))"
  using assms
proof (induction es arbitrary: args ts)
  case Nil
  then show ?case
    by (simp add: filter_args.simps p_bind_def p_ret_def p_expect_def follows_def)
next
  case (Cons e es)
  from Cons.prems(2) obtain k us vs where t: "ts = k # us @ vs" "t_text k = '':''" "spelt (show_ast 1 e) us"
      "spelt (concat (map (\<lambda>a. Punct '':'' # show_ast 1 a) es)) vs"
    by (auto simp: list_all2_Cons1 list_all2_append1)
  have "stop 1 (vs @ rest)"
  proof (cases es)
    case Nil
    with t(4) Cons.prems(4) show ?thesis by (simp add: follows_def)
  next
    case (Cons e' es')
    with t(4) obtain k' ws where "vs = k' # ws" "t_text k' = '':''" by (auto simp: list_all2_Cons1)
    then show ?thesis using stop_closed [of k' 0] by simp
  qed
  with t Cons.prems(1,3) have "expression (Suc n) source (us @ vs @ rest) = Some (Inr (e, vs @ rest))"
    by (intro read_expr) auto
  moreover have "filter_args (expression (Suc n) source) (args @ [e]) (vs @ rest) = Some (Inr (args @ e # es, rest))"
    using Cons.IH [OF _ t(4) _ Cons.prems(4), of "args @ [e]"] Cons.prems(1,3) t(1) by (simp del: expression.simps)
  ultimately show ?case
    using t by (simp add: filter_args.simps [of _ _ "k # us @ vs @ rest"] p_bind_def expect_hit shorter_def del: expression.simps)
qed

lemma read_filter:
  assumes pr: "printable (CallExpression c args True)" and args: "\<And>e. e \<in> set args \<Longrightarrow> reads source e \<and> goes_on source e"
  shows "reads source (CallExpression c args True)" "goes_on source (CallExpression c args True)"
proof -
  from pr obtain f where f: "c = Identifier f" by (cases c) auto
  from pr obtain b bs where bs: "args = b # bs" by (cases args) auto
  let ?e = "CallExpression c args True"
  let ?body = "show_ast 0 b @ Punct ''|'' # Name f # concat (map (\<lambda>a. Punct '':'' # show_ast 1 a) bs)"
  have tail: "level_parser source 0 n (ts @ rest) = level_tail source 0 n ?e rest"
    if s: "spelt ?body ts" and l: "length ts + length rest \<le> n" and fo: "follows 0 rest" for n ts rest
  proof -
    from s obtain us q v vs where t: "ts = us @ q # v # vs" "spelt (show_ast 0 b) us" "t_text q = ''|''" "realises (Name f) v"
        "spelt (concat (map (\<lambda>a. Punct '':'' # show_ast 1 a) bs)) vs"
      by (auto simp: list_all2_Cons1 list_all2_append1)
    have "follows 0 (q # v # vs @ rest)"
      using t(3) by (simp add: follows_def stop_def conts_def continuations_def level_ops_def p_peek_def)
    then have "level_parser source 0 n (us @ q # v # vs @ rest) = level_tail source 0 n b (q # v # vs @ rest)"
      using goes_onD [OF _ t(2), of source "q # v # vs @ rest" n] args bs l t(1) by simp
    moreover have "filter_args (expression (Suc n) source) [b] (vs @ rest) = Some (Inr (b # bs, rest))"
      using read_filter_args [OF _ t(5) _ fo, of source n "[b]"] args bs l t(1) by simp
    ultimately show ?thesis
      using t(1,3) f bs read_name [OF t(4), of source "vs @ rest"]
      by (simp add: level_tail_def Let_def filter_loop.simps [of _ _ _ "q # v # vs @ rest"] p_filter_def p_bind_def p_ret_def
        expect_hit shorter_def del: expression.simps)
  qed
  have core: "level_parser source 0 n (ts @ rest) = p_ret ?e rest"
    if "spelt ?body ts" "length ts + length rest \<le> n" "stop 0 rest" for n ts rest
    using tail [OF that(1,2) stop_follows [OF that(3)]] tail_stop [of 0 rest] that(3) by simp
  have "show_ast p ?e = parens (0 < p) ?body" for p using f bs by simp
  from levels_from_core [OF this _ core tail] show "reads source ?e" "goes_on source ?e" by simp_all
qed

section \<open>The round trip\<close>

lemma printable_read: "printable e \<Longrightarrow> reads source e \<and> goes_on source e"
proof (induction e)
  case (Literal l)
  then show ?case using read_literal by blast
next
  case ThisExpression
  then show ?case using read_this by blast
next
  case (Identifier s)
  then show ?case using read_identifier by blast
next
  case (UnaryExpression op a)
  then show ?case using read_unary by simp
next
  case (BinaryExpression op l r)
  then have "printable l" "printable r" by simp_all
  with BinaryExpression read_binary show ?case by blast
next
  case (LogicalExpression op l r)
  then have "printable l" "printable r" by simp_all
  with LogicalExpression read_logical show ?case by blast
next
  case (ConditionalExpression t a c)
  then show ?case using read_conditional by simp
next
  case (AssignmentExpression l r)
  then show ?case using read_assignment by simp
next
  case (MemberExpression a b computed)
  then have "printable a" "computed \<longrightarrow> printable b" by simp_all
  with MemberExpression read_member show ?case by blast
next
  case (CallExpression c args filtered)
  then have args: "\<And>e. e \<in> set args \<Longrightarrow> reads source e \<and> goes_on source e" by (auto simp: list_all_iff)
  show ?case
  proof (cases filtered)
    case True
    with CallExpression.prems read_filter [OF _ args] show ?thesis by simp
  next
    case False
    with CallExpression.prems have "printable c" by simp
    with CallExpression.IH(1) CallExpression.prems False read_call [of c args source] args show ?thesis by simp
  qed
next
  case (ArrayExpression es)
  then have "\<And>e. e \<in> set es \<Longrightarrow> reads source e" by (auto simp: list_all_iff)
  with ArrayExpression.prems read_array show ?case by blast
next
  case (ObjectExpression ps)
  have "\<And>kv. kv \<in> set ps \<Longrightarrow> reads source (snd kv)"
    using ObjectExpression.IH ObjectExpression.prems by (force simp: list_all_iff)
  with ObjectExpression.prems read_object show ?case by blast
qed simp

text \<open>The tokens of a printed tree are read as that tree.\<close>

lemma program_reads:
  assumes "printable e" "spelt (show_ast 0 e) ts"
  shows "program (Suc (length ts)) source ts = Some (Inr ([e], []))"
proof -
  obtain t us where t: "ts = t # us" "t_text t \<notin> {'')'', '']'', ''}'', '';''}" by (rule spelt_starts [OF assms])
  have "level_parser source 0 (length ts) (ts @ []) = p_ret e []"
    using printable_read [OF assms(1)] assms(2) by (intro readsD [of source e]) (auto simp: stop_def)
  then have "filterChain source (expression (Suc (length ts)) source) ts = Some (Inr (e, []))"
    by (simp add: level_parser_def p_ret_def del: expression.simps)
  then show ?thesis
    using t by (simp add: program_def program_loop.simps p_peek_def p_bind_def p_ret_def p_expect_def del: expression.simps)
qed

end
