(* ===== verification/NgRoundtrip.thy ===== *)
theory NgRoundtrip
  imports NgPrint Interfaces
begin

text \<open>
  Texts of expressions: a printed tree, spelt out with a space after every token, is cut back
  into its tokens and parsed back into the tree.
\<close>

section \<open>Spelling\<close>

definition spell_unit :: "nat \<Rightarrow> string" where
  "spell_unit u = (if u < 256 \<and> u \<noteq> 34 \<and> u \<noteq> 92 then [char_of u]
     else [CHR 0x5C, CHR ''u'', hex_char (u div 4096), hex_char (u div 256 mod 16), hex_char (u div 16 mod 16), hex_char (u mod 16)])"

fun spell :: "lexeme \<Rightarrow> string" where
  "spell (Punct s) = s"
| "spell (Name s) = s"
| "spell (NumLit s) = s"
| "spell (StrLit v) = CHR 0x22 # concat (map spell_unit v) @ [CHR 0x22]"

definition render_tokens :: "lexeme list \<Rightarrow> string" where
  "render_tokens ls = concat (map (\<lambda>l. spell l @ '' '') ls)"

definition punctuation :: "string list" where
  "punctuation = [''('', '')'', ''{'', ''}'', ''['', '']'', ''.'', '','', '';'', '':'', ''?'']"

fun lexeme_ok :: "lexeme \<Rightarrow> bool" where
  "lexeme_ok (Punct s) = (s \<in> set punctuation \<or> s \<in> set OPERATORS)"
| "lexeme_ok (Name s) = ident_name s"
| "lexeme_ok (NumLit s) = number_name s"
| "lexeme_ok (StrLit v) = list_all (\<lambda>u. u < 65536) v"

section \<open>Reading one token\<close>

lemma at_drop:
  assumes "drop i source = c # r"
  shows "i < length source" "source ! i = c" "drop (Suc i) source = r"
proof -
  show "i < length source" using assms by (metis drop_eq_Nil list.distinct(1) not_le)
  then show "source ! i = c" "drop (Suc i) source = r"
    using assms by (metis Cons_nth_drop_Suc list.inject)+
qed

lemma peek_drop: "drop i source = c # r \<Longrightarrow> peek_char source i (Suc 0) = (case r of [] \<Rightarrow> None | d # _ \<Rightarrow> Some d)"
  using at_drop [of i source c r]
  by (cases r) (auto simp: peek_char_def dest: at_drop(1,2) [of "Suc i"])

lemma substring_drop: "drop i source = s @ r \<Longrightarrow> js_substring source i (i + length s) = s"
  by (simp add: js_substring_def)

lemma space_facts:
  "\<not> lex_isIdent (CHR '' '')" "\<not> is_digit (CHR '' '')" "lower_char (CHR '' '') = CHR '' ''" "lex_isWhitespace (CHR '' '')"
  "\<not> lex_isNumber (Some (CHR '' ''))" "\<not> lex_isExpOperator (Some (CHR '' ''))"
  by code_simp+

lemma ident_end_read:
  "drop i source = s @ CHR '' '' # r \<Longrightarrow> list_all (\<lambda>c. lex_isIdent c \<or> is_digit c) s \<Longrightarrow> ident_end source i = i + length s"
proof (induction s arbitrary: i)
  case Nil
  with at_drop [of i source "CHR '' ''" r] show ?case by (simp add: ident_end.simps space_facts)
next
  case (Cons c s)
  then have d: "i < length source" "source ! i = c" "drop (Suc i) source = s @ CHR '' '' # r"
    using at_drop [of i source c "s @ CHR '' '' # r"] by simp_all
  with Cons.IH [OF d(3)] Cons.prems(2) show ?case
    by (simp add: ident_end.simps [of source i] lex_isNumber_def)
qed

lemma lower_digit: "is_digit c \<Longrightarrow> lower_char c = c"
  by (simp add: lower_char_def is_digit_def)

lemma lower_dot: "lower_char (CHR ''.'') = CHR ''.''"
  by code_simp

lemma read_number_run:
  "drop i source = s @ CHR '' '' # r \<Longrightarrow> list_all (\<lambda>c. c = CHR ''.'' \<or> is_digit c) s \<Longrightarrow>
    read_number source i acc = Inr (acc @ s, i + length s)"
proof (induction s arbitrary: i acc)
  case Nil
  with at_drop [of i source "CHR '' ''" r] show ?case by (simp add: read_number.simps Let_def space_facts)
next
  case (Cons c s)
  then have d: "i < length source" "source ! i = c" "drop (Suc i) source = s @ CHR '' '' # r"
    using at_drop [of i source c "s @ CHR '' '' # r"] by simp_all
  have "lower_char c = c" "c = CHR ''.'' \<or> lex_isNumber (Some c)"
    using Cons.prems(2) by (auto simp: lower_digit lower_dot lex_isNumber_def)
  with Cons.IH [OF d(3)] Cons.prems(2) d(1,2) show ?case
    by (simp add: read_number.simps [of source i] Let_def)
qed

lemma hex4_units:
  assumes "u < 65536"
  shows "hex4 [hex_char (u div 4096), hex_char (u div 256 mod 16), hex_char (u div 16 mod 16), hex_char (u mod 16)] = Some u"
proof -
  have "u div 4096 < 16" using assms by simp
  moreover have "((u div 4096 * 16 + u div 256 mod 16) * 16 + u div 16 mod 16) * 16 + u mod 16 = u"
  proof -
    have a: "u = 16 * (u div 16) + u mod 16" "u div 16 = 16 * (u div 16 div 16) + u div 16 mod 16"
      "u div 16 div 16 = 16 * (u div 16 div 16 div 16) + u div 16 div 16 mod 16" by simp_all
    have "u div 16 div 16 = u div 256" "u div 16 div 16 div 16 = u div 4096" by (simp_all add: div_mult2_eq [symmetric])
    with a show ?thesis by (metis mult.commute)
  qed
  ultimately show ?thesis by (simp add: hex4_def hex_val_hex_char)
qed

lemma char_of_plain:
  fixes u :: nat assumes "u < 256" "u \<noteq> 34" "u \<noteq> 92"
  shows "char_of u \<noteq> CHR 0x22" "char_of u \<noteq> CHR 0x5C" "of_char (char_of u :: char) = u"
proof -
  show o: "of_char (char_of u :: char) = u" using assms(1) by simp
  have "of_char (CHR 0x22) = (34::nat)" "of_char (CHR 0x5C) = (92::nat)" by simp_all
  with o assms(2,3) show "char_of u \<noteq> CHR 0x22" "char_of u \<noteq> CHR 0x5C" by metis+
qed

lemma read_string_run:
  "drop i source = concat (map spell_unit v) @ CHR 0x22 # r \<Longrightarrow> list_all (\<lambda>u. u < 65536) v \<Longrightarrow>
    \<exists>raw'. read_string source (CHR 0x22) start i s raw False =
      Inr (\<lparr>t_index = start, t_text = raw @ raw', t_operator = False, t_identifier = False,
        t_constant = Some (StringOf (s @ v))\<rparr>, i + length (concat (map spell_unit v)) + 1)"
proof (induction v arbitrary: i s raw)
  case Nil
  with at_drop [of i source "CHR 0x22" r] show ?case by (simp add: read_string.simps [of source _ _ i] Let_def)
next
  case (Cons u v)
  show ?case
  proof (cases "u < 256 \<and> u \<noteq> 34 \<and> u \<noteq> 92")
    case True
    then have u: "spell_unit u = [char_of u]" by (simp add: spell_unit_def)
    with Cons.prems(1) at_drop [of i source "char_of u" "concat (map spell_unit v) @ CHR 0x22 # r"]
    have d: "i < length source" "source ! i = char_of u" "drop (Suc i) source = concat (map spell_unit v) @ CHR 0x22 # r"
      by simp_all
    from Cons.IH [OF d(3), of "s @ [u]" "raw @ [char_of u]"] Cons.prems(2)
    obtain raw' where "read_string source (CHR 0x22) start (Suc i) (s @ [u]) (raw @ [char_of u]) False =
      Inr (\<lparr>t_index = start, t_text = (raw @ [char_of u]) @ raw', t_operator = False, t_identifier = False,
        t_constant = Some (StringOf ((s @ [u]) @ v))\<rparr>, Suc i + length (concat (map spell_unit v)) + 1)" by auto
    with d(1,2) char_of_plain [of u] True u show ?thesis
      by (simp add: read_string.simps [of source _ _ i] Let_def)
  next
    case False
    define h where "h = [hex_char (u div 4096), hex_char (u div 256 mod 16), hex_char (u div 16 mod 16), hex_char (u mod 16)]"
    have u: "spell_unit u = CHR 0x5C # CHR ''u'' # h" "length h = 4" using False by (auto simp: spell_unit_def h_def)
    let ?r = "concat (map spell_unit v) @ CHR 0x22 # r"
    have d: "i < length source" "source ! i = CHR 0x5C" "drop (Suc i) source = CHR ''u'' # h @ ?r"
      using Cons.prems(1) at_drop [of i source "CHR 0x5C" "CHR ''u'' # h @ ?r"] u by simp_all
    note d' = at_drop [OF d(3)]
    have hex: "js_substring source (Suc (Suc i)) (Suc (Suc i) + length h) = h" by (rule substring_drop [OF d'(3)])
    then have hex': "js_substring source (Suc (Suc i)) (i + 6) = h" by (simp add: u(2) add.commute)
    have "drop (i + 6) source = drop 4 (drop (Suc (Suc i)) source)" by (simp add: add.commute)
    then have d6: "drop (i + 6) source = ?r" using d'(3) u(2) by simp
    have "hex4 h = Some u" using hex4_units [of u] Cons.prems(2) by (simp add: h_def)
    moreover from Cons.IH [OF d6, of "s @ [u]" "raw @ [CHR 0x5C, CHR ''u'']"] Cons.prems(2)
    obtain raw' where "read_string source (CHR 0x22) start (i + 6) (s @ [u]) (raw @ [CHR 0x5C, CHR ''u'']) False =
      Inr (\<lparr>t_index = start, t_text = (raw @ [CHR 0x5C, CHR ''u'']) @ raw', t_operator = False, t_identifier = False,
        t_constant = Some (StringOf ((s @ [u]) @ v))\<rparr>, i + 6 + length (concat (map spell_unit v)) + 1)" by auto
    ultimately show ?thesis
      using d(1,2) d'(1,2) hex' u
      by (simp add: read_string.simps [of source _ _ i] read_string.simps [of source _ _ "Suc i"] Let_def add.commute)
  qed
qed

section \<open>Cutting a text\<close>

lemma lex_space: "drop i source = CHR '' '' # r \<Longrightarrow> lex_from source i acc = lex_from source (Suc i) acc"
  using at_drop [of i source "CHR '' ''" r]
  by (simp add: lex_from.simps [of source i] space_facts)

lemma lex_number:
  assumes "number_name s" "drop i source = s @ CHR '' '' # r"
  shows "\<exists>t. realises (NumLit s) t \<and> lex_from source i acc = lex_from source (i + length s) (acc @ [t])"
proof -
  from assms(1) obtain c s' where s: "s = c # s'" "is_digit c" by (cases s) (auto simp: number_name_def)
  with assms(2) at_drop [of i source c "s' @ CHR '' '' # r"] have d: "i < length source" "source ! i = c" by simp_all
  have c: "c \<noteq> CHR 0x22" "c \<noteq> CHR 0x27" using s(2) by (auto simp: is_digit_def)
  have "readNumber source i = Inr (\<lparr>t_index = i, t_text = s, t_operator = False, t_identifier = False,
      t_constant = Some (NumberOf s)\<rparr>, i + length s)"
    using read_number_run [OF assms(2), of "[]"] assms(1) by (simp add: readNumber_def number_name_def)
  with d c s(2) have "lex_from source i acc = lex_from source (i + length s) (acc @ [\<lparr>t_index = i, t_text = s,
      t_operator = False, t_identifier = False, t_constant = Some (NumberOf s)\<rparr>])"
    by (simp add: lex_from.simps [of source i] lex_isNumber_def)
  moreover have "realises (NumLit s) \<lparr>t_index = i, t_text = s,
      t_operator = False, t_identifier = False, t_constant = Some (NumberOf s)\<rparr>" by simp
  ultimately show ?thesis by blast
qed

lemma lex_name:
  assumes "ident_name s" "drop i source = s @ CHR '' '' # r"
  shows "\<exists>t. realises (Name s) t \<and> lex_from source i acc = lex_from source (i + length s) (acc @ [t])"
proof -
  from assms(1) obtain c s' where s: "s = c # s'" "lex_isIdent c" by (cases s) (auto simp: ident_name_def)
  with assms(2) at_drop [of i source c "s' @ CHR '' '' # r"] have d: "i < length source" "source ! i = c" by simp_all
  have c: "c \<noteq> CHR 0x22" "c \<noteq> CHR 0x27" "c \<noteq> CHR ''.''" using s(2) by (auto simp: lex_isIdent_def)
  have "\<not> is_digit c" using s(2) by (auto simp: lex_isIdent_def is_digit_def Let_def)
  moreover have "ident_end source i = i + length s"
    using ident_end_read [OF assms(2)] assms(1) by (simp add: ident_name_def)
  then have "readIdent source i = (\<lparr>t_index = i, t_text = s, t_operator = False, t_identifier = True, t_constant = None\<rparr>, i + length s)"
    using substring_drop [OF assms(2)] by (simp add: readIdent_def)
  ultimately have "lex_from source i acc = lex_from source (i + length s) (acc @ [\<lparr>t_index = i, t_text = s,
      t_operator = False, t_identifier = True, t_constant = None\<rparr>])"
    using d c s(2) by (simp add: lex_from.simps [of source i] lex_isNumber_def)
  moreover have "realises (Name s) \<lparr>t_index = i, t_text = s,
      t_operator = False, t_identifier = True, t_constant = None\<rparr>" by simp
  ultimately show ?thesis by blast
qed

lemma lex_string:
  assumes "lexeme_ok (StrLit v)" "drop i source = spell (StrLit v) @ CHR '' '' # r"
  shows "\<exists>t. realises (StrLit v) t \<and> lex_from source i acc = lex_from source (i + length (spell (StrLit v))) (acc @ [t])"
proof -
  have d: "i < length source" "source ! i = CHR 0x22" "drop (Suc i) source = concat (map spell_unit v) @ CHR 0x22 # CHR '' '' # r"
    using assms(2) at_drop [of i source "CHR 0x22" "concat (map spell_unit v) @ CHR 0x22 # CHR '' '' # r"] by simp_all
  from read_string_run [OF d(3), of i "[]" "[CHR 0x22]"] assms(1) obtain raw' where
    "read_string source (CHR 0x22) i (Suc i) [] [CHR 0x22] False = Inr (\<lparr>t_index = i, t_text = [CHR 0x22] @ raw',
       t_operator = False, t_identifier = False, t_constant = Some (StringOf v)\<rparr>, Suc i + length (concat (map spell_unit v)) + 1)"
    by auto
  with d(1,2) have "lex_from source i acc = lex_from source (i + length (spell (StrLit v))) (acc @ [\<lparr>t_index = i,
      t_text = [CHR 0x22] @ raw', t_operator = False, t_identifier = False, t_constant = Some (StringOf v)\<rparr>])"
    by (simp add: lex_from.simps [of source i] readString_def)
  moreover have "realises (StrLit v) \<lparr>t_index = i,
      t_text = [CHR 0x22] @ raw', t_operator = False, t_identifier = False, t_constant = Some (StringOf v)\<rparr>" by simp
  ultimately show ?thesis by blast
qed

lemma lex_punctuation:
  assumes "s \<in> set punctuation" "drop i source = s @ CHR '' '' # r"
  shows "lex_from source i acc = lex_from source (i + length s) (acc @ [plain_token i s False])"
proof -
  from assms(1) obtain c where c: "s = [c]" "c \<in> set ''(){}[].,;:?''" by (auto simp: punctuation_def)
  with assms(2) have d: "i < length source" "source ! i = c" and p: "peek_char source i 1 = Some (CHR '' '')"
    using at_drop [of i source c "CHR '' '' # r"] peek_drop [of i source c "CHR '' '' # r"] by simp_all
  have "list_all (\<lambda>c. c \<noteq> CHR 0x22 \<and> c \<noteq> CHR 0x27 \<and> \<not> is_digit c \<and> \<not> lex_isIdent c) ''(){}[].,;:?''"
    by code_simp
  with c(2) have "c \<noteq> CHR 0x22" "c \<noteq> CHR 0x27" "\<not> is_digit c" "\<not> lex_isIdent c"
    unfolding list_all_iff by blast+
  with d p c show ?thesis by (simp add: lex_from.simps [of source i] lex_isNumber_def space_facts [unfolded lex_isNumber_def])
qed

lemma operator_at_read:
  assumes "s \<in> set OPERATORS" "drop i source = s @ CHR '' '' # r"
  shows "operator_at source i = Some s"
proof -
  obtain c s' where s: "s = c # s'" using assms(1) by (cases s) (auto simp: OPERATORS_def)
  with assms(2) have d: "source ! i = c" "drop (Suc i) source = s' @ CHR '' '' # r"
    using at_drop [of i source c "s' @ CHR '' '' # r"] by simp_all
  let ?h1 = "case s' @ CHR '' '' # r of [] \<Rightarrow> ''false'' | d # _ \<Rightarrow> [d]"
  have p1: "peek_char source i 1 = (case s' @ CHR '' '' # r of [] \<Rightarrow> None | d # _ \<Rightarrow> Some d)"
    using peek_drop [of i source c "s' @ CHR '' '' # r"] assms(2) s by simp
  have p2: "peek_char source i 2 = (case tl (s' @ CHR '' '' # r) of [] \<Rightarrow> None | d # _ \<Rightarrow> Some d)"
  proof -
    have "peek_char source i 2 = peek_char source (Suc i) (Suc 0)" by (simp add: peek_char_def)
    then show ?thesis using d(2) peek_drop [of "Suc i" source] by (cases s') simp_all
  qed
  from assms(1) show ?thesis
    unfolding operator_at_def d(1) p1 p2 using s
    by (auto simp: OPERATORS_def split: list.split)
qed

lemma lex_operator:
  assumes "s \<in> set OPERATORS" "drop i source = s @ CHR '' '' # r"
  shows "lex_from source i acc = lex_from source (i + length s) (acc @ [plain_token i s True])"
proof -
  have "list_all (\<lambda>s. s \<noteq> [] \<and> hd s \<in> set ''+-*/%=!<>&|'') OPERATORS" by code_simp
  with assms(1) have "s \<noteq> []" "hd s \<in> set ''+-*/%=!<>&|''" unfolding list_all_iff by blast+
  then obtain c s' where s: "s = c # s'" "c \<in> set ''+-*/%=!<>&|''" by (cases s) simp_all
  with assms(2) at_drop [of i source c "s' @ CHR '' '' # r"] have d: "i < length source" "source ! i = c" by simp_all
  have "list_all (\<lambda>c. c \<noteq> CHR 0x22 \<and> c \<noteq> CHR 0x27 \<and> \<not> is_digit c \<and> \<not> lex_isIdent c \<and> \<not> lex_isWhitespace c \<and>
      c \<notin> set ''(){}[].,;:?'') ''+-*/%=!<>&|''"
    by code_simp
  with s(2) have "c \<noteq> CHR 0x22" "c \<noteq> CHR 0x27" "\<not> is_digit c" "\<not> lex_isIdent c" "\<not> lex_isWhitespace c"
      "c \<notin> set ''(){}[].,;:?''"
    unfolding list_all_iff by blast+
  with d operator_at_read [OF assms] show ?thesis by (simp add: lex_from.simps [of source i] lex_isNumber_def)
qed

lemma lex_lexeme:
  assumes "lexeme_ok l" "drop i source = spell l @ CHR '' '' # r"
  shows "\<exists>t. realises l t \<and> lex_from source i acc = lex_from source (Suc (i + length (spell l))) (acc @ [t])"
proof -
  have "drop (i + length (spell l)) source = CHR '' '' # r"
    using arg_cong [OF assms(2), of "drop (length (spell l))"] by (simp add: add.commute)
  note sp = lex_space [OF this]
  have "\<exists>t. realises l t \<and> lex_from source i acc = lex_from source (i + length (spell l)) (acc @ [t])"
  proof (cases l)
    case (Punct s)
    with assms lex_punctuation [of s i source r acc] lex_operator [of s i source r acc] obtain b where
      "lex_from source i acc = lex_from source (i + length (spell l)) (acc @ [plain_token i s b])" by auto
    moreover have "realises l (plain_token i s b)" for b using Punct by (simp add: plain_token_def)
    ultimately show ?thesis by blast
  qed (use assms lex_name lex_number lex_string in auto)
  with sp show ?thesis by simp
qed

lemma lex_tokens:
  "list_all lexeme_ok ls \<Longrightarrow> drop i source = render_tokens ls \<Longrightarrow>
    \<exists>ts. spelt ls ts \<and> lex_from source i acc = Inr (acc @ ts)"
proof (induction ls arbitrary: i acc)
  case Nil
  then show ?case by (simp add: lex_from.simps render_tokens_def)
next
  case (Cons l ls)
  then have d: "drop i source = spell l @ CHR '' '' # render_tokens ls" by (simp add: render_tokens_def)
  from lex_lexeme [OF _ d, of acc] Cons.prems(1) obtain t where
    t: "realises l t" "lex_from source i acc = lex_from source (Suc (i + length (spell l))) (acc @ [t])" by auto
  have "drop (Suc (i + length (spell l))) source = render_tokens ls"
    using arg_cong [OF d, of "drop (Suc (length (spell l)))"] by (simp add: add.commute)
  from Cons.IH [OF _ this, of "acc @ [t]"] Cons.prems(1) obtain ts where
    "spelt ls ts" "lex_from source (Suc (i + length (spell l))) (acc @ [t]) = Inr ((acc @ [t]) @ ts)" by auto
  with t have "spelt (l # ls) (t # ts) \<and> lex_from source i acc = Inr (acc @ t # ts)" by simp
  then show ?case by blast
qed

section \<open>The round trip\<close>

lemma keyword_names: "lexeme_ok (Name ''this'')" "lexeme_ok (Name ''true'')" "lexeme_ok (Name ''false'')"
  "lexeme_ok (Name ''null'')" "lexeme_ok (Name ''undefined'')"
  by (simp_all add: ident_keywords)

lemma constant_lexeme_ok: "constant_ok c \<Longrightarrow> lexeme_ok (constant_lexeme c)"
  by (cases c) simp_all

lemma literal_lexeme_ok: "printable (Literal l) \<Longrightarrow> lexeme_ok (literal_lexeme l)"
  by (cases l) (simp_all add: ident_keywords constant_lexeme_ok)

lemma key_lexeme_ok: "key_ok k \<Longrightarrow> lexeme_ok (key_lexeme k)"
  by (cases k rule: key_ok.cases) (simp_all add: constant_lexeme_ok)

lemma name_ok_key: "name_ok k \<Longrightarrow> key_ok k"
  by (cases k) simp_all

lemma commas_ok: "list_all (list_all lexeme_ok) lss \<Longrightarrow> list_all lexeme_ok (commas lss)"
  by (induction lss rule: commas.induct) (simp_all add: punctuation_def)

lemma concat_ok: "list_all (list_all lexeme_ok) lss \<Longrightarrow> list_all lexeme_ok (concat lss)"
  by (induction lss) simp_all

lemma punct_ok:
  "lexeme_ok (Punct ''('')" "lexeme_ok (Punct '')'')" "lexeme_ok (Punct ''['')" "lexeme_ok (Punct '']'')"
  "lexeme_ok (Punct ''{'')" "lexeme_ok (Punct ''}'')" "lexeme_ok (Punct ''.'')" "lexeme_ok (Punct '':'')"
  "lexeme_ok (Punct ''?'')" "lexeme_ok (Punct ''='')" "lexeme_ok (Punct ''|'')" "lexeme_ok (Punct '','')"
  by (simp_all add: punctuation_def OPERATORS_def)

lemma parens_ok: "list_all lexeme_ok ls \<Longrightarrow> list_all lexeme_ok (parens b ls)"
  by (simp add: parens_def punct_ok del: lexeme_ok.simps)

lemma op_ok:
  "op \<in> set (level_ops 5 @ level_ops 6 @ level_ops 7 @ level_ops 8) \<Longrightarrow> lexeme_ok (Punct op)"
  "op \<in> {''||'', ''&&''} \<Longrightarrow> lexeme_ok (Punct op)" "op \<in> {''+'', ''-'', ''!''} \<Longrightarrow> lexeme_ok (Punct op)"
  by (auto simp: level_ops_def OPERATORS_def)

lemma show_ok: "printable e \<Longrightarrow> list_all lexeme_ok (show_ast p e)"
proof (induction e arbitrary: p)
  case (Literal l)
  then show ?case using literal_lexeme_ok by simp
next
  case (UnaryExpression op a)
  then have "lexeme_ok (Punct op)" "printable a" using op_ok(3) by simp_all
  with UnaryExpression.IH show ?case by (simp add: parens_ok del: lexeme_ok.simps)
next
  case (BinaryExpression op l r)
  then have "lexeme_ok (Punct op)" "printable l" "printable r" using op_ok(1) [of op] by simp_all
  with BinaryExpression.IH show ?case by (simp add: parens_ok del: lexeme_ok.simps)
next
  case (LogicalExpression op l r)
  then have "lexeme_ok (Punct op)" "printable l" "printable r" using op_ok(2) [of op] by simp_all
  with LogicalExpression.IH show ?case by (simp add: parens_ok del: lexeme_ok.simps)
next
  case (ConditionalExpression t a c)
  then show ?case by (simp add: parens_ok punct_ok del: lexeme_ok.simps)
next
  case (AssignmentExpression l r)
  then show ?case by (simp add: parens_ok punct_ok del: lexeme_ok.simps)
next
  case (MemberExpression a b computed)
  then show ?case using key_lexeme_ok [OF name_ok_key] by (simp add: punct_ok del: lexeme_ok.simps)
next
  case (CallExpression c args filtered)
  then have args: "\<And>a p. a \<in> set args \<Longrightarrow> list_all lexeme_ok (show_ast p a)" by (auto simp: list_all_iff)
  show ?case
  proof (cases filtered)
    case True
    with CallExpression.prems obtain b bs where bs: "args = b # bs" by (cases args) auto
    have "list_all lexeme_ok (Punct '':'' # show_ast 1 a)" if "a \<in> set bs" for a
      using args bs that by (simp add: punct_ok del: lexeme_ok.simps)
    then have "list_all lexeme_ok (concat (map (\<lambda>a. Punct '':'' # show_ast 1 a) bs))"
      by (intro concat_ok) (simp add: list_all_iff del: lexeme_ok.simps)
    with CallExpression.prems True bs args key_lexeme_ok [OF name_ok_key, of c] show ?thesis
      by (simp add: parens_ok punct_ok del: lexeme_ok.simps)
  next
    case False
    with CallExpression.prems have "printable c" by simp
    moreover have "list_all lexeme_ok (commas (map (show_ast 1) args))"
      using args by (intro commas_ok) (simp add: list_all_length)
    ultimately show ?thesis using CallExpression.IH(1) False by (simp add: punct_ok del: lexeme_ok.simps)
  qed
next
  case (ArrayExpression es)
  then have "list_all lexeme_ok (commas (map (show_ast 1) es))"
    by (intro commas_ok) (auto simp: list_all_iff)
  then show ?case by (simp add: punct_ok del: lexeme_ok.simps)
next
  case (ObjectExpression ps)
  have "list_all lexeme_ok (show_property kv)" if "kv \<in> set ps" for kv
  proof -
    from that ObjectExpression.prems have "key_ok (fst kv)" "printable (snd kv)" by (auto simp: list_all_iff)
    with ObjectExpression.IH [OF that, of "snd kv" 1] key_lexeme_ok [of "fst kv"] show ?thesis
      by (simp add: punct_ok snds.intros del: lexeme_ok.simps)
  qed
  then have "list_all lexeme_ok (commas (map show_property ps))"
    by (intro commas_ok) (simp add: list_all_iff del: lexeme_ok.simps)
  then show ?case by (simp add: punct_ok del: lexeme_ok.simps)
qed (simp_all add: ident_keywords)

lemma ast_of_printed:
  assumes "printable e"
  shows "ast_of (render_tokens (show_ast 0 e)) = Some (Inr [e])"
proof -
  let ?source = "render_tokens (show_ast 0 e)"
  obtain ts where ts: "spelt (show_ast 0 e) ts" "lex ?source = Inr ts"
    using lex_tokens [OF show_ok [OF assms], of 0 ?source 0 "[]"] by (auto simp: lex_def)
  with program_reads [OF assms ts(1), of ?source] show ?thesis by (simp add: ast_of_def)
qed

text \<open>
  C32. Expressions are read back from their text: a syntax tree printed with the parentheses its
  operators' levels need, spelt out with string constants escaped, is cut into tokens and parsed
  into the same tree, alone and without error. So the parser has the precedence and
  associativity of the printed form for every tree the grammar knows.
\<close>

theorem expression_roundtrip:
  assumes "printable e"
  shows "ast_of (render_tokens (show_ast 0 e)) = Some (Inr [e])"
  using assms by (rule ast_of_printed)

definition sample_expression :: ast where
  "sample_expression = CallExpression (Identifier ''limitTo'')
     [ConditionalExpression
        (LogicalExpression ''||'' (BinaryExpression ''-'' (Identifier ''a'') (BinaryExpression ''-'' (Identifier ''b'') (Literal (ConstantLit (NumberOf ''1.5'')))))
          (UnaryExpression ''!'' (CallExpression (MemberExpression (Identifier ''f'') (Identifier ''g'') False) [ThisExpression] False)))
        (AssignmentExpression (MemberExpression (Identifier ''x'') (Literal (ConstantLit (StringOf [34, 8364]))) True) (ArrayExpression []))
        (ObjectExpression [(Identifier ''k'', Literal NullLit)]),
      Literal (ConstantLit (NumberOf ''3''))] True"

lemma expression_roundtrip_witness:
  "ast_of (render_tokens (show_ast 0 sample_expression)) = Some (Inr [sample_expression])"
proof -
  have "printable sample_expression"
    by (simp add: sample_expression_def ident_name_def number_name_def level_ops_def ast_constants_def lex_isIdent_def is_digit_def)
  then show ?thesis by (rule expression_roundtrip)
qed

text \<open>The printer and the parser are a codec, so that no two trees have the same text.\<close>

interpretation expression_text: codec "\<lambda>e. render_tokens (show_ast 0 e)"
  "\<lambda>s. case ast_of s of Some (Inr [e]) \<Rightarrow> Inr e | Some (Inl err) \<Rightarrow> Inl err | _ \<Rightarrow> Inl SyntaxError" printable
  by unfold_locales (simp add: ast_of_printed)

end
