(* ===== verification/NgValues.thy ===== *)
theory NgValues
  imports NgLexer
begin

text \<open>
  The values Angular expressions compute with, and the language's operators on them: objects
  with their own properties and prototypes in a heap, arrays with their length, conversions,
  equality and order. A string is its list of UTF-16 code units. Two things are parameters: the
  arithmetic of IEEE doubles (\<open>numbers\<close>), and what the application's own functions do
  (\<open>realm\<close>), among them the \<open>valueOf\<close> and \<open>toString\<close> an operator calls on an object.
  Properties are data properties: none has a getter or a setter but \<open>__proto__\<close>.
\<close>

section \<open>Values and objects\<close>

type_synonym js_string = "nat list"

datatype 'n val = VUndefined | VNull | VBool bool | VNum 'n | VStr js_string | VRef nat

text \<open>An array has a length (\<open>o_length\<close>), its items are properties named by their index.\<close>

record 'n obj =
  o_props :: "(js_string \<times> 'n val) list"
  o_proto :: "nat option"
  o_length :: "nat option"

type_synonym 'n heap = "'n obj list"

type_synonym ('n, 'a) eval = "('n heap, 'a) comp"

record 'n numbers =
  n_add :: "'n \<Rightarrow> 'n \<Rightarrow> 'n"
  n_sub :: "'n \<Rightarrow> 'n \<Rightarrow> 'n"
  n_mul :: "'n \<Rightarrow> 'n \<Rightarrow> 'n"
  n_div :: "'n \<Rightarrow> 'n \<Rightarrow> 'n"
  n_mod :: "'n \<Rightarrow> 'n \<Rightarrow> 'n"
  n_neg :: "'n \<Rightarrow> 'n"
  n_less :: "'n \<Rightarrow> 'n \<Rightarrow> bool"
  n_eq :: "'n \<Rightarrow> 'n \<Rightarrow> bool"
  n_truthy :: "'n \<Rightarrow> bool"
  n_of_int :: "int \<Rightarrow> 'n"
  n_nan :: 'n
  n_parse :: "js_string \<Rightarrow> 'n"
  n_str :: "'n \<Rightarrow> js_string"
  n_index :: "'n \<Rightarrow> nat option"

record 'n realm =
  nums :: "'n numbers"
  apply_fn :: "nat \<Rightarrow> 'n val \<Rightarrow> 'n val list \<Rightarrow> ('n, 'n val) eval"
  to_prim :: "bool \<Rightarrow> nat \<Rightarrow> ('n, 'n val) eval"
  callable :: "nat \<Rightarrow> bool"
  prim_proto :: "'n val \<Rightarrow> nat option"
  object_proto :: nat
  array_proto :: nat
  object_ctor :: nat
  unsafe_fns :: "nat list"
  ctors :: "nat list"
  filter_of :: "string \<Rightarrow> js_error + (nat \<times> bool)"

text \<open>
  \<open>unsafe_fns\<close> are \<open>call\<close>, \<open>apply\<close> and \<open>bind\<close> of functions, \<open>ctors\<close> the constructors of the
  six literal kinds; \<open>filter_of\<close> is \<open>$filter\<close>, a function and whether it is \<open>$stateful\<close>;
  the flag of \<open>to_prim\<close> is the number hint.
\<close>

section \<open>Properties\<close>

definition key :: "string \<Rightarrow> js_string" where
  "key s = units s"

definition own_get :: "'n realm \<Rightarrow> 'n obj \<Rightarrow> js_string \<Rightarrow> 'n val option" where
  "own_get env ob k = (case o_length ob of
     Some l \<Rightarrow> if k = key ''length'' then Some (VNum (n_of_int (nums env) (int l))) else map_of (o_props ob) k
   | None \<Rightarrow> map_of (o_props ob) k)"

text \<open>The object and its prototypes; a chain has no more objects than the heap.\<close>

fun proto_chain :: "nat \<Rightarrow> 'n heap \<Rightarrow> nat \<Rightarrow> nat list" where
  "proto_chain 0 h r = []"
| "proto_chain (Suc n) h r =
    (if r < length h then r # (case o_proto (h ! r) of Some p \<Rightarrow> proto_chain n h p | None \<Rightarrow> []) else [])"

fun first_some :: "'a option list \<Rightarrow> 'a option" where
  "first_some [] = None"
| "first_some (Some x # xs) = Some x"
| "first_some (None # xs) = first_some xs"

definition lookup :: "'n realm \<Rightarrow> 'n heap \<Rightarrow> nat \<Rightarrow> js_string \<Rightarrow> 'n val option" where
  "lookup env h r k = first_some (map (\<lambda>q. own_get env (h ! q) k) (proto_chain (length h) h r))"

definition string_prop :: "'n realm \<Rightarrow> js_string \<Rightarrow> js_string \<Rightarrow> 'n val option" where
  "string_prop env s k =
    (if k = key ''length'' then Some (VNum (n_of_int (nums env) (int (length s))))
     else first_some (map (\<lambda>i. if k = key (nat_str i) then Some (VStr [s ! i]) else None) [0..<length s]))"

definition proto_prop :: "'n realm \<Rightarrow> 'n heap \<Rightarrow> 'n val \<Rightarrow> js_string \<Rightarrow> 'n val" where
  "proto_prop env h v k = (case prim_proto env v of
     None \<Rightarrow> VUndefined
   | Some p \<Rightarrow> (case lookup env h p k of Some w \<Rightarrow> w | None \<Rightarrow> VUndefined))"

text \<open>\<open>v[k]\<close>.\<close>

fun get_prop :: "'n realm \<Rightarrow> 'n heap \<Rightarrow> 'n val \<Rightarrow> js_string \<Rightarrow> js_error + 'n val" where
  "get_prop env h VUndefined k = Inl (TypeError ''undefined'')"
| "get_prop env h VNull k = Inl (TypeError ''null'')"
| "get_prop env h (VRef r) k = Inr (case lookup env h r k of Some v \<Rightarrow> v | None \<Rightarrow> VUndefined)"
| "get_prop env h (VStr s) k = Inr (case string_prop env s k of Some v \<Rightarrow> v | None \<Rightarrow> proto_prop env h (VStr s) k)"
| "get_prop env h v k = Inr (proto_prop env h v k)"

definition read_prop :: "'n realm \<Rightarrow> 'n val \<Rightarrow> js_string \<Rightarrow> ('n, 'n val) eval" where
  "read_prop env v k h = (get_prop env h v k, h)"

text \<open>\<open>k in v\<close>.\<close>

definition has_prop :: "'n realm \<Rightarrow> 'n heap \<Rightarrow> 'n val \<Rightarrow> js_string \<Rightarrow> js_error + bool" where
  "has_prop env h v k = (case v of VRef r \<Rightarrow> Inr (lookup env h r k \<noteq> None) | _ \<Rightarrow> Inl (TypeError ''in''))"

definition index_of_key :: "js_string \<Rightarrow> nat option" where
  "index_of_key k = (if k \<noteq> [] \<and> list_all (\<lambda>u. 48 \<le> u \<and> u \<le> 57) k \<and> (hd k = 48 \<longrightarrow> tl k = [])
     then Some (foldl (\<lambda>n u. 10 * n + (u - 48)) 0 k) else None)"

definition array_set :: "'n realm \<Rightarrow> 'n obj \<Rightarrow> nat \<Rightarrow> js_string \<Rightarrow> 'n val \<Rightarrow> js_error + 'n obj" where
  "array_set env ob l k x =
    (if k = key ''length'' then
       (case x of
          VNum m \<Rightarrow> (case n_index (nums env) m of
             Some n \<Rightarrow> Inr (ob\<lparr>o_length := Some n,
               o_props := filter (\<lambda>p. case index_of_key (fst p) of Some i \<Rightarrow> i < n | None \<Rightarrow> True) (o_props ob)\<rparr>)
           | None \<Rightarrow> Inl (ErrorMsg ''Invalid array length''))
        | _ \<Rightarrow> Inl (ErrorMsg ''Invalid array length''))
     else Inr (ob\<lparr>o_props := aput k x (o_props ob),
       o_length := Some (case index_of_key k of Some i \<Rightarrow> max l (Suc i) | None \<Rightarrow> l)\<rparr>))"

text \<open>
  \<open>v[k] = x\<close> in strict code. Assigning \<open>__proto__\<close> of an object that inherits it sets the
  prototype, to an object or null, without a cycle.
\<close>

definition set_prop :: "'n realm \<Rightarrow> 'n val \<Rightarrow> js_string \<Rightarrow> 'n val \<Rightarrow> ('n, unit) eval" where
  "set_prop env v k x h =
    (case v of
       VRef r \<Rightarrow>
         (if length h \<le> r then (Inl (TypeError ''reference''), h)
          else if k = key ''__proto__'' \<and> map_of (o_props (h ! r)) k = None \<and> object_proto env \<in> set (proto_chain (length h) h r) then
            (case x of
               VRef p \<Rightarrow> if r \<in> set (proto_chain (length h) h p) then (Inl (TypeError ''Cyclic __proto__ value''), h)
                         else (Inr (), h[r := (h ! r)\<lparr>o_proto := Some p\<rparr>])
             | VNull \<Rightarrow> (Inr (), h[r := (h ! r)\<lparr>o_proto := None\<rparr>])
             | _ \<Rightarrow> (Inr (), h))
          else (case o_length (h ! r) of
              Some l \<Rightarrow> (case array_set env (h ! r) l k x of Inl e \<Rightarrow> (Inl e, h) | Inr ob \<Rightarrow> (Inr (), h[r := ob]))
            | None \<Rightarrow> (Inr (), h[r := (h ! r)\<lparr>o_props := aput k x (o_props (h ! r))\<rparr>])))
     | _ \<Rightarrow> (Inl (TypeError ''property of a primitive''), h))"

definition new_object :: "'n realm \<Rightarrow> ('n, 'n val) eval" where
  "new_object env h = (Inr (VRef (length h)), h @ [\<lparr>o_props = [], o_proto = Some (object_proto env), o_length = None\<rparr>])"

definition new_array :: "'n realm \<Rightarrow> ('n, 'n val) eval" where
  "new_array env h = (Inr (VRef (length h)), h @ [\<lparr>o_props = [], o_proto = Some (array_proto env), o_length = Some 0\<rparr>])"

text \<open>\<open>push\<close> on an array.\<close>

definition array_push :: "'n realm \<Rightarrow> 'n val \<Rightarrow> 'n val \<Rightarrow> ('n, unit) eval" where
  "array_push env v x h = (case v of
     VRef r \<Rightarrow> set_prop env v (key (nat_str (if r < length h then (case o_length (h ! r) of Some l \<Rightarrow> l | None \<Rightarrow> 0) else 0))) x h
   | _ \<Rightarrow> (Inl (TypeError ''push''), h))"

section \<open>Conversions and operators\<close>

fun val_truthy :: "'n realm \<Rightarrow> 'n val \<Rightarrow> bool" where
  "val_truthy env VUndefined = False"
| "val_truthy env VNull = False"
| "val_truthy env (VBool b) = b"
| "val_truthy env (VNum n) = n_truthy (nums env) n"
| "val_truthy env (VStr s) = (s \<noteq> [])"
| "val_truthy env (VRef r) = True"

definition nullish :: "'n val \<Rightarrow> bool" where
  "nullish v = (case v of VUndefined \<Rightarrow> True | VNull \<Rightarrow> True | _ \<Rightarrow> False)"

fun val_strict_eq :: "'n realm \<Rightarrow> 'n val \<Rightarrow> 'n val \<Rightarrow> bool" where
  "val_strict_eq env VUndefined VUndefined = True"
| "val_strict_eq env VNull VNull = True"
| "val_strict_eq env (VBool a) (VBool b) = (a = b)"
| "val_strict_eq env (VNum a) (VNum b) = n_eq (nums env) a b"
| "val_strict_eq env (VStr a) (VStr b) = (a = b)"
| "val_strict_eq env (VRef a) (VRef b) = (a = b)"
| "val_strict_eq env _ _ = False"

definition prim_of :: "'n realm \<Rightarrow> bool \<Rightarrow> 'n val \<Rightarrow> ('n, 'n val) eval" where
  "prim_of env hint v = (case v of VRef r \<Rightarrow> to_prim env hint r | _ \<Rightarrow> ret v)"

text \<open>Of a primitive value.\<close>

fun prim_number :: "'n realm \<Rightarrow> 'n val \<Rightarrow> 'n" where
  "prim_number env VNull = n_of_int (nums env) 0"
| "prim_number env (VBool b) = n_of_int (nums env) (if b then 1 else 0)"
| "prim_number env (VNum n) = n"
| "prim_number env (VStr s) = n_parse (nums env) s"
| "prim_number env _ = n_nan (nums env)"

fun prim_string :: "'n realm \<Rightarrow> 'n val \<Rightarrow> js_string" where
  "prim_string env VUndefined = key ''undefined''"
| "prim_string env VNull = key ''null''"
| "prim_string env (VBool b) = key (if b then ''true'' else ''false'')"
| "prim_string env (VNum n) = n_str (nums env) n"
| "prim_string env (VStr s) = s"
| "prim_string env (VRef r) = key ''[object Object]''"

definition is_str :: "'n val \<Rightarrow> bool" where
  "is_str v = (case v of VStr _ \<Rightarrow> True | _ \<Rightarrow> False)"

definition to_num :: "'n realm \<Rightarrow> 'n val \<Rightarrow> ('n, 'n) eval" where
  "to_num env v = bindM (prim_of env True v) (\<lambda>p. ret (prim_number env p))"

definition js_plus :: "'n realm \<Rightarrow> 'n val \<Rightarrow> 'n val \<Rightarrow> ('n, 'n val) eval" where
  "js_plus env a b = bindM (prim_of env False a) (\<lambda>p. bindM (prim_of env False b) (\<lambda>q.
     ret (if is_str p \<or> is_str q then VStr (prim_string env p @ prim_string env q)
          else VNum (n_add (nums env) (prim_number env p) (prim_number env q)))))"

definition js_arith :: "'n realm \<Rightarrow> ('n \<Rightarrow> 'n \<Rightarrow> 'n) \<Rightarrow> 'n val \<Rightarrow> 'n val \<Rightarrow> ('n, 'n val) eval" where
  "js_arith env f a b = bindM (to_num env a) (\<lambda>x. bindM (to_num env b) (\<lambda>y. ret (VNum (f x y))))"

text \<open>\<open>a < b\<close> and \<open>a <= b\<close>: strings by code units, everything else as numbers.\<close>

fun units_less :: "js_string \<Rightarrow> js_string \<Rightarrow> bool" where
  "units_less [] (y # ys) = True"
| "units_less (x # xs) (y # ys) = (x < y \<or> x = y \<and> units_less xs ys)"
| "units_less xs [] = False"

definition js_compare :: "'n realm \<Rightarrow> bool \<Rightarrow> bool \<Rightarrow> 'n val \<Rightarrow> 'n val \<Rightarrow> ('n, 'n val) eval" where
  "js_compare env swap orEqual a b = bindM (prim_of env True a) (\<lambda>p0. bindM (prim_of env True b) (\<lambda>q0.
     let p = (if swap then q0 else p0); q = (if swap then p0 else q0) in
     ret (VBool (case (p, q) of
         (VStr s, VStr t) \<Rightarrow> units_less s t \<or> orEqual \<and> s = t
       | _ \<Rightarrow> (let x = prim_number env p; y = prim_number env q in
               n_less (nums env) x y \<or> orEqual \<and> n_eq (nums env) x y)))))"

text \<open>\<open>a == b\<close>.\<close>

definition prim_loose_eq :: "'n realm \<Rightarrow> 'n val \<Rightarrow> 'n val \<Rightarrow> bool" where
  "prim_loose_eq env a b =
    (if nullish a \<or> nullish b then nullish a \<and> nullish b
     else if is_str a \<and> is_str b then val_strict_eq env a b
     else n_eq (nums env) (prim_number env a) (prim_number env b))"

definition is_ref :: "'n val \<Rightarrow> bool" where
  "is_ref v = (case v of VRef _ \<Rightarrow> True | _ \<Rightarrow> False)"

definition js_loose_eq :: "'n realm \<Rightarrow> 'n val \<Rightarrow> 'n val \<Rightarrow> ('n, bool) eval" where
  "js_loose_eq env a b =
    (if is_ref a \<and> is_ref b then ret (val_strict_eq env a b)
     else if nullish a \<or> nullish b then ret (nullish a \<and> nullish b)
     else bindM (prim_of env False a) (\<lambda>p. bindM (prim_of env False b) (\<lambda>q. ret (prim_loose_eq env p q))))"

end
