(* ===== verification/NgInterp.thy ===== *)
theory NgInterp
  imports NgValues NgAst
begin

text \<open>
  The evaluation of Angular expressions, \<open>findConstantAndWatchExpressions\<close> and
  \<open>ASTInterpreter\<close> of \<open>js/angular.js\<close> (which \<open>Parser\<close> uses where code cannot be generated).
  A node of a tree is named by its path from the root. The result of a compiled node is its
  value with the object and the name it was read from; a caller that does not ask for the
  context (\<open>context\<close> false) uses the value only.
\<close>

section \<open>Constants and watched inputs\<close>

type_synonym path = "nat list"

text \<open>\<open>constant\<close> and \<open>toWatch\<close> of a node; \<open>stateless\<close> tells the filters without \<open>$stateful\<close>.\<close>

fun analyse :: "(string \<Rightarrow> bool) \<Rightarrow> path \<Rightarrow> ast \<Rightarrow> bool \<times> (path \<times> ast) list"
  and analyse_list :: "(string \<Rightarrow> bool) \<Rightarrow> path \<Rightarrow> nat \<Rightarrow> ast list \<Rightarrow> bool \<times> (path \<times> ast) list"
  and analyse_props :: "(string \<Rightarrow> bool) \<Rightarrow> path \<Rightarrow> nat \<Rightarrow> (ast \<times> ast) list \<Rightarrow> bool \<times> (path \<times> ast) list" where
  "analyse stateless q (Literal l) = (True, [])"
| "analyse stateless q (UnaryExpression op a) = analyse stateless (q @ [0]) a"
| "analyse stateless q (BinaryExpression op l r) =
    (case (analyse stateless (q @ [0]) l, analyse stateless (q @ [1]) r) of ((cl, wl), (cr, wr)) \<Rightarrow> (cl \<and> cr, wl @ wr))"
| "analyse stateless q (LogicalExpression op l r) =
    (let c = fst (analyse stateless (q @ [0]) l) \<and> fst (analyse stateless (q @ [1]) r)
     in (c, if c then [] else [(q, LogicalExpression op l r)]))"
| "analyse stateless q (ConditionalExpression t a b) =
    (let c = fst (analyse stateless (q @ [0]) t) \<and> fst (analyse stateless (q @ [1]) a) \<and> fst (analyse stateless (q @ [2]) b)
     in (c, if c then [] else [(q, ConditionalExpression t a b)]))"
| "analyse stateless q (Identifier s) = (False, [(q, Identifier s)])"
| "analyse stateless q (MemberExpression a b computed) =
    (fst (analyse stateless (q @ [0]) a) \<and> (computed \<longrightarrow> fst (analyse stateless (q @ [1]) b)),
     [(q, MemberExpression a b computed)])"
| "analyse stateless q (CallExpression callee args filtered) =
    (let pure = (filtered \<and> (case callee of Identifier f \<Rightarrow> stateless f | _ \<Rightarrow> False));
         (c, watch) = analyse_list stateless q 1 args
     in (pure \<and> c, if pure then watch else [(q, CallExpression callee args filtered)]))"
| "analyse stateless q (AssignmentExpression l r) =
    (fst (analyse stateless (q @ [0]) l) \<and> fst (analyse stateless (q @ [1]) r), [(q, AssignmentExpression l r)])"
| "analyse stateless q (ArrayExpression es) = analyse_list stateless q 0 es"
| "analyse stateless q (ObjectExpression ps) = analyse_props stateless q 0 ps"
| "analyse stateless q ThisExpression = (False, [])"
| "analyse stateless q NGValueParameter = (False, [])"
| "analyse_list stateless q i [] = (True, [])"
| "analyse_list stateless q i (e # es) =
    (case (analyse stateless (q @ [i]) e, analyse_list stateless q (Suc i) es) of
       ((c, w), (cs, ws)) \<Rightarrow> (c \<and> cs, (if c then [] else w) @ ws))"
| "analyse_props stateless q i [] = (True, [])"
| "analyse_props stateless q i ((k, e) # ps) =
    (case (analyse stateless (q @ [i]) e, analyse_props stateless q (Suc i) ps) of
       ((c, w), (cs, ws)) \<Rightarrow> (c \<and> cs, (if c then [] else w) @ ws))"

text \<open>\<open>getInputs\<close>, \<open>isAssignable\<close>, \<open>assignableAST\<close>, \<open>isLiteral\<close>; the path of a statement is its place in the body.\<close>

definition getInputs :: "(string \<Rightarrow> bool) \<Rightarrow> ast list \<Rightarrow> (path \<times> ast) list option" where
  "getInputs stateless body = (case body of
     [e] \<Rightarrow> (let candidate = snd (analyse stateless [0] e) in
       if length candidate \<noteq> 1 then Some candidate
       else if fst (hd candidate) \<noteq> [0] then Some candidate else None)
   | _ \<Rightarrow> None)"

definition isAssignable :: "ast \<Rightarrow> bool" where
  "isAssignable e = (case e of Identifier _ \<Rightarrow> True | MemberExpression _ _ _ \<Rightarrow> True | _ \<Rightarrow> False)"

definition assignableAST :: "ast list \<Rightarrow> ast option" where
  "assignableAST body = (case body of
     [e] \<Rightarrow> if isAssignable e then Some (AssignmentExpression e NGValueParameter) else None | _ \<Rightarrow> None)"

definition isLiteral :: "ast list \<Rightarrow> bool" where
  "isLiteral body = (case body of
     [] \<Rightarrow> True
   | [e] \<Rightarrow> (case e of Literal _ \<Rightarrow> True | ArrayExpression _ \<Rightarrow> True | ObjectExpression _ \<Rightarrow> True | _ \<Rightarrow> False)
   | _ \<Rightarrow> False)"

definition isConstant :: "(string \<Rightarrow> bool) \<Rightarrow> ast list \<Rightarrow> bool" where
  "isConstant stateless body = list_all (\<lambda>e. fst (analyse stateless [] e)) body"

section \<open>The sandbox\<close>

definition disallowed_names :: "string list" where
  "disallowed_names = [''__defineGetter__'', ''__defineSetter__'', ''__lookupGetter__'', ''__lookupSetter__'', ''__proto__'']"

definition isecfld :: "string \<Rightarrow> js_error" where
  "isecfld expr = minErr ''$parse'' ''isecfld''
     ''Attempting to access a disallowed field in Angular expressions! Expression: {0}'' [expr]"

definition ensureSafeMemberName :: "js_string \<Rightarrow> string \<Rightarrow> js_error + js_string" where
  "ensureSafeMemberName name expr = (if name \<in> key ` set disallowed_names then Inl (isecfld expr) else Inr name)"

definition parse_error :: "string \<Rightarrow> string \<Rightarrow> string \<Rightarrow> js_error" where
  "parse_error code template expr = minErr ''$parse'' code template [expr]"

definition getStringValue :: "'n realm \<Rightarrow> 'n val \<Rightarrow> ('n, js_string) eval" where
  "getStringValue env name = bindM (js_plus env name (VStr [])) (\<lambda>v. case v of
     VStr s \<Rightarrow> ret s
   | _ \<Rightarrow> throw (parse_error ''iseccst'' ''Cannot convert object to primitive value! Expression: {0}'' ''undefined''))"

definition truthy_prop :: "'n realm \<Rightarrow> 'n heap \<Rightarrow> 'n val \<Rightarrow> string \<Rightarrow> bool" where
  "truthy_prop env h v k = (case get_prop env h v (key k) of Inr w \<Rightarrow> val_truthy env w | Inl _ \<Rightarrow> False)"

definition own_value :: "'n realm \<Rightarrow> 'n heap \<Rightarrow> 'n val \<Rightarrow> string \<Rightarrow> bool" where
  "own_value env h v k = (case get_prop env h v (key k) of Inr w \<Rightarrow> val_strict_eq env w v | Inl _ \<Rightarrow> False)"

text \<open>A truthy value has properties, so reading them cannot fail.\<close>

definition ensureSafeObject :: "'n realm \<Rightarrow> 'n val \<Rightarrow> string \<Rightarrow> ('n, 'n val) eval" where
  "ensureSafeObject env v expr h =
    (if \<not> val_truthy env v then (Inr v, h)
     else if own_value env h v ''constructor'' then
       (Inl (parse_error ''isecfn'' ''Referencing Function in Angular expressions is disallowed! Expression: {0}'' expr), h)
     else if own_value env h v ''window'' then
       (Inl (parse_error ''isecwindow'' ''Referencing the Window in Angular expressions is disallowed! Expression: {0}'' expr), h)
     else if truthy_prop env h v ''children'' \<and> (truthy_prop env h v ''nodeName'' \<or>
         truthy_prop env h v ''prop'' \<and> truthy_prop env h v ''attr'' \<and> truthy_prop env h v ''find'') then
       (Inl (parse_error ''isecdom'' ''Referencing DOM nodes in Angular expressions is disallowed! Expression: {0}'' expr), h)
     else if v = VRef (object_ctor env) then
       (Inl (parse_error ''isecobj'' ''Referencing Object in Angular expressions is disallowed! Expression: {0}'' expr), h)
     else (Inr v, h))"

definition ensureSafeFunction :: "'n realm \<Rightarrow> 'n val \<Rightarrow> string \<Rightarrow> ('n, unit) eval" where
  "ensureSafeFunction env v expr h =
    (if \<not> val_truthy env v then (Inr (), h)
     else if own_value env h v ''constructor'' then
       (Inl (parse_error ''isecfn'' ''Referencing Function in Angular expressions is disallowed! Expression: {0}'' expr), h)
     else if v \<in> VRef ` set (unsafe_fns env) then
       (Inl (parse_error ''isecff'' ''Referencing call, apply or bind in Angular expressions is disallowed! Expression: {0}'' expr), h)
     else (Inr (), h))"

text \<open>It is called without the expression, which is then undefined.\<close>

definition ensureSafeAssignContext :: "'n realm \<Rightarrow> 'n val \<Rightarrow> ('n, unit) eval" where
  "ensureSafeAssignContext env v h =
    (if val_truthy env v \<and> v \<in> VRef ` set (ctors env)
     then (Inl (parse_error ''isecaf'' ''Assigning to a constructor is disallowed! Expression: {0}'' ''undefined''), h)
     else (Inr (), h))"

definition isPossiblyDangerousMemberName :: "string \<Rightarrow> bool" where
  "isPossiblyDangerousMemberName name \<longleftrightarrow> name = ''constructor''"

definition ifDefined :: "'n val \<Rightarrow> 'n val \<Rightarrow> 'n val" where
  "ifDefined v d = (if v = VUndefined then d else v)"

definition plusFn :: "'n realm \<Rightarrow> 'n val \<Rightarrow> 'n val \<Rightarrow> ('n, 'n val) eval" where
  "plusFn env l r = (if l = VUndefined then ret r else if r = VUndefined then ret l else js_plus env l r)"

section \<open>Compiled nodes\<close>

record 'n result =
  r_value :: "'n val"
  r_context :: "'n val"
  r_name :: js_string

definition plain :: "'n val \<Rightarrow> 'n result" where
  "plain v = \<lparr>r_value = v, r_context = VUndefined, r_name = key ''undefined''\<rparr>"

text \<open>The arguments \<open>scope\<close>, \<open>locals\<close>, \<open>assign\<close> and \<open>inputs\<close> of a compiled node.\<close>

record 'n args =
  a_scope :: "'n val"
  a_locals :: "'n val"
  a_assign :: "'n val"
  a_inputs :: "'n val list option"

type_synonym 'n code = "'n args \<Rightarrow> ('n, 'n result) eval"

text \<open>The argument \<open>create\<close>: absent or false, 1, or true.\<close>

datatype create = NoCreate | CreateSelf | CreateChain

definition create_up :: "create \<Rightarrow> create" where
  "create_up c = (if c = NoCreate then NoCreate else CreateChain)"

definition with_value :: "('n args \<Rightarrow> ('n, 'n val) eval) \<Rightarrow> 'n code" where
  "with_value m a = bindM (m a) (\<lambda>v. ret (plain v))"

definition value_of :: "'n code \<Rightarrow> 'n args \<Rightarrow> ('n, 'n val) eval" where
  "value_of m a = bindM (m a) (\<lambda>r. ret (r_value r))"

definition create_missing :: "'n realm \<Rightarrow> create \<Rightarrow> 'n val \<Rightarrow> js_string \<Rightarrow> ('n, unit) eval" where
  "create_missing env create base name =
    (if create = CreateChain \<and> val_truthy env base then
       bindM (read_prop env base name) (\<lambda>v. if val_truthy env v then ret ()
         else bindM (new_object env) (\<lambda>ob. set_prop env base name ob))
     else ret ())"

definition check_if :: "'n realm \<Rightarrow> bool \<Rightarrow> 'n val \<Rightarrow> string \<Rightarrow> ('n, unit) eval" where
  "check_if env b v expr = (if b then bindM (ensureSafeObject env v expr) (\<lambda>_. ret ()) else ret ())"

text \<open>\<open>locals && (name in locals) ? locals : scope\<close>.\<close>

definition base_of :: "'n realm \<Rightarrow> js_string \<Rightarrow> 'n args \<Rightarrow> ('n, 'n val) eval" where
  "base_of env name a h =
    (if val_truthy env (a_locals a) then
       (case has_prop env h (a_locals a) name of Inl e \<Rightarrow> (Inl e, h) | Inr b \<Rightarrow> (Inr (if b then a_locals a else a_scope a), h))
     else (Inr (a_scope a), h))"

definition interp_identifier :: "'n realm \<Rightarrow> string \<Rightarrow> string \<Rightarrow> bool \<Rightarrow> create \<Rightarrow> 'n code" where
  "interp_identifier env expr name expensive create a =
    bindM (base_of env (key name) a) (\<lambda>base.
    bindM (create_missing env create base (key name)) (\<lambda>_.
    bindM (if val_truthy env base then read_prop env base (key name) else ret VUndefined) (\<lambda>v.
    bindM (check_if env expensive v expr) (\<lambda>_.
    ret \<lparr>r_value = v, r_context = base, r_name = key name\<rparr>))))"

definition computedMember :: "'n realm \<Rightarrow> string \<Rightarrow> 'n code \<Rightarrow> 'n code \<Rightarrow> create \<Rightarrow> 'n code" where
  "computedMember env expr left right create a =
    bindM (value_of left a) (\<lambda>lhs.
    if nullish lhs then ret \<lparr>r_value = VUndefined, r_context = lhs, r_name = key ''undefined''\<rparr>
    else
      bindM (value_of right a) (\<lambda>rhs.
      bindM (getStringValue env rhs) (\<lambda>name.
      bindM (liftE (ensureSafeMemberName name expr)) (\<lambda>_.
      bindM (create_missing env create lhs name) (\<lambda>_.
      bindM (read_prop env lhs name) (\<lambda>v.
      bindM (ensureSafeObject env v expr) (\<lambda>_.
      ret \<lparr>r_value = v, r_context = lhs, r_name = name\<rparr>)))))))"

definition nonComputedMember :: "'n realm \<Rightarrow> string \<Rightarrow> 'n code \<Rightarrow> string \<Rightarrow> bool \<Rightarrow> create \<Rightarrow> 'n code" where
  "nonComputedMember env expr left right expensive create a =
    bindM (value_of left a) (\<lambda>lhs.
    bindM (create_missing env create lhs (key right)) (\<lambda>_.
    bindM (if nullish lhs then ret VUndefined else read_prop env lhs (key right)) (\<lambda>v.
    bindM (check_if env (expensive \<or> isPossiblyDangerousMemberName right) v expr) (\<lambda>_.
    ret \<lparr>r_value = v, r_context = lhs, r_name = key right\<rparr>))))"

section \<open>Operators of expressions\<close>

definition unary_op :: "'n realm \<Rightarrow> string \<Rightarrow> 'n val \<Rightarrow> ('n, 'n val) eval" where
  "unary_op env op v =
    (if op = ''!'' then ret (VBool (\<not> val_truthy env v))
     else if v = VUndefined then ret (VNum (n_of_int (nums env) 0))
     else bindM (to_num env v) (\<lambda>n. ret (VNum (if op = ''-'' then n_neg (nums env) n else n))))"

definition binary_op :: "'n realm \<Rightarrow> string \<Rightarrow> 'n val \<Rightarrow> 'n val \<Rightarrow> ('n, 'n val) eval" where
  "binary_op env op l r =
    (if op = ''+'' then plusFn env l r
     else if op = ''-'' then (let zero = VNum (n_of_int (nums env) 0) in
       js_arith env (n_sub (nums env)) (ifDefined l zero) (ifDefined r zero))
     else if op = ''*'' then js_arith env (n_mul (nums env)) l r
     else if op = ''/'' then js_arith env (n_div (nums env)) l r
     else if op = ''%'' then js_arith env (n_mod (nums env)) l r
     else if op = ''==='' then ret (VBool (val_strict_eq env l r))
     else if op = ''!=='' then ret (VBool (\<not> val_strict_eq env l r))
     else if op = ''=='' then bindM (js_loose_eq env l r) (\<lambda>b. ret (VBool b))
     else if op = ''!='' then bindM (js_loose_eq env l r) (\<lambda>b. ret (VBool (\<not> b)))
     else if op = ''<'' then js_compare env False False l r
     else if op = ''>'' then js_compare env True False l r
     else if op = ''<='' then js_compare env False True l r
     else js_compare env True True l r)"

definition unary_code :: "'n realm \<Rightarrow> string \<Rightarrow> 'n code \<Rightarrow> 'n code" where
  "unary_code env op m = with_value (\<lambda>a. bindM (value_of m a) (unary_op env op))"

definition binary_code :: "'n realm \<Rightarrow> string \<Rightarrow> 'n code \<Rightarrow> 'n code \<Rightarrow> 'n code" where
  "binary_code env op l r = with_value (\<lambda>a. bindM (value_of l a) (\<lambda>x. bindM (value_of r a) (binary_op env op x)))"

definition logical_code :: "'n realm \<Rightarrow> string \<Rightarrow> 'n code \<Rightarrow> 'n code \<Rightarrow> 'n code" where
  "logical_code env op l r = with_value (\<lambda>a. bindM (value_of l a) (\<lambda>x.
     if (op = ''&&'') = val_truthy env x then value_of r a else ret x))"

definition ternary_code :: "'n realm \<Rightarrow> 'n code \<Rightarrow> 'n code \<Rightarrow> 'n code \<Rightarrow> 'n code" where
  "ternary_code env t x y = with_value (\<lambda>a. bindM (value_of t a) (\<lambda>b.
     if val_truthy env b then value_of x a else value_of y a))"

definition literal_value :: "'n realm \<Rightarrow> literal \<Rightarrow> 'n val" where
  "literal_value env l = (case l of
     ConstantLit (NumberOf s) \<Rightarrow> VNum (n_parse (nums env) (units s))
   | ConstantLit (StringOf v) \<Rightarrow> VStr v
   | TrueLit \<Rightarrow> VBool True | FalseLit \<Rightarrow> VBool False | NullLit \<Rightarrow> VNull | UndefinedLit \<Rightarrow> VUndefined)"

text \<open>The key of a property in an object literal.\<close>

definition property_key :: "'n realm \<Rightarrow> ast \<Rightarrow> js_string" where
  "property_key env k = (case k of
     Identifier s \<Rightarrow> key s
   | Literal l \<Rightarrow> prim_string env (literal_value env l)
   | _ \<Rightarrow> key ''undefined'')"

fun eval_args :: "'n code list \<Rightarrow> 'n args \<Rightarrow> ('n, 'n val list) eval" where
  "eval_args [] a = ret []"
| "eval_args (c # cs) a = bindM (value_of c a) (\<lambda>v. bindM (eval_args cs a) (\<lambda>vs. ret (v # vs)))"

definition safe_code :: "'n realm \<Rightarrow> string \<Rightarrow> 'n code \<Rightarrow> 'n code" where
  "safe_code env expr c = with_value (\<lambda>a. bindM (value_of c a) (\<lambda>v. ensureSafeObject env v expr))"

definition filter_code :: "'n realm \<Rightarrow> nat \<Rightarrow> 'n code list \<Rightarrow> 'n code" where
  "filter_code env f args = with_value (\<lambda>a. bindM (eval_args args a) (apply_fn env f VUndefined))"

definition call_value :: "'n realm \<Rightarrow> 'n val \<Rightarrow> 'n val \<Rightarrow> 'n val list \<Rightarrow> ('n, 'n val) eval" where
  "call_value env f this vs = (case f of
     VRef r \<Rightarrow> if callable env r then apply_fn env r this vs else throw (TypeError ''apply'')
   | _ \<Rightarrow> throw (TypeError ''apply''))"

definition call_code :: "'n realm \<Rightarrow> string \<Rightarrow> 'n code \<Rightarrow> 'n code list \<Rightarrow> 'n code" where
  "call_code env expr right args = with_value (\<lambda>a. bindM (right a) (\<lambda>rhs.
     if nullish (r_value rhs) then ret VUndefined
     else
       bindM (ensureSafeObject env (r_context rhs) expr) (\<lambda>_.
       bindM (ensureSafeFunction env (r_value rhs) expr) (\<lambda>_.
       bindM (eval_args (map (safe_code env expr) args) a) (\<lambda>vs.
       bindM (call_value env (r_value rhs) (r_context rhs) vs) (\<lambda>v.
       ensureSafeObject env v expr))))))"

definition assign_code :: "'n realm \<Rightarrow> string \<Rightarrow> 'n code \<Rightarrow> 'n code \<Rightarrow> 'n code" where
  "assign_code env expr left right = with_value (\<lambda>a. bindM (left a) (\<lambda>lhs. bindM (value_of right a) (\<lambda>rhs.
     bindM (ensureSafeObject env (r_value lhs) expr) (\<lambda>_.
     bindM (ensureSafeAssignContext env (r_context lhs)) (\<lambda>_.
     bindM (set_prop env (r_context lhs) (r_name lhs) rhs) (\<lambda>_. ret rhs))))))"

fun push_all :: "'n realm \<Rightarrow> 'n val \<Rightarrow> 'n code list \<Rightarrow> 'n args \<Rightarrow> ('n, unit) eval" where
  "push_all env arr [] a = ret ()"
| "push_all env arr (c # cs) a = bindM (value_of c a) (\<lambda>v. bindM (array_push env arr v) (\<lambda>_. push_all env arr cs a))"

definition array_code :: "'n realm \<Rightarrow> 'n code list \<Rightarrow> 'n code" where
  "array_code env args = with_value (\<lambda>a. bindM (new_array env) (\<lambda>arr. bindM (push_all env arr args a) (\<lambda>_. ret arr)))"

fun set_all :: "'n realm \<Rightarrow> 'n val \<Rightarrow> (js_string \<times> 'n code) list \<Rightarrow> 'n args \<Rightarrow> ('n, unit) eval" where
  "set_all env ob [] a = ret ()"
| "set_all env ob ((k, c) # cs) a =
    bindM (value_of c a) (\<lambda>v. bindM (set_prop env ob k v) (\<lambda>_. set_all env ob cs a))"

definition object_code :: "'n realm \<Rightarrow> (js_string \<times> 'n code) list \<Rightarrow> 'n code" where
  "object_code env args = with_value (\<lambda>a. bindM (new_object env) (\<lambda>ob. bindM (set_all env ob args a) (\<lambda>_. ret ob)))"

definition input_code :: "'n code \<Rightarrow> nat \<Rightarrow> 'n code" where
  "input_code input watchId a = (case a_inputs a of
     Some vs \<Rightarrow> ret (plain (if watchId < length vs then vs ! watchId else VUndefined))
   | None \<Rightarrow> input a)"

section \<open>Compilation\<close>

definition e_bind :: "js_error + 'a \<Rightarrow> ('a \<Rightarrow> js_error + 'b) \<Rightarrow> js_error + 'b" where
  "e_bind m f = (case m of Inl e \<Rightarrow> Inl e | Inr x \<Rightarrow> f x)"

lemma e_bind_cong [fundef_cong]: "m = m' \<Longrightarrow> (\<And>x. m' = Inr x \<Longrightarrow> f x = f' x) \<Longrightarrow> e_bind m f = e_bind m' f'"
  by (simp add: e_bind_def split: sum.split)

type_synonym 'n table = "path \<Rightarrow> ('n code \<times> nat) option"

definition member_name :: "ast \<Rightarrow> string" where
  "member_name e = (case e of Identifier s \<Rightarrow> s | _ \<Rightarrow> ''undefined'')"

text \<open>\<open>recurse\<close>: the nodes in the table of inputs are replaced by them.\<close>

fun recurse :: "'n realm \<Rightarrow> string \<Rightarrow> bool \<Rightarrow> 'n table \<Rightarrow> create \<Rightarrow> path \<Rightarrow> ast \<Rightarrow> js_error + 'n code"
  and recurse_list :: "'n realm \<Rightarrow> string \<Rightarrow> bool \<Rightarrow> 'n table \<Rightarrow> path \<Rightarrow> nat \<Rightarrow> ast list \<Rightarrow> js_error + 'n code list"
  and recurse_props :: "'n realm \<Rightarrow> string \<Rightarrow> bool \<Rightarrow> 'n table \<Rightarrow> path \<Rightarrow> nat \<Rightarrow> (ast \<times> ast) list \<Rightarrow>
    js_error + (js_string \<times> 'n code) list"
  where
  "recurse env expr expensive table create q ast =
    (case table q of
       Some (input, watchId) \<Rightarrow> Inr (input_code input watchId)
     | None \<Rightarrow>
    (case ast of
       Literal l \<Rightarrow> Inr (\<lambda>a. ret (plain (literal_value env l)))
     | UnaryExpression op e \<Rightarrow>
         e_bind (recurse env expr expensive table NoCreate (q @ [0]) e) (\<lambda>right. Inr (unary_code env op right))
     | BinaryExpression op l r \<Rightarrow>
         e_bind (recurse env expr expensive table NoCreate (q @ [0]) l) (\<lambda>left.
         e_bind (recurse env expr expensive table NoCreate (q @ [1]) r) (\<lambda>right. Inr (binary_code env op left right)))
     | LogicalExpression op l r \<Rightarrow>
         e_bind (recurse env expr expensive table NoCreate (q @ [0]) l) (\<lambda>left.
         e_bind (recurse env expr expensive table NoCreate (q @ [1]) r) (\<lambda>right. Inr (logical_code env op left right)))
     | ConditionalExpression t x y \<Rightarrow>
         e_bind (recurse env expr expensive table NoCreate (q @ [0]) t) (\<lambda>test.
         e_bind (recurse env expr expensive table NoCreate (q @ [1]) x) (\<lambda>alternate.
         e_bind (recurse env expr expensive table NoCreate (q @ [2]) y) (\<lambda>consequent.
         Inr (ternary_code env test alternate consequent))))
     | Identifier s \<Rightarrow>
         e_bind (ensureSafeMemberName (key s) expr) (\<lambda>_.
         Inr (interp_identifier env expr s (expensive \<or> isPossiblyDangerousMemberName s) create))
     | MemberExpression ob property computed \<Rightarrow>
         e_bind (recurse env expr expensive table (create_up create) (q @ [0]) ob) (\<lambda>left.
         if computed then
           e_bind (recurse env expr expensive table NoCreate (q @ [1]) property) (\<lambda>right.
           Inr (computedMember env expr left right create))
         else
           e_bind (ensureSafeMemberName (key (member_name property)) expr) (\<lambda>_.
           Inr (nonComputedMember env expr left (member_name property) expensive create)))
     | CallExpression callee args filtered \<Rightarrow>
         e_bind (recurse_list env expr expensive table q 1 args) (\<lambda>codes.
         if filtered then e_bind (filter_of env (member_name callee)) (\<lambda>(f, _). Inr (filter_code env f codes))
         else e_bind (recurse env expr expensive table NoCreate (q @ [0]) callee) (\<lambda>right. Inr (call_code env expr right codes)))
     | AssignmentExpression l r \<Rightarrow>
         e_bind (recurse env expr expensive table CreateSelf (q @ [0]) l) (\<lambda>left.
         e_bind (recurse env expr expensive table NoCreate (q @ [1]) r) (\<lambda>right. Inr (assign_code env expr left right)))
     | ArrayExpression es \<Rightarrow>
         e_bind (recurse_list env expr expensive table q 0 es) (\<lambda>codes. Inr (array_code env codes))
     | ObjectExpression ps \<Rightarrow>
         e_bind (recurse_props env expr expensive table q 0 ps) (\<lambda>codes. Inr (object_code env codes))
     | ThisExpression \<Rightarrow> Inr (\<lambda>a. ret (plain (a_scope a)))
     | NGValueParameter \<Rightarrow> Inr (\<lambda>a. ret (plain (a_assign a)))))"
| "recurse_list env expr expensive table q i [] = Inr []"
| "recurse_list env expr expensive table q i (e # es) =
    e_bind (recurse env expr expensive table NoCreate (q @ [i]) e) (\<lambda>c.
    e_bind (recurse_list env expr expensive table q (Suc i) es) (\<lambda>cs. Inr (c # cs)))"
| "recurse_props env expr expensive table q i [] = Inr []"
| "recurse_props env expr expensive table q i ((k, e) # ps) =
    e_bind (recurse env expr expensive table NoCreate (q @ [i]) e) (\<lambda>c.
    e_bind (recurse_props env expr expensive table q (Suc i) ps) (\<lambda>cs. Inr ((property_key env k, c) # cs)))"

declare recurse.simps [simp del]

text \<open>The filters a tree names, in the order the analysis asks for them.\<close>

fun filters_of :: "ast \<Rightarrow> string list" where
  "filters_of (UnaryExpression op e) = filters_of e"
| "filters_of (BinaryExpression op l r) = filters_of l @ filters_of r"
| "filters_of (LogicalExpression op l r) = filters_of l @ filters_of r"
| "filters_of (ConditionalExpression t x y) = filters_of t @ filters_of x @ filters_of y"
| "filters_of (MemberExpression ob property computed) = filters_of ob @ (if computed then filters_of property else [])"
| "filters_of (CallExpression callee args filtered) =
    (if filtered then [member_name callee] else []) @ concat (map filters_of args)"
| "filters_of (AssignmentExpression l r) = filters_of l @ filters_of r"
| "filters_of (ArrayExpression es) = concat (map filters_of es)"
| "filters_of (ObjectExpression ps) = concat (map (\<lambda>kv. filters_of (snd kv)) ps)"
| "filters_of _ = []"

fun first_error :: "(js_error + 'a) list \<Rightarrow> js_error option" where
  "first_error [] = None"
| "first_error (Inl e # rs) = Some e"
| "first_error (Inr x # rs) = first_error rs"

definition isStateless :: "'n realm \<Rightarrow> string \<Rightarrow> bool" where
  "isStateless env name = (case filter_of env name of Inr (_, stateful) \<Rightarrow> \<not> stateful | Inl _ \<Rightarrow> False)"

record 'n compiled =
  fn_code :: "'n args \<Rightarrow> ('n, 'n val) eval"
  fn_assign :: "('n args \<Rightarrow> ('n, 'n val) eval) option"
  fn_inputs :: "'n code list option"
  fn_literal :: bool
  fn_constant :: bool

text \<open>The expressions of a body one after the other; the value is the last one's.\<close>

fun run_body :: "'n code list \<Rightarrow> 'n val \<Rightarrow> 'n args \<Rightarrow> ('n, 'n val) eval" where
  "run_body [] v a = ret v"
| "run_body (c # cs) v a = bindM (value_of c a) (\<lambda>w. run_body cs w a)"

fun compile_inputs :: "'n realm \<Rightarrow> string \<Rightarrow> bool \<Rightarrow> (path \<times> ast) list \<Rightarrow> js_error + 'n code list" where
  "compile_inputs env expr expensive [] = Inr []"
| "compile_inputs env expr expensive ((q, e) # ws) =
    e_bind (recurse env expr expensive (\<lambda>_. None) NoCreate q e) (\<lambda>c.
    e_bind (compile_inputs env expr expensive ws) (\<lambda>cs. Inr (c # cs)))"

definition input_table :: "(path \<times> ast) list \<Rightarrow> 'n code list \<Rightarrow> 'n table" where
  "input_table ws codes = map_of (zip (map fst ws) (zip codes [0..<length codes]))"

definition compile_body :: "'n realm \<Rightarrow> string \<Rightarrow> bool \<Rightarrow> ast list \<Rightarrow> js_error + 'n compiled" where
  "compile_body env expr expensive body =
    (case first_error (map (filter_of env) (concat (map filters_of body))) of
       Some e \<Rightarrow> Inl e
     | None \<Rightarrow>
       e_bind (case assignableAST body of
           None \<Rightarrow> Inr None
         | Some assignable \<Rightarrow> e_bind (recurse env expr expensive (\<lambda>_. None) NoCreate [0] assignable) (\<lambda>c. Inr (Some (value_of c))))
        (\<lambda>assign.
       e_bind (case getInputs (isStateless env) body of
           None \<Rightarrow> Inr None
         | Some ws \<Rightarrow> e_bind (compile_inputs env expr expensive ws) (\<lambda>cs. Inr (Some cs)))
        (\<lambda>inputs.
       let table = (case (getInputs (isStateless env) body, inputs) of
           (Some ws, Some cs) \<Rightarrow> input_table ws cs | _ \<Rightarrow> (\<lambda>_. None))
       in e_bind (recurse_list env expr expensive table [] 0 body) (\<lambda>expressions.
         Inr \<lparr>fn_code = run_body expressions VUndefined, fn_assign = assign, fn_inputs = inputs,
           fn_literal = isLiteral body, fn_constant = isConstant (isStateless env) body\<rparr>))))"

text \<open>\<open>Parser.parse\<close> with the interpreter; None only if parsing did not end (\<open>parsing_ends\<close>).\<close>

definition parse_expression :: "'n realm \<Rightarrow> string \<Rightarrow> bool \<Rightarrow> (js_error + 'n compiled) option" where
  "parse_expression env expr expensive = (case ast_of expr of
     None \<Rightarrow> None
   | Some (Inl e) \<Rightarrow> Some (Inl e)
   | Some (Inr body) \<Rightarrow> Some (compile_body env expr expensive body))"

end
