(* ===== verification/NgInterpProps.thy ===== *)
theory NgInterpProps
  imports NgInterp NgAstProps
begin

text \<open>
  What compiled expressions promise: a constant one depends on no scope, and evaluation stays
  within the sandbox of member names.
\<close>

section \<open>Compilation, node by node\<close>

lemma e_bind_Inr: "e_bind m f = Inr y \<longleftrightarrow> (\<exists>x. m = Inr x \<and> f x = Inr y)"
  by (auto simp: e_bind_def split: sum.splits)

lemma recurse_input: "table q = Some (i, n) \<Longrightarrow> recurse env expr expensive table create q e = Inr (input_code i n)"
  by (simp add: recurse.simps)

lemma recurse_lists:
  assumes "\<And>e j c. e \<in> set es \<Longrightarrow> recurse env expr expensive table NoCreate (q @ [j]) e = Inr c \<Longrightarrow> P c"
  shows "recurse_list env expr expensive table q i es = Inr cs \<Longrightarrow> list_all P cs"
  using assms
proof (induction es arbitrary: i cs)
  case (Cons e es)
  from Cons.prems(1) obtain c cs' where c: "recurse env expr expensive table NoCreate (q @ [i]) e = Inr c"
      "recurse_list env expr expensive table q (Suc i) es = Inr cs'" "cs = c # cs'" by (auto simp: e_bind_Inr)
  from Cons.IH [OF c(2)] Cons.prems(2) have "list_all P cs'" by auto
  moreover from Cons.prems(2) [OF _ c(1)] have "P c" by simp
  ultimately show ?case by (simp add: c(3))
qed simp

lemma recurse_properties:
  assumes "\<And>kv j c. kv \<in> set ps \<Longrightarrow> recurse env expr expensive table NoCreate (q @ [j]) (snd kv) = Inr c \<Longrightarrow> P c"
  shows "recurse_props env expr expensive table q i ps = Inr cs \<Longrightarrow> list_all (\<lambda>kc. P (snd kc)) cs"
  using assms
proof (induction ps arbitrary: i cs)
  case (Cons kv ps)
  obtain k e where kv: "kv = (k, e)" by (cases kv)
  from Cons.prems(1) kv obtain c cs' where c: "recurse env expr expensive table NoCreate (q @ [i]) e = Inr c"
      "recurse_props env expr expensive table q (Suc i) ps = Inr cs'" "cs = (property_key env k, c) # cs'"
    by (auto simp: e_bind_Inr)
  from Cons.IH [OF c(2)] Cons.prems(2) have "list_all (\<lambda>kc. P (snd kc)) cs'" by auto
  moreover from Cons.prems(2) [of kv i c] c(1) kv have "P c" by simp
  ultimately show ?case by (simp add: c(3))
qed simp

text \<open>A node that is not an input is compiled from its parts.\<close>

lemma recurse_nodes:
  assumes "table q = None"
  shows "recurse env expr x table create q (Literal l) = Inr c \<longleftrightarrow> c = (\<lambda>a. ret (plain (literal_value env l)))"
    and "recurse env expr x table create q (UnaryExpression op e) = Inr c \<longleftrightarrow>
      (\<exists>m. recurse env expr x table NoCreate (q @ [0]) e = Inr m \<and> c = unary_code env op m)"
    and "recurse env expr x table create q (BinaryExpression op e f) = Inr c \<longleftrightarrow>
      (\<exists>l r. recurse env expr x table NoCreate (q @ [0]) e = Inr l \<and> recurse env expr x table NoCreate (q @ [1]) f = Inr r \<and>
        c = binary_code env op l r)"
    and "recurse env expr x table create q (LogicalExpression op e f) = Inr c \<longleftrightarrow>
      (\<exists>l r. recurse env expr x table NoCreate (q @ [0]) e = Inr l \<and> recurse env expr x table NoCreate (q @ [1]) f = Inr r \<and>
        c = logical_code env op l r)"
    and "recurse env expr x table create q (ConditionalExpression e f g) = Inr c \<longleftrightarrow>
      (\<exists>t l r. recurse env expr x table NoCreate (q @ [0]) e = Inr t \<and> recurse env expr x table NoCreate (q @ [1]) f = Inr l \<and>
        recurse env expr x table NoCreate (q @ [2]) g = Inr r \<and> c = ternary_code env t l r)"
    and "recurse env expr x table create q (Identifier s) = Inr c \<longleftrightarrow>
      (\<exists>u. ensureSafeMemberName (key s) expr = Inr u \<and> c = interp_identifier env expr s (x \<or> isPossiblyDangerousMemberName s) create)"
    and "recurse env expr x table create q (MemberExpression e f computed) = Inr c \<longleftrightarrow>
      (\<exists>l. recurse env expr x table (create_up create) (q @ [0]) e = Inr l \<and>
        (if computed then \<exists>r. recurse env expr x table NoCreate (q @ [1]) f = Inr r \<and> c = computedMember env expr l r create
         else \<exists>u. ensureSafeMemberName (key (member_name f)) expr = Inr u \<and>
           c = nonComputedMember env expr l (member_name f) x create))"
    and "recurse env expr x table create q (CallExpression e es filtered) = Inr c \<longleftrightarrow>
      (\<exists>cs. recurse_list env expr x table q 1 es = Inr cs \<and>
        (if filtered then \<exists>f b. filter_of env (member_name e) = Inr (f, b) \<and> c = filter_code env f cs
         else \<exists>m. recurse env expr x table NoCreate (q @ [0]) e = Inr m \<and> c = call_code env expr m cs))"
    and "recurse env expr x table create q (AssignmentExpression e f) = Inr c \<longleftrightarrow>
      (\<exists>l r. recurse env expr x table CreateSelf (q @ [0]) e = Inr l \<and> recurse env expr x table NoCreate (q @ [1]) f = Inr r \<and>
        c = assign_code env expr l r)"
    and "recurse env expr x table create q (ArrayExpression es) = Inr c \<longleftrightarrow>
      (\<exists>cs. recurse_list env expr x table q 0 es = Inr cs \<and> c = array_code env cs)"
    and "recurse env expr x table create q (ObjectExpression ps) = Inr c \<longleftrightarrow>
      (\<exists>cs. recurse_props env expr x table q 0 ps = Inr cs \<and> c = object_code env cs)"
    and "recurse env expr x table create q ThisExpression = Inr c \<longleftrightarrow> c = (\<lambda>a. ret (plain (a_scope a)))"
    and "recurse env expr x table create q NGValueParameter = Inr c \<longleftrightarrow> c = (\<lambda>a. ret (plain (a_assign a)))"
  by (auto simp: recurse.simps [where q = q] assms e_bind_Inr)

text \<open>What the compilation of a body is made of.\<close>

definition table_of :: "(path \<times> ast) list option \<Rightarrow> 'n code list option \<Rightarrow> 'n table" where
  "table_of watched inputs = (case (watched, inputs) of (Some ws, Some cs) \<Rightarrow> input_table ws cs | _ \<Rightarrow> (\<lambda>_. None))"

lemma compile_bodyE:
  assumes "compile_body env expr x body = Inr c"
  obtains (split) assign inputs cs where
    "case assignableAST body of None \<Rightarrow> assign = None
     | Some e \<Rightarrow> \<exists>m. recurse env expr x (\<lambda>_. None) NoCreate [0] e = Inr m \<and> assign = Some (value_of m)"
    "case getInputs (isStateless env) body of None \<Rightarrow> inputs = None
     | Some ws \<Rightarrow> \<exists>is. compile_inputs env expr x ws = Inr is \<and> inputs = Some is"
    "recurse_list env expr x (table_of (getInputs (isStateless env) body) inputs) [] 0 body = Inr cs"
    "c = \<lparr>fn_code = run_body cs VUndefined, fn_assign = assign, fn_inputs = inputs,
      fn_literal = isLiteral body, fn_constant = isConstant (isStateless env) body\<rparr>"
proof -
  have a: "m = Inr assign" if "e_bind m f = Inr c" "\<And>y. m = Inr y \<Longrightarrow> y = assign" for m :: "js_error + 'b" and f assign
    using that by (auto simp: e_bind_Inr)
  from assms have "first_error (map (filter_of env) (concat (map filters_of body))) = None"
    unfolding compile_body_def by (simp split: option.splits)
  with assms obtain assign inputs cs where
    s: "(case assignableAST body of None \<Rightarrow> Inr None
         | Some e \<Rightarrow> e_bind (recurse env expr x (\<lambda>_. None) NoCreate [0] e) (\<lambda>c. Inr (Some (value_of c)))) = Inr assign"
      "(case getInputs (isStateless env) body of None \<Rightarrow> Inr None
         | Some ws \<Rightarrow> e_bind (compile_inputs env expr x ws) (\<lambda>cs. Inr (Some cs))) = Inr inputs"
      "recurse_list env expr x (table_of (getInputs (isStateless env) body) inputs) [] 0 body = Inr cs"
      "c = \<lparr>fn_code = run_body cs VUndefined, fn_assign = assign, fn_inputs = inputs,
        fn_literal = isLiteral body, fn_constant = isConstant (isStateless env) body\<rparr>"
    unfolding compile_body_def table_of_def by (simp only: option.case e_bind_Inr Let_def) (metis sum.inject(2))
  show thesis
  proof (rule split)
    show "case assignableAST body of None \<Rightarrow> assign = None
      | Some e \<Rightarrow> \<exists>m. recurse env expr x (\<lambda>_. None) NoCreate [0] e = Inr m \<and> assign = Some (value_of m)"
      using s(1) by (cases "assignableAST body") (auto simp: e_bind_Inr)
    show "case getInputs (isStateless env) body of None \<Rightarrow> inputs = None
      | Some ws \<Rightarrow> \<exists>is. compile_inputs env expr x ws = Inr is \<and> inputs = Some is"
      using s(2) by (cases "getInputs (isStateless env) body") (auto simp: e_bind_Inr)
  qed (fact s)+
qed

text \<open>
  A property of compiled nodes that every kind of node hands on from its parts; \<open>ok\<close> says which
  trees are considered, with each tree its parts.
\<close>

locale code_property =
  fixes env :: "'n realm" and expr :: string and ok :: "ast \<Rightarrow> bool" and P :: "'n code \<Rightarrow> bool"
  assumes literal: "P (\<lambda>a. ret (plain (literal_value env lit)))"
    and unary: "P m \<Longrightarrow> P (unary_code env op m)"
    and binary: "P l \<Longrightarrow> P r \<Longrightarrow> P (binary_code env op l r)"
    and logical: "P l \<Longrightarrow> P r \<Longrightarrow> P (logical_code env op l r)"
    and ternary: "P t \<Longrightarrow> P l \<Longrightarrow> P r \<Longrightarrow> P (ternary_code env t l r)"
    and named_value: "ok (Identifier s) \<Longrightarrow> ensureSafeMemberName (key s) expr = Inr u \<Longrightarrow> P (interp_identifier env expr s x create)"
    and computed: "P l \<Longrightarrow> P r \<Longrightarrow> P (computedMember env expr l r create)"
    and named: "P l \<Longrightarrow> ensureSafeMemberName (key s) expr = Inr u \<Longrightarrow> P (nonComputedMember env expr l s x create)"
    and filtered: "list_all P cs \<Longrightarrow> P (filter_code env f cs)"
    and called: "ok (CallExpression e es False) \<Longrightarrow> P m \<Longrightarrow> list_all P cs \<Longrightarrow> P (call_code env expr m cs)"
    and assigned: "P l \<Longrightarrow> P r \<Longrightarrow> P (assign_code env expr l r)"
    and array: "list_all P cs \<Longrightarrow> P (array_code env cs)"
    and object: "list_all (\<lambda>kc. P (snd kc)) kcs \<Longrightarrow> P (object_code env kcs)"
    and this_value: "ok ThisExpression \<Longrightarrow> P (\<lambda>a. ret (plain (a_scope a)))"
    and parameter: "ok NGValueParameter \<Longrightarrow> P (\<lambda>a. ret (plain (a_assign a)))"
    and input: "P m \<Longrightarrow> P (input_code m n)"
    and parts: "ok (UnaryExpression op e1) \<Longrightarrow> ok e1"
      "ok (BinaryExpression op e1 e2) \<Longrightarrow> ok e1 \<and> ok e2"
      "ok (LogicalExpression op e1 e2) \<Longrightarrow> ok e1 \<and> ok e2"
      "ok (ConditionalExpression e1 e2 e3) \<Longrightarrow> ok e1 \<and> ok e2 \<and> ok e3"
      "ok (MemberExpression e1 e2 b) \<Longrightarrow> ok e1 \<and> (b \<longrightarrow> ok e2)"
      "ok (CallExpression e1 es b) \<Longrightarrow> (b \<or> ok e1) \<and> list_all ok es"
      "ok (AssignmentExpression e1 e2) \<Longrightarrow> ok e1 \<and> ok e2"
      "ok (ArrayExpression es) \<Longrightarrow> list_all ok es"
      "ok (ObjectExpression ps) \<Longrightarrow> list_all (\<lambda>kv. ok (snd kv)) ps"
begin

lemma replaced:
  assumes "\<forall>q i n. table q = Some (i, n) \<longrightarrow> P i" and "table q = Some it" and "recurse env expr x table create q e = Inr c"
  shows "P c"
  using assms by (cases it) (auto simp: recurse_input intro: input)

lemma compiled:
  assumes tab: "\<forall>q i n. table q = Some (i, n) \<longrightarrow> P i"
  shows "ok e \<Longrightarrow> recurse env expr x table create q e = Inr c \<Longrightarrow> P c"
proof (induction e arbitrary: create q c)
  case (UnaryExpression op e)
  show ?case
  proof (cases "table q")
    case None
    with UnaryExpression.prems UnaryExpression.IH show ?thesis by (auto simp: recurse_nodes dest!: parts intro!: unary)
  next
    case (Some it)
    then show ?thesis using replaced [OF tab] UnaryExpression.prems(2) by blast
  qed
next
  case (BinaryExpression op e f)
  show ?case
  proof (cases "table q")
    case None
    with BinaryExpression.prems BinaryExpression.IH show ?thesis by (auto simp: recurse_nodes dest!: parts intro!: binary)
  next
    case (Some it)
    then show ?thesis using replaced [OF tab] BinaryExpression.prems(2) by blast
  qed
next
  case (LogicalExpression op e f)
  show ?case
  proof (cases "table q")
    case None
    with LogicalExpression.prems LogicalExpression.IH show ?thesis by (auto simp: recurse_nodes dest!: parts intro!: logical)
  next
    case (Some it)
    then show ?thesis using replaced [OF tab] LogicalExpression.prems(2) by blast
  qed
next
  case (ConditionalExpression e f g)
  show ?case
  proof (cases "table q")
    case None
    with ConditionalExpression.prems(2) obtain t l r where c: "recurse env expr x table NoCreate (q @ [0]) e = Inr t"
        "recurse env expr x table NoCreate (q @ [1]) f = Inr l" "recurse env expr x table NoCreate (q @ [2]) g = Inr r"
        "c = ternary_code env t l r"
      by (auto simp: recurse_nodes)
    from parts(4) [OF ConditionalExpression.prems(1)] ConditionalExpression.IH c(1-3) have "P t" "P l" "P r" by blast+
    then show ?thesis unfolding c(4) by (rule ternary)
  next
    case (Some it)
    then show ?thesis using replaced [OF tab] ConditionalExpression.prems(2) by blast
  qed
next
  case (MemberExpression e f b)
  show ?case
  proof (cases "table q")
    case None
    with MemberExpression.prems(2) obtain l where l: "recurse env expr x table (create_up create) (q @ [0]) e = Inr l"
        "if b then \<exists>r. recurse env expr x table NoCreate (q @ [1]) f = Inr r \<and> c = computedMember env expr l r create
         else \<exists>u. ensureSafeMemberName (key (member_name f)) expr = Inr u \<and>
           c = nonComputedMember env expr l (member_name f) x create"
      by (auto simp: recurse_nodes)
    note ok = parts(5) [OF MemberExpression.prems(1)]
    from ok MemberExpression.IH(1) l(1) have "P l" by blast
    with l(2) ok MemberExpression.IH(2) show ?thesis by (cases b) (auto intro: computed named)
  next
    case (Some it)
    then show ?thesis using replaced [OF tab] MemberExpression.prems(2) by blast
  qed
next
  case (CallExpression e es b)
  show ?case
  proof (cases "table q")
    case None
    from CallExpression.prems(1) have ok: "\<And>e. e \<in> set es \<Longrightarrow> ok e" "b \<or> ok e" using parts(6) by (auto simp: list_all_iff)
    from CallExpression.prems(2) None obtain cs where cs: "recurse_list env expr x table q 1 es = Inr cs"
      by (auto simp: recurse_nodes)
    have all: "list_all P cs" using recurse_lists [OF _ cs, of P] CallExpression.IH(2) ok(1) by blast
    from CallExpression.prems None cs all ok(2) CallExpression.IH(1) show ?thesis
      by (cases b) (auto simp: recurse_nodes intro: filtered called)
  next
    case (Some it)
    then show ?thesis using replaced [OF tab] CallExpression.prems(2) by blast
  qed
next
  case (AssignmentExpression e f)
  show ?case
  proof (cases "table q")
    case None
    with AssignmentExpression.prems AssignmentExpression.IH show ?thesis by (auto simp: recurse_nodes dest!: parts intro!: assigned)
  next
    case (Some it)
    then show ?thesis using replaced [OF tab] AssignmentExpression.prems(2) by blast
  qed
next
  case (ArrayExpression es)
  show ?case
  proof (cases "table q")
    case None
    from ArrayExpression.prems(1) have ok: "\<And>e. e \<in> set es \<Longrightarrow> ok e" using parts(8) by (auto simp: list_all_iff)
    from ArrayExpression.prems(2) None obtain cs where cs: "recurse_list env expr x table q 0 es = Inr cs" "c = array_code env cs"
      by (auto simp: recurse_nodes)
    show ?thesis using recurse_lists [OF _ cs(1), of P] ArrayExpression.IH ok unfolding cs(2) by (intro array) blast
  next
    case (Some it)
    then show ?thesis using replaced [OF tab] ArrayExpression.prems(2) by blast
  qed
next
  case (ObjectExpression ps)
  show ?case
  proof (cases "table q")
    case None
    from ObjectExpression.prems(1) have ok: "\<And>kv. kv \<in> set ps \<Longrightarrow> ok (snd kv)" using parts(9) by (auto simp: list_all_iff)
    from ObjectExpression.prems(2) None obtain cs where cs: "recurse_props env expr x table q 0 ps = Inr cs" "c = object_code env cs"
      by (auto simp: recurse_nodes)
    show ?thesis using recurse_properties [OF _ cs(1), of P] ObjectExpression.IH ok snds.intros unfolding cs(2)
      by (intro object) blast
  next
    case (Some it)
    then show ?thesis using replaced [OF tab] ObjectExpression.prems(2) by blast
  qed
next
  case (Literal v)
  then show ?case using replaced [OF tab] by (cases "table q") (auto simp: recurse_nodes intro: literal)
next
  case (Identifier s)
  then show ?case using replaced [OF tab] by (cases "table q") (auto simp: recurse_nodes intro: named_value)
next
  case ThisExpression
  then show ?case using replaced [OF tab] by (cases "table q") (auto simp: recurse_nodes intro: this_value)
next
  case NGValueParameter
  then show ?case using replaced [OF tab] by (cases "table q") (auto simp: recurse_nodes intro: parameter)
qed

lemma compiled_list:
  assumes "\<forall>q i n. table q = Some (i, n) \<longrightarrow> P i" and "list_all ok es" and "recurse_list env expr x table q i es = Inr cs"
  shows "list_all P cs"
proof (rule recurse_lists [OF _ assms(3)])
  fix e j c
  assume "e \<in> set es" "recurse env expr x table NoCreate (q @ [j]) e = Inr c"
  then show "P c" using compiled [OF assms(1)] assms(2) by (auto simp: list_all_iff)
qed

lemma compiled_inputs:
  "list_all (\<lambda>w. ok (snd w)) ws \<Longrightarrow> compile_inputs env expr x ws = Inr cs \<Longrightarrow> list_all P cs"
proof (induction ws arbitrary: cs)
  case (Cons w ws)
  obtain q e where w: "w = (q, e)" by (cases w)
  from Cons.prems(2) w obtain c ds where c: "recurse env expr x (\<lambda>_. None) NoCreate q e = Inr c"
      "compile_inputs env expr x ws = Inr ds" "cs = c # ds" by (auto simp: e_bind_Inr)
  from compiled [OF _ _ c(1)] Cons.prems(1) w have "P c" by simp
  with Cons.IH [OF _ c(2)] Cons.prems(1) show ?case by (simp add: c(3))
qed simp

lemma table_entries: "list_all P cs \<Longrightarrow> \<forall>q i n. input_table ws cs q = Some (i, n) \<longrightarrow> P i"
proof (intro allI impI)
  fix q i n
  assume "list_all P cs" and "input_table ws cs q = Some (i, n)"
  moreover from this(2) have "(i, n) \<in> set (zip cs [0..<length cs])"
    unfolding input_table_def by (blast dest: map_of_SomeD set_zip_rightD)
  ultimately show "P i" by (auto simp: list_all_iff dest: set_zip_leftD)
qed

lemma program:
  assumes ok: "list_all ok body" "\<And>ws. getInputs (isStateless env) body = Some ws \<Longrightarrow> list_all (\<lambda>w. ok (snd w)) ws"
    and c: "compile_body env expr x body = Inr c"
  obtains cs where "list_all P cs" "fn_code c = run_body cs VUndefined"
  using c
proof (cases rule: compile_bodyE)
  case (split assign inputs cs)
  have "\<forall>q i n. table_of (getInputs (isStateless env) body) inputs q = Some (i, n) \<longrightarrow> P i"
  proof (cases "getInputs (isStateless env) body")
    case None
    then show ?thesis by (simp add: table_of_def)
  next
    case (Some ws)
    with split(2) obtain ds where "compile_inputs env expr x ws = Inr ds" "inputs = Some ds" by auto
    with table_entries [OF compiled_inputs [OF ok(2) [OF Some]]] show ?thesis by (simp add: table_of_def Some)
  qed
  from compiled_list [OF this ok(1) split(3)] that split(4) show thesis by simp
qed

lemma assigning:
  assumes ok: "\<And>e. assignableAST body = Some e \<Longrightarrow> ok e"
    and c: "compile_body env expr x body = Inr c" and f: "fn_assign c = Some f"
  obtains m where "P m" "f = value_of m"
  using c
proof (cases rule: compile_bodyE)
  case (split assign inputs cs)
  with split f obtain e m where e: "assignableAST body = Some e" "recurse env expr x (\<lambda>_. None) NoCreate [0] e = Inr m" "f = value_of m"
    by (auto split: option.splits)
  from compiled [OF _ ok [OF e(1)] e(2)] e(3) that show thesis by simp
qed

end

section \<open>Constants\<close>

text \<open>The flag \<open>constant\<close> of a node, without the walk that collects the watches.\<close>

fun constant_ast :: "(string \<Rightarrow> bool) \<Rightarrow> ast \<Rightarrow> bool" where
  "constant_ast st (Literal l) = True"
| "constant_ast st (UnaryExpression op a) = constant_ast st a"
| "constant_ast st (BinaryExpression op a b) = (constant_ast st a \<and> constant_ast st b)"
| "constant_ast st (LogicalExpression op a b) = (constant_ast st a \<and> constant_ast st b)"
| "constant_ast st (ConditionalExpression t a b) = (constant_ast st t \<and> constant_ast st a \<and> constant_ast st b)"
| "constant_ast st (MemberExpression a b computed) = (constant_ast st a \<and> (computed \<longrightarrow> constant_ast st b))"
| "constant_ast st (CallExpression callee args filtered) =
    (filtered \<and> (case callee of Identifier f \<Rightarrow> st f | _ \<Rightarrow> False) \<and> list_all (constant_ast st) args)"
| "constant_ast st (AssignmentExpression a b) = (constant_ast st a \<and> constant_ast st b)"
| "constant_ast st (ArrayExpression es) = list_all (constant_ast st) es"
| "constant_ast st (ObjectExpression ps) = list_all (\<lambda>kv. constant_ast st (snd kv)) ps"
| "constant_ast st _ = False"

lemma constant_lists:
  "(\<And>e q. e \<in> set es \<Longrightarrow> fst (analyse st q e) = constant_ast st e) \<Longrightarrow>
    fst (analyse_list st q i es) = list_all (constant_ast st) es"
  by (induction es arbitrary: i) (simp_all add: case_prod_beta)

lemma constant_props:
  "(\<And>kv q. kv \<in> set ps \<Longrightarrow> fst (analyse st q (snd kv)) = constant_ast st (snd kv)) \<Longrightarrow>
    fst (analyse_props st q i ps) = list_all (\<lambda>kv. constant_ast st (snd kv)) ps"
proof (induction ps arbitrary: i)
  case (Cons kv ps)
  from Cons.IH [of "Suc i"] Cons.prems have "fst (analyse_props st q (Suc i) ps) = list_all (\<lambda>kv. constant_ast st (snd kv)) ps" by auto
  with Cons.prems [of kv "q @ [i]"] show ?case by (cases kv) (simp add: case_prod_beta)
qed simp

lemma constant_path: "fst (analyse st q e) = constant_ast st e"
proof (induction e arbitrary: q)
  case (ObjectExpression ps)
  have "fst (analyse_props st q 0 ps) = list_all (\<lambda>kv. constant_ast st (snd kv)) ps"
    using ObjectExpression.IH snds.intros by (intro constant_props) blast
  then show ?case by simp
qed (simp_all add: Let_def case_prod_beta constant_lists)

text \<open>The nodes a constant expression watches are constant.\<close>

lemma analyse_lists_watch:
  "(\<And>e p. e \<in> set es \<Longrightarrow> constant_ast st e \<Longrightarrow> list_all (\<lambda>w. constant_ast st (snd w)) (snd (analyse st p e))) \<Longrightarrow>
    list_all (constant_ast st) es \<Longrightarrow> list_all (\<lambda>w. constant_ast st (snd w)) (snd (analyse_list st q i es))"
  by (induction es arbitrary: i) (simp_all add: case_prod_beta constant_path)

lemma analyse_props_watch:
  "list_all (\<lambda>kv. constant_ast st (snd kv)) ps \<Longrightarrow> list_all (\<lambda>w. constant_ast st (snd w)) (snd (analyse_props st q i ps))"
proof (induction ps arbitrary: i)
  case (Cons kv ps)
  then show ?case by (cases kv) (simp add: case_prod_beta constant_path)
qed simp

lemma constant_watches: "constant_ast st e \<Longrightarrow> list_all (\<lambda>w. constant_ast st (snd w)) (snd (analyse st q e))"
proof (induction e arbitrary: q)
  case (CallExpression callee args filtered)
  from CallExpression.prems have c: "filtered" "list_all (constant_ast st) args" by simp_all
  have "list_all (\<lambda>w. constant_ast st (snd w)) (snd (analyse_list st q 1 args))"
    using CallExpression.IH(2) c(2) by (intro analyse_lists_watch) blast+
  with CallExpression.prems show ?case by (simp add: Let_def case_prod_beta)
next
  case (ArrayExpression es)
  then show ?case by (simp add: analyse_lists_watch)
next
  case (ObjectExpression ps)
  then show ?case by (simp add: analyse_props_watch)
qed (simp_all add: case_prod_beta Let_def constant_path)

section \<open>Constant expressions\<close>

text \<open>A compiled node that reads neither the scope nor the locals nor the assigned value.\<close>

definition scope_free :: "'n code \<Rightarrow> bool" where
  "scope_free c \<longleftrightarrow> (\<forall>a b. a_inputs a = a_inputs b \<longrightarrow> c a = c b)"

lemma scope_freeI: "(\<And>a b. a_inputs a = a_inputs b \<Longrightarrow> c a = c b) \<Longrightarrow> scope_free c"
  unfolding scope_free_def by blast

lemma scope_freeD: "scope_free c \<Longrightarrow> a_inputs a = a_inputs b \<Longrightarrow> c a = c b"
  unfolding scope_free_def by blast

text \<open>Nodes that agree at two arguments make nodes that agree there.\<close>

lemma value_cong: "c a = c b \<Longrightarrow> value_of c a = value_of c b"
  by (rule ext) (simp only: value_of_def)

lemma with_value_cong: "m a = m b \<Longrightarrow> with_value m a = with_value m b"
  by (rule ext) (simp only: with_value_def)

lemma args_cong: "list_all (\<lambda>c. c a = c b) cs \<Longrightarrow> eval_args cs a = eval_args cs b"
proof (induction cs)
  case (Cons c cs)
  then have "value_of c a = value_of c b" "eval_args cs a = eval_args cs b" using value_cong [of c a b] by auto
  then show ?case by (simp only: eval_args.simps)
qed simp

lemma push_cong: "list_all (\<lambda>c. c a = c b) cs \<Longrightarrow> push_all env arr cs a = push_all env arr cs b"
proof (induction cs)
  case (Cons c cs)
  then have "value_of c a = value_of c b" "push_all env arr cs a = push_all env arr cs b" using value_cong [of c a b] by auto
  then show ?case by (simp only: push_all.simps)
qed simp

lemma set_cong: "list_all (\<lambda>kc. snd kc a = snd kc b) cs \<Longrightarrow> set_all env ob cs a = set_all env ob cs b"
proof (induction cs)
  case (Cons kc cs)
  obtain k c where kc: "kc = (k, c)" by (cases kc)
  with Cons have "value_of c a = value_of c b" "set_all env ob cs a = set_all env ob cs b" using value_cong [of c a b] by auto
  then show ?case by (simp only: kc set_all.simps)
qed simp

lemma body_cong: "list_all (\<lambda>c. c a = c b) cs \<Longrightarrow> run_body cs v a = run_body cs v b"
proof (induction cs arbitrary: v)
  case (Cons c cs)
  then have "value_of c a = value_of c b" "\<And>w. run_body cs w a = run_body cs w b" using value_cong [of c a b] by auto
  then show ?case by (simp only: run_body.simps)
qed simp

lemma node_congs:
  "m a = m b \<Longrightarrow> unary_code env op m a = unary_code env op m b"
  "l a = l b \<Longrightarrow> r a = r b \<Longrightarrow> binary_code env op l r a = binary_code env op l r b"
  "l a = l b \<Longrightarrow> r a = r b \<Longrightarrow> logical_code env op l r a = logical_code env op l r b"
  "t a = t b \<Longrightarrow> l a = l b \<Longrightarrow> r a = r b \<Longrightarrow> ternary_code env t l r a = ternary_code env t l r b"
  "l a = l b \<Longrightarrow> r a = r b \<Longrightarrow> computedMember env expr l r create a = computedMember env expr l r create b"
  "l a = l b \<Longrightarrow> nonComputedMember env expr l name expensive create a = nonComputedMember env expr l name expensive create b"
  "l a = l b \<Longrightarrow> r a = r b \<Longrightarrow> assign_code env expr l r a = assign_code env expr l r b"
  "list_all (\<lambda>c. c a = c b) cs \<Longrightarrow> filter_code env f cs a = filter_code env f cs b"
  "list_all (\<lambda>c. c a = c b) cs \<Longrightarrow> array_code env cs a = array_code env cs b"
  "list_all (\<lambda>kc. snd kc a = snd kc b) ps \<Longrightarrow> object_code env ps a = object_code env ps b"
  subgoal premises p unfolding unary_code_def by (rule with_value_cong) (simp only: value_cong [of m a b] p)
  subgoal premises p unfolding binary_code_def by (rule with_value_cong) (simp only: value_cong [of l a b] value_cong [of r a b] p)
  subgoal premises p unfolding logical_code_def by (rule with_value_cong) (simp only: value_cong [of l a b] value_cong [of r a b] p)
  subgoal premises p unfolding ternary_code_def
    by (rule with_value_cong) (simp only: value_cong [of t a b] value_cong [of l a b] value_cong [of r a b] p)
  subgoal premises p by (rule ext) (simp only: computedMember_def value_cong [of l a b] value_cong [of r a b] p)
  subgoal premises p by (rule ext) (simp only: nonComputedMember_def value_cong [of l a b] p)
  subgoal premises p unfolding assign_code_def by (rule with_value_cong) (simp only: value_cong [of r a b] p)
  subgoal premises p unfolding filter_code_def by (rule with_value_cong) (simp only: args_cong [OF p])
  subgoal premises p unfolding array_code_def by (rule with_value_cong) (simp only: push_cong [OF p])
  subgoal premises p unfolding object_code_def by (rule with_value_cong) (simp only: set_cong [OF p])
  done

lemma scope_free_all: "list_all scope_free cs \<Longrightarrow> a_inputs a = a_inputs b \<Longrightarrow> list_all (\<lambda>c. c a = c b) cs"
  unfolding list_all_iff scope_free_def by blast

lemma scope_free_props:
  "list_all (\<lambda>kc. scope_free (snd kc)) cs \<Longrightarrow> a_inputs a = a_inputs b \<Longrightarrow> list_all (\<lambda>kc. snd kc a = snd kc b) cs"
  unfolding list_all_iff scope_free_def by blast

lemma scope_free_input: "scope_free (m :: 'n code) \<Longrightarrow> scope_free (input_code m n)"
proof (rule scope_freeI)
  fix a b :: "'n args"
  assume m: "scope_free m" and i: "a_inputs a = a_inputs b"
  from scope_freeD [OF m i] show "input_code m n a = input_code m n b"
    by (intro ext) (simp only: input_code_def i)
qed

lemma scope_free_nodes:
  "scope_free (\<lambda>a. ret (plain (literal_value env v)))"
  "scope_free m \<Longrightarrow> scope_free (unary_code env op m)"
  "scope_free l \<Longrightarrow> scope_free r \<Longrightarrow> scope_free (binary_code env op l r)"
  "scope_free l \<Longrightarrow> scope_free r \<Longrightarrow> scope_free (logical_code env op l r)"
  "scope_free t \<Longrightarrow> scope_free l \<Longrightarrow> scope_free r \<Longrightarrow> scope_free (ternary_code env t l r)"
  "scope_free l \<Longrightarrow> scope_free r \<Longrightarrow> scope_free (computedMember env expr l r create)"
  "scope_free l \<Longrightarrow> scope_free (nonComputedMember env expr l s x create)"
  "list_all scope_free cs \<Longrightarrow> scope_free (filter_code env f cs)"
  "scope_free l \<Longrightarrow> scope_free r \<Longrightarrow> scope_free (assign_code env expr l r)"
  "list_all scope_free cs \<Longrightarrow> scope_free (array_code env cs)"
  "list_all (\<lambda>kc. scope_free (snd kc)) ps \<Longrightarrow> scope_free (object_code env ps)"
  by (rule scope_freeI; (rule node_congs)?; (rule scope_free_all scope_free_props scope_freeD refl; assumption)?)+

text \<open>Constant trees compile to nodes that read no scope.\<close>

interpretation constants: code_property env expr "constant_ast st" scope_free for env :: "'n realm" and expr st
  by unfold_locales (auto intro: scope_free_nodes scope_free_input)

lemma constant_inputs:
  assumes "list_all (constant_ast st) body" and "getInputs st body = Some ws"
  shows "list_all (\<lambda>w. constant_ast st (snd w)) ws"
  using assms constant_watches [of st]
  by (auto simp: getInputs_def Let_def split: list.splits if_splits)

text \<open>
  C35. A constant expression computes the same whatever the scope, the locals and the assigned
  value are: its result and its effect on the heap depend on the heap only.
\<close>

theorem constant_needs_no_scope:
  assumes "parse_expression env expr x = Some (Inr c)" and "fn_constant c" and "a_inputs a = a_inputs b"
  shows "fn_code c a = fn_code c b"
proof -
  from assms(1) obtain body where body: "compile_body env expr x body = Inr c"
    by (auto simp: parse_expression_def split: option.splits sum.splits)
  then have "isConstant (isStateless env) body" using assms(2) by (cases rule: compile_bodyE) simp
  then have ok: "list_all (constant_ast (isStateless env)) body" by (simp add: isConstant_def constant_path)
  from constants.program [OF ok constant_inputs [OF ok] body]
  obtain cs where cs: "list_all scope_free cs" "fn_code c = run_body cs VUndefined" .
  from body_cong [OF scope_free_all [OF cs(1) assms(3)]] show ?thesis unfolding cs(2) .
qed

text \<open>A realm with whole numbers and functions that answer undefined, to evaluate examples in.\<close>

definition whole_numbers :: "int numbers" where
  "whole_numbers = \<lparr>n_add = (+), n_sub = (-), n_mul = (*), n_div = (div), n_mod = (mod), n_neg = uminus,
     n_less = (<), n_eq = (=), n_truthy = (\<lambda>n. n \<noteq> 0), n_of_int = id, n_nan = 0,
     n_parse = (\<lambda>s. foldl (\<lambda>n u. 10 * n + (int u - 48)) 0 s), n_str = (\<lambda>n. key (nat_str (nat n))),
     n_index = (\<lambda>n. if 0 \<le> n then Some (nat n) else None)\<rparr>"

definition small_realm :: "int realm" where
  "small_realm = \<lparr>nums = whole_numbers, apply_fn = (\<lambda>f this vs. ret VUndefined), to_prim = (\<lambda>hint r. ret (VStr (key ''object''))),
     callable = (\<lambda>r. False), prim_proto = (\<lambda>v. None), object_proto = 0, array_proto = 1, object_ctor = 2,
     unsafe_fns = [], ctors = [], filter_of = (\<lambda>f. Inl (ErrorMsg f))\<rparr>"

theorem constant_needs_no_scope_witness:
  "\<exists>c. parse_expression small_realm ''1+2'' False = Some (Inr c) \<and> fn_constant c \<and>
    fn_code c \<lparr>a_scope = VRef 0, a_locals = VUndefined, a_assign = VUndefined, a_inputs = None\<rparr> =
    fn_code c \<lparr>a_scope = VNull, a_locals = VRef 7, a_assign = VBool True, a_inputs = None\<rparr> \<and>
    fst (fn_code c \<lparr>a_scope = VNull, a_locals = VNull, a_assign = VNull, a_inputs = None\<rparr> []) = Inr (VNum 3)"
proof -
  let ?plus = "BinaryExpression ''+'' (Literal (ConstantLit (NumberOf ''1''))) (Literal (ConstantLit (NumberOf ''2'')))"
  have tree: "ast_of ''1+2'' = Some (Inr [?plus])" by code_simp
  obtain c where c: "parse_expression small_realm ''1+2'' False = Some (Inr c)" "fn_constant c"
      "fst (fn_code c \<lparr>a_scope = VNull, a_locals = VNull, a_assign = VNull, a_inputs = None\<rparr> []) = Inr (VNum 3)"
    unfolding parse_expression_def tree by (simp add: compile_body_def getInputs_def assignableAST_def isAssignable_def
      input_table_def e_bind_def recurse.simps isConstant_def binary_code_def with_value_def value_of_def bindM_def ret_def
      plain_def literal_value_def binary_op_def plusFn_def js_plus_def prim_of_def is_str_def small_realm_def whole_numbers_def units_def)
  from constant_needs_no_scope [OF c(1,2)] c show ?thesis by fastforce
qed

end
