(* ===== verification/NgSandbox.thy ===== *)
theory NgSandbox
  imports NgInterpProps
begin

text \<open>
  The sandbox of expressions: evaluation never changes the prototype of an object that existed
  before, nor a property of it with a disallowed name (\<open>ensureSafeMemberName\<close>), as long as the
  functions of the application that it calls do not.
\<close>

section \<open>Heaps that keep what is protected\<close>

definition disallowed :: "js_string set" where
  "disallowed = key ` set disallowed_names"

text \<open>The objects below \<open>n\<close> keep their prototype and their properties with a disallowed name.\<close>

definition keeps :: "nat \<Rightarrow> 'n heap \<Rightarrow> 'n heap \<Rightarrow> bool" where
  "keeps n h h' \<longleftrightarrow> length h \<le> length h' \<and>
    (\<forall>r < n. o_proto (h' ! r) = o_proto (h ! r) \<and>
      (\<forall>k \<in> disallowed. map_of (o_props (h' ! r)) k = map_of (o_props (h ! r)) k))"

lemma keeps_refl [simp]: "keeps n h h"
  by (simp add: keeps_def)

lemma keeps_trans: "keeps n h h' \<Longrightarrow> keeps n h' h'' \<Longrightarrow> keeps n h h''"
  by (simp add: keeps_def)

lemma keeps_append: "n \<le> length h \<Longrightarrow> keeps n h (h @ obs)"
  by (simp add: keeps_def nth_append)

lemma keeps_update:
  assumes "r < n \<Longrightarrow> o_proto ob = o_proto (h ! r) \<and> (\<forall>k \<in> disallowed. map_of (o_props ob) k = map_of (o_props (h ! r)) k)"
  shows "keeps n h (h[r := ob])"
  using assms by (cases "r < length h") (auto simp: keeps_def nth_list_update list_update_beyond)

definition calm :: "nat \<Rightarrow> ('n, 'a) eval \<Rightarrow> bool" where
  "calm n m \<longleftrightarrow> (\<forall>h. n \<le> length h \<longrightarrow> keeps n h (snd (m h)))"

named_theorems calms

lemma calm_bind [calms]: "calm n m \<Longrightarrow> (\<And>x. calm n (f x)) \<Longrightarrow> calm n (bindM (m :: ('n, 'a) eval) f)"
  unfolding calm_def
proof (intro allI impI)
  fix h :: "'n heap"
  assume m: "\<forall>h. n \<le> length h \<longrightarrow> keeps n h (snd (m h))" and f: "\<And>x. \<forall>h. n \<le> length h \<longrightarrow> keeps n h (snd (f x h))"
    and n: "n \<le> length h"
  obtain r h' where h': "m h = (r, h')" by (cases "m h")
  with m n have k: "keeps n h h'" by fastforce
  then have "n \<le> length h'" using n by (simp add: keeps_def)
  with f k show "keeps n h (snd (bindM m f h))" using h' by (cases r) (auto simp: bindM_def intro: keeps_trans)
qed

text \<open>A computation that leaves the heap alone.\<close>

lemma calm_same: "(\<And>h. snd (m h) = h) \<Longrightarrow> calm n m"
  by (simp add: calm_def)

lemma calm_pure [calms]:
  "calm n (ret x)" "calm n (throw e)" "calm n (liftE r)" "calm n (read_prop env v k)" "calm n (base_of env k a)"
  "calm n (ensureSafeObject env v expr)" "calm n (ensureSafeFunction env v expr)" "calm n (ensureSafeAssignContext env v)"
  by (rule calm_same, simp add: ret_def throw_def liftE_def read_prop_def base_of_def ensureSafeObject_def
      ensureSafeFunction_def ensureSafeAssignContext_def split: sum.split)+

lemma calm_if [calms]: "calm n m \<Longrightarrow> calm n m' \<Longrightarrow> calm n (if b then m else m')"
  by simp

lemma calm_let [calms]: "(\<And>x. calm n (m x)) \<Longrightarrow> calm n (let x = v in m x)"
  by simp

lemma calm_val [calms]:
  "calm n u \<Longrightarrow> calm n l \<Longrightarrow> (\<And>b. calm n (f b)) \<Longrightarrow> (\<And>b. calm n (g b)) \<Longrightarrow> (\<And>b. calm n (i b)) \<Longrightarrow> (\<And>b. calm n (j b)) \<Longrightarrow>
    calm n (case v of VUndefined \<Rightarrow> u | VNull \<Rightarrow> l | VBool b \<Rightarrow> f b | VNum b \<Rightarrow> g b | VStr b \<Rightarrow> i b | VRef b \<Rightarrow> j b)"
  by (cases v) simp_all

section \<open>Objects\<close>

lemma index_not_disallowed: "k \<in> disallowed \<Longrightarrow> index_of_key k = None"
  unfolding disallowed_def disallowed_names_def by (auto simp: index_of_key_def key_def units_def)

lemma map_of_filter_keys: "(\<And>v. P (k, v)) \<Longrightarrow> map_of (filter P xs) k = map_of xs k"
  by (induction xs) auto

lemma array_set_keeps:
  assumes "array_set env ob l k x = Inr ob'" and "k \<notin> disallowed"
  shows "o_proto ob' = o_proto ob" "q \<in> disallowed \<Longrightarrow> map_of (o_props ob') q = map_of (o_props ob) q"
  using assms index_not_disallowed [of q]
  by (auto simp: array_set_def map_of_filter_keys split: if_splits val.splits option.splits)

lemma new_object_calm [calms]: "calm n (new_object env)"
  by (simp add: calm_def new_object_def keeps_append)

lemma new_array_calm [calms]: "calm n (new_array env)"
  by (simp add: calm_def new_array_def keeps_append)

text \<open>Assigning an allowed name, or any name of an object created later.\<close>

lemma set_prop_calm:
  assumes "k \<notin> disallowed \<or> v = VRef r \<and> n \<le> r"
  shows "calm n (set_prop (env :: 'n realm) v k x)"
  unfolding calm_def
proof (intro allI impI)
  fix h :: "'n heap"
  assume n: "n \<le> length h"
  have name: "key ''__proto__'' \<in> disallowed" by (simp add: disallowed_def disallowed_names_def)
  show "keeps n h (snd (set_prop env v k x h))"
  proof (cases v)
    case (VRef q)
    show ?thesis
    proof (cases "q < n")
      case True
      with assms VRef have k: "k \<notin> disallowed" by auto
      with name have "k \<noteq> key ''__proto__''" by blast
      then have "snd (set_prop env v k x h) = h \<or> snd (set_prop env v k x h) = h[q := (h ! q)\<lparr>o_props := aput k x (o_props (h ! q))\<rparr>] \<or>
          (\<exists>l ob. array_set env (h ! q) l k x = Inr ob \<and> snd (set_prop env v k x h) = h[q := ob])"
        unfolding set_prop_def VRef by (simp split: option.split sum.split) blast
      then show ?thesis
      proof (elim disjE exE conjE)
        assume e: "snd (set_prop env v k x h) = h[q := (h ! q)\<lparr>o_props := aput k x (o_props (h ! q))\<rparr>]"
        show ?thesis unfolding e using k by (intro keeps_update) auto
      next
        fix l ob
        assume a: "array_set env (h ! q) l k x = Inr ob" and e: "snd (set_prop env v k x h) = h[q := ob]"
        show ?thesis unfolding e using array_set_keeps [OF a k] by (intro keeps_update) blast
      qed simp
    next
      case False
      have "snd (set_prop env v k x h) = h \<or> (\<exists>ob. snd (set_prop env v k x h) = h[q := ob])"
        unfolding set_prop_def VRef by (simp split: val.split option.split sum.split) blast
      with False show ?thesis by (auto intro: keeps_update)
    qed
  qed (simp_all add: set_prop_def)
qed

text \<open>Creating a missing object under an allowed name.\<close>

lemma create_missing_calm: "k \<notin> disallowed \<Longrightarrow> calm n (create_missing env create v k)"
  unfolding create_missing_def by (intro calms set_prop_calm) simp_all

section \<open>Conversions and calls\<close>

text \<open>What the functions of the application may do.\<close>

definition tame :: "'n realm \<Rightarrow> bool" where
  "tame env \<longleftrightarrow> (\<forall>n f this vs. calm n (apply_fn env f this vs)) \<and> (\<forall>n hint r. calm n (to_prim env hint r))"

lemma tame_calm:
  assumes "tame env"
  shows "calm n (apply_fn env f this vs)" "calm n (prim_of env hint v)" "calm n (to_num env v)" "calm n (js_plus env v w)"
    "calm n (js_arith env g v w)" "calm n (js_compare env b c v w)" "calm n (js_loose_eq env v w)" "calm n (getStringValue env v)"
    "calm n (call_value env v w vs)" "calm n (unary_op env op v)" "calm n (binary_op env op v w)"
proof -
  from assms have f: "calm n (apply_fn env f this vs)" and p: "calm n (to_prim env hint r)" for n f this vs hint r
    by (simp_all add: tame_def)
  show called: "calm n (apply_fn env f this vs)" for f this vs by (rule f)
  show prim: "calm n (prim_of env hint v)" for hint v unfolding prim_of_def by (intro calms p)
  show num: "calm n (to_num env v)" for v unfolding to_num_def by (intro calms prim)
  show plus: "calm n (js_plus env v w)" for v w unfolding js_plus_def by (intro calms prim)
  show arith: "calm n (js_arith env g v w)" for g v w unfolding js_arith_def by (intro calms num)
  show cmp: "calm n (js_compare env b c v w)" for b c v w unfolding js_compare_def Let_def by (intro calms prim)
  show eq: "calm n (js_loose_eq env v w)" for v w unfolding js_loose_eq_def by (intro calms prim)
  show "calm n (getStringValue env v)" unfolding getStringValue_def by (intro calms plus)
  show "calm n (call_value env v w vs)" unfolding call_value_def by (intro calms f)
  show "calm n (unary_op env op v)" unfolding unary_op_def by (intro calms num)
  show "calm n (binary_op env op v w)" unfolding binary_op_def plusFn_def Let_def by (intro calms arith plus cmp eq)
qed

section \<open>Compiled nodes\<close>

text \<open>
  A guarded node changes no protected part of the objects before it, and the name its result
  carries, which an assignment writes to, is an allowed one.
\<close>

definition guarded :: "'n code \<Rightarrow> bool" where
  "guarded c \<longleftrightarrow> (\<forall>a n. calm n (c a)) \<and> (\<forall>a h r. fst (c a h) = Inr r \<longrightarrow> r_name r \<notin> disallowed)"

lemma undefined_allowed [simp]: "key ''undefined'' \<notin> disallowed"
  unfolding disallowed_def disallowed_names_def key_def by (simp add: units_def)

lemma bindM_result: "fst (bindM m f h) = Inr x \<longleftrightarrow> (\<exists>y. fst (m h) = Inr y \<and> fst (f y (snd (m h))) = Inr x)"
  by (cases "m h"; cases "fst (m h)") (auto simp: bindM_def)

lemma ret_result: "fst (ret x h) = Inr y \<longleftrightarrow> y = x"
  by (auto simp: ret_def)

lemma value_calm: "guarded c \<Longrightarrow> calm n (value_of c a)"
  unfolding value_of_def guarded_def by (intro calms) blast

lemma with_value_guarded: "(\<And>a n. calm n (m a)) \<Longrightarrow> guarded (with_value m)"
  unfolding guarded_def with_value_def by (auto simp: bindM_result ret_result plain_def intro: calms)

lemma plain_guarded: "guarded (\<lambda>a. ret (plain (v a)))"
  unfolding guarded_def by (auto simp: ret_result plain_def intro: calms)

lemma args_calm: "list_all guarded cs \<Longrightarrow> calm n (eval_args cs a)"
  by (induction cs) (auto intro!: calms value_calm)

lemma push_calm: "list_all guarded cs \<Longrightarrow> n \<le> r \<Longrightarrow> calm n (push_all env (VRef r) cs a)"
proof (induction cs)
  case (Cons c cs)
  have "calm n (array_push env (VRef r) v)" for v
    unfolding calm_def array_push_def val.case using set_prop_calm [of _ "VRef r" r n env v] Cons.prems(2)
    by (simp only: calm_def) blast
  with Cons show ?case by (auto intro!: calms value_calm)
qed (simp add: calms)

lemma set_all_calm: "list_all (\<lambda>kc. guarded (snd kc)) cs \<Longrightarrow> n \<le> r \<Longrightarrow> calm n (set_all env (VRef r) cs a)"
proof (induction cs)
  case (Cons kc cs)
  obtain k c where kc: "kc = (k, c)" by (cases kc)
  have "calm n (set_prop env (VRef r) k v)" for v using Cons.prems(2) by (intro set_prop_calm [where r = r]) simp
  with Cons kc show ?case by (auto intro!: calms value_calm)
qed (simp add: calms)

text \<open>A new object is filled: it is not among the objects that were there before.\<close>

lemma fresh_calm:
  fixes m :: "('n, 'n val) eval"
  assumes new: "\<And>h. fst (m h) = Inr (VRef (length h))" "calm n m" and f: "\<And>r. n \<le> r \<Longrightarrow> calm n (f (VRef r))"
  shows "calm n (bindM m f)"
  unfolding calm_def
proof (intro allI impI)
  fix h :: "'n heap"
  assume n: "n \<le> length h"
  obtain h' where h': "m h = (Inr (VRef (length h)), h')" using new(1) [of h] by (metis prod.collapse)
  with new(2) n have k: "keeps n h h'" by (metis calm_def snd_conv)
  then have "n \<le> length h'" using n by (simp add: keeps_def)
  with f [OF n] have "keeps n h' (snd (f (VRef (length h)) h'))" by (simp add: calm_def)
  with k h' show "keeps n h (snd (bindM m f h))" by (auto intro: keeps_trans)
qed

lemma allowed_name: "ensureSafeMemberName k expr = Inr u \<Longrightarrow> k \<notin> disallowed"
  by (auto simp: ensureSafeMemberName_def disallowed_def split: if_splits)

lemma check_calm [calms]: "calm n (check_if env b v expr)"
  unfolding check_if_def by (intro calms)

lemma safe_all: "list_all guarded cs \<Longrightarrow> list_all guarded (map (safe_code env expr) cs)"
  by (auto simp: list_all_iff safe_code_def intro!: with_value_guarded calms value_calm)

lemma interp_identifier_guarded:
  assumes "key s \<notin> disallowed"
  shows "guarded (interp_identifier env expr s b create)"
  unfolding guarded_def interp_identifier_def using assms
  by (auto simp: bindM_result ret_result intro!: calms create_missing_calm)

lemma nonComputedMember_guarded:
  assumes "guarded l" and "key s \<notin> disallowed"
  shows "guarded (nonComputedMember env expr l s b create)"
  unfolding guarded_def nonComputedMember_def using assms
  by (auto simp: bindM_result ret_result intro!: calms create_missing_calm value_calm)

text \<open>Computed names are checked when they are known.\<close>

lemma checked_calm:
  assumes "k \<notin> disallowed \<Longrightarrow> calm n m"
  shows "calm n (bindM (liftE (ensureSafeMemberName k expr)) (\<lambda>_. m))"
proof (cases "ensureSafeMemberName k expr")
  case (Inl e)
  then show ?thesis by (simp add: calm_def bindM_def liftE_def)
next
  case (Inr u)
  from assms [OF allowed_name [OF Inr]] Inr show ?thesis by (simp add: calm_def bindM_def liftE_def)
qed

lemma computedMember_guarded:
  assumes "tame env" and "guarded l" and "guarded r"
  shows "guarded (computedMember env expr l r create)"
proof -
  have "calm n (computedMember env expr l r create a)" for n a
    unfolding computedMember_def
    by (intro calms checked_calm create_missing_calm value_calm tame_calm assms)
  moreover have "r_name v \<notin> disallowed" if "fst (computedMember env expr l r create a h) = Inr v" for a h v
    using that unfolding computedMember_def
    by (auto simp: bindM_result ret_result liftE_def allowed_name split: if_splits)
  ultimately show ?thesis by (simp add: guarded_def)
qed

text \<open>An assignment writes to the name that its left side checked.\<close>

lemma calm_bind_result:
  assumes "calm n m" and "\<And>h x. fst (m h) = Inr x \<Longrightarrow> calm n (f x)"
  shows "calm n (bindM m f)"
proof -
  define g where "g x = (if \<exists>h. fst (m h) = Inr x then f x else throw (ErrorMsg []))" for x
  have "bindM m f = bindM m g"
  proof (rule ext)
    fix h
    show "bindM m f h = bindM m g h" by (cases "m h"; cases "fst (m h)") (auto simp: bindM_def g_def, metis fst_conv)
  qed
  moreover have "calm n (bindM m g)" using assms by (intro calms) (auto simp: g_def intro: calms)
  ultimately show ?thesis by simp
qed

lemma assign_guarded:
  assumes "guarded l" and "guarded r"
  shows "guarded (assign_code env expr l r)"
  unfolding assign_code_def
proof (intro with_value_guarded calm_bind_result)
  fix a n h lhs
  assume "fst (l a h) = Inr lhs"
  with assms(1) have "r_name lhs \<notin> disallowed" by (auto simp: guarded_def)
  then show "calm n (set_prop env (r_context lhs) (r_name lhs) v)" for v by (intro set_prop_calm) simp
qed (use assms in \<open>auto simp: guarded_def intro!: calms value_calm\<close>)

lemma array_guarded: "list_all guarded cs \<Longrightarrow> guarded (array_code env cs)"
  unfolding array_code_def
  by (intro with_value_guarded fresh_calm) (auto simp: new_array_def intro!: calms push_calm)

lemma object_guarded: "list_all (\<lambda>kc. guarded (snd kc)) cs \<Longrightarrow> guarded (object_code env cs)"
  unfolding object_code_def
  by (intro with_value_guarded fresh_calm) (auto simp: new_object_def intro!: calms set_all_calm)

lemma call_guarded:
  assumes "tame env" and "guarded m" and "list_all guarded cs"
  shows "guarded (call_code env expr m cs)"
  unfolding call_code_def
  by (intro with_value_guarded calms args_calm safe_all tame_calm assms) (use assms(2) in \<open>simp add: guarded_def\<close>)

lemma input_guarded: "guarded (m :: 'n code) \<Longrightarrow> guarded (input_code m i)"
  unfolding guarded_def input_code_def by (auto simp: ret_result plain_def intro: calms split: option.splits)

lemma operators_guarded:
  assumes "tame env" and "guarded t" and "guarded l" and "guarded r"
  shows "guarded (unary_code env op l)" "guarded (binary_code env op l r)" "guarded (logical_code env op l r)"
    "guarded (ternary_code env t l r)"
  unfolding unary_code_def binary_code_def logical_code_def ternary_code_def
  by (intro with_value_guarded calms value_calm tame_calm assms)+

lemma filter_guarded: "tame env \<Longrightarrow> list_all guarded cs \<Longrightarrow> guarded (filter_code env f cs)"
  unfolding filter_code_def by (intro with_value_guarded calms args_calm tame_calm)

text \<open>
  Every node of a compiled tree is guarded when the functions of the application are tame;
  nothing is asked of the tree.
\<close>

interpretation sandbox: code_property env expr "\<lambda>e. True" "\<lambda>c. tame env \<longrightarrow> guarded c" for env :: "'n realm" and expr
  by unfold_locales
    (auto simp: list_all_iff plain_guarded interp_identifier_guarded nonComputedMember_guarded computedMember_guarded
      assign_guarded array_guarded object_guarded call_guarded input_guarded operators_guarded filter_guarded allowed_name)

section \<open>The sandbox theorem\<close>

lemma run_body_calm: "list_all guarded cs \<Longrightarrow> calm n (run_body cs v a)"
  by (induction cs arbitrary: v) (auto intro!: calms value_calm)

text \<open>
  C34. Evaluating any expression, or assigning through one, keeps the prototype of every object
  that existed before and its properties with a disallowed name, if the functions of the
  application it calls keep them.
\<close>

theorem sandbox_protects:
  assumes "parse_expression env expr x = Some (Inr c)" and "tame env"
    and "code = fn_code c \<or> fn_assign c = Some code" and "r < length h"
  shows "let h' = snd (code a h) in r < length h' \<and> o_proto (h' ! r) = o_proto (h ! r) \<and>
    (\<forall>name \<in> set disallowed_names. map_of (o_props (h' ! r)) (key name) = map_of (o_props (h ! r)) (key name))"
proof -
  from assms(1) obtain body where body: "compile_body env expr x body = Inr c"
    by (auto simp: parse_expression_def split: option.splits sum.splits)
  from assms(3) have "calm (length h) (code a)"
  proof
    assume code: "code = fn_code c"
    obtain cs where "list_all (\<lambda>c. tame env \<longrightarrow> guarded c) cs" "fn_code c = run_body cs VUndefined"
      using sandbox.program [OF _ _ body] by (auto simp: list_all_iff)
    with assms(2) code show ?thesis using run_body_calm by (auto simp: list_all_iff)
  next
    assume "fn_assign c = Some code"
    with sandbox.assigning [OF _ body] obtain m where "tame env \<longrightarrow> guarded m" "code = value_of m" by blast
    with assms(2) show ?thesis using value_calm by blast
  qed
  with assms(4) show ?thesis by (auto simp: calm_def keeps_def disallowed_def Let_def)
qed

theorem sandbox_protects_witness:
  "\<exists>c f. parse_expression small_realm ''a'' False = Some (Inr c) \<and> fn_assign c = Some f \<and>
    (let h = [\<lparr>o_props = [(key ''__proto__'', VNum 5)], o_proto = None, o_length = None\<rparr>];
         h' = snd (f \<lparr>a_scope = VRef 0, a_locals = VUndefined, a_assign = VNum 1, a_inputs = None\<rparr> h) in
     map_of (o_props (h' ! 0)) (key ''a'') = Some (VNum 1) \<and> o_proto (h' ! 0) = None \<and>
     map_of (o_props (h' ! 0)) (key ''__proto__'') = Some (VNum 5))"
proof -
  let ?h = "[\<lparr>o_props = [(key ''__proto__'', VNum 5)], o_proto = None, o_length = None\<rparr>] :: int heap"
  let ?a = "\<lparr>a_scope = VRef 0, a_locals = VUndefined, a_assign = VNum 1, a_inputs = None\<rparr> :: int args"
  have tree: "ast_of ''a'' = Some (Inr [Identifier ''a''])" by code_simp
  have tame: "tame small_realm" by (simp add: tame_def small_realm_def calms)
  obtain c f where c: "parse_expression small_realm ''a'' False = Some (Inr c)" "fn_assign c = Some f"
      "map_of (o_props (snd (f ?a ?h) ! 0)) (key ''a'') = Some (VNum 1)"
    unfolding parse_expression_def tree
    by (simp add: compile_body_def getInputs_def assignableAST_def isAssignable_def e_bind_def recurse.simps
        ensureSafeMemberName_def disallowed_names_def key_def units_def isPossiblyDangerousMemberName_def
        assign_code_def with_value_def value_of_def bindM_def ret_def plain_def interp_identifier_def base_of_def
        create_missing_def check_if_def read_prop_def lookup_def own_get_def ensureSafeObject_def
        own_value_def truthy_prop_def ensureSafeAssignContext_def set_prop_def small_realm_def whole_numbers_def)
  from sandbox_protects [OF c(1) tame disjI2 [OF c(2)], of 0 ?h ?a] have
    "let h' = snd (f ?a ?h) in 0 < length h' \<and> o_proto (h' ! 0) = None \<and>
      (\<forall>name \<in> set disallowed_names. map_of (o_props (h' ! 0)) (key name) = map_of [(key ''__proto__'', VNum 5)] (key name))"
    by simp
  then have "o_proto (snd (f ?a ?h) ! 0) = None" "map_of (o_props (snd (f ?a ?h) ! 0)) (key ''__proto__'') = Some (VNum 5)"
    by (simp_all add: Let_def disallowed_names_def)
  with c show ?thesis by (auto simp: Let_def)
qed

end
