(* ===== verification/NgCache.thy ===== *)
theory NgCache
  imports NgModules Interfaces
begin

text \<open>
  \<open>$cacheFactory\<close> of \<open>js/angular.js\<close> (and \<open>$templateCache\<close>, one of its caches): caches that
  forget the entries used least recently. The entries of the LRU list are objects that point
  at each other, so they live in a store (\<open>c_entries\<close>) and are named by their address; null
  and undefined pointers are None.
\<close>

section \<open>State\<close>

record entry =
  e_key :: string
  e_p :: "nat option"
  e_n :: "nat option"

text \<open>
  \<open>data\<close>, \<open>stats\<close> and \<open>lruHash\<close> are null once the cache is destroyed. The options are the
  capacity only; a capacity that is absent or 0 is \<open>Number.MAX_VALUE\<close>, which is None here.
\<close>

record 'v cache =
  c_id :: string
  c_size :: int
  c_stats :: "(string \<times> int option) option"
  c_data :: "(string \<times> 'v) list option"
  c_capacity :: "int option"
  c_lru :: "(string \<times> nat) list option"
  c_entries :: "entry list"
  c_fresh :: "nat option"
  c_stale :: "nat option"

definition new_cache :: "string \<Rightarrow> int option \<Rightarrow> 'v cache" where
  "new_cache i capacity = \<lparr>c_id = i, c_size = 0, c_stats = Some (i, capacity), c_data = Some [],
     c_capacity = (if capacity = Some 0 then None else capacity), c_lru = Some [], c_entries = [], c_fresh = None, c_stale = None\<rparr>"

section \<open>The linked list\<close>

definition link :: "nat option \<Rightarrow> nat option \<Rightarrow> entry list \<Rightarrow> entry list" where
  "link nextEntry prevEntry es =
    (if nextEntry = prevEntry then es
     else
       let es1 = (case nextEntry of Some a \<Rightarrow> es[a := (es ! a)\<lparr>e_p := prevEntry\<rparr>] | None \<Rightarrow> es)
       in (case prevEntry of Some b \<Rightarrow> es1[b := (es1 ! b)\<lparr>e_n := nextEntry\<rparr>] | None \<Rightarrow> es1))"

definition refresh :: "nat \<Rightarrow> 'v cache \<Rightarrow> 'v cache" where
  "refresh a c =
    (if Some a = c_fresh c then c
     else
       let stale = (case c_stale c of None \<Rightarrow> Some a | Some s \<Rightarrow> if s = a then e_n (c_entries c ! a) else Some s);
           es1 = link (e_n (c_entries c ! a)) (e_p (c_entries c ! a)) (c_entries c);
           es2 = link (Some a) (c_fresh c) es1
       in c\<lparr>c_stale := stale, c_entries := es2[a := (es2 ! a)\<lparr>e_n := None\<rparr>], c_fresh := Some a\<rparr>)"

section \<open>Operations\<close>

text \<open>\<open>remove\<close> without the list, then with it.\<close>

definition remove_data :: "string \<Rightarrow> ('v cache, unit) comp" where
  "remove_data k c = (case c_data c of
     None \<Rightarrow> (Inl (TypeError ''in''), c)
   | Some d \<Rightarrow> if map_of d k = None then (Inr (), c)
       else (Inr (), c\<lparr>c_data := Some (adel k d), c_size := c_size c - 1\<rparr>))"

definition unlink_entry :: "string \<Rightarrow> nat \<Rightarrow> (string \<times> nat) list \<Rightarrow> 'v cache \<Rightarrow> 'v cache" where
  "unlink_entry k a lru c =
    (let en = c_entries c ! a in
     c\<lparr>c_fresh := (if c_fresh c = Some a then e_p en else c_fresh c),
       c_stale := (if c_stale c = Some a then e_n en else c_stale c),
       c_entries := link (e_n en) (e_p en) (c_entries c),
       c_lru := Some (adel k lru)\<rparr>)"

definition cache_remove :: "string \<Rightarrow> ('v cache, unit) comp" where
  "cache_remove k c =
    (if c_capacity c = None then remove_data k c
     else (case c_lru c of
         None \<Rightarrow> (Inl (TypeError ''lruHash''), c)
       | Some lru \<Rightarrow> (case map_of lru k of
             None \<Rightarrow> (Inr (), c)
           | Some a \<Rightarrow> remove_data k (unlink_entry k a lru c))))"

text \<open>The entry of a key in \<open>put\<close>, made when there is none.\<close>

definition entry_for :: "string \<Rightarrow> (string \<times> nat) list \<Rightarrow> 'v cache \<Rightarrow> nat \<times> 'v cache" where
  "entry_for k lru c = (case map_of lru k of
     Some a \<Rightarrow> (a, c)
   | None \<Rightarrow> (length (c_entries c), c\<lparr>c_entries := c_entries c @ [\<lparr>e_key = k, e_p = None, e_n = None\<rparr>],
       c_lru := Some (aput k (length (c_entries c)) lru)\<rparr>))"

definition touch :: "string \<Rightarrow> ('v cache, unit) comp" where
  "touch k c = (if c_capacity c = None then (Inr (), c)
     else (case c_lru c of
         None \<Rightarrow> (Inl (TypeError ''lruHash''), c)
       | Some lru \<Rightarrow> (case entry_for k lru c of (a, c1) \<Rightarrow> (Inr (), refresh a c1))))"

definition store :: "string \<Rightarrow> 'v \<Rightarrow> ('v cache, unit) comp" where
  "store k v c = (case c_data c of
     None \<Rightarrow> (Inl (TypeError ''in''), c)
   | Some d \<Rightarrow> (Inr (), c\<lparr>c_size := (if map_of d k = None then c_size c + 1 else c_size c), c_data := Some (aput k v d)\<rparr>))"

definition evict :: "('v cache, unit) comp" where
  "evict c = (case c_capacity c of
     None \<Rightarrow> (Inr (), c)
   | Some n \<Rightarrow> if c_size c > n then
       (case c_stale c of None \<Rightarrow> (Inl (TypeError ''staleEnd''), c) | Some s \<Rightarrow> cache_remove (e_key (c_entries c ! s)) c)
     else (Inr (), c))"

text \<open>An undefined value (None) is not stored.\<close>

definition cache_put :: "string \<Rightarrow> 'v option \<Rightarrow> ('v cache, 'v option) comp" where
  "cache_put k x = (case x of
     None \<Rightarrow> ret None
   | Some v \<Rightarrow> seqM (touch k) (seqM (store k v) (seqM evict (ret (Some v)))))"

definition cache_get :: "string \<Rightarrow> ('v cache, 'v option) comp" where
  "cache_get k c =
    (let look = (\<lambda>c1. case c_data c1 of None \<Rightarrow> (Inl (TypeError ''data''), c1) | Some d \<Rightarrow> (Inr (map_of d k), c1)) in
     if c_capacity c = None then look c
     else (case c_lru c of
         None \<Rightarrow> (Inl (TypeError ''lruHash''), c)
       | Some lru \<Rightarrow> (case map_of lru k of None \<Rightarrow> (Inr None, c) | Some a \<Rightarrow> look (refresh a c))))"

definition cache_removeAll :: "('v cache, unit) comp" where
  "cache_removeAll c = (Inr (), c\<lparr>c_data := Some [], c_size := 0, c_lru := Some [], c_fresh := None, c_stale := None\<rparr>)"

text \<open>\<open>info\<close>: the statistics, null ones as None, and the size.\<close>

definition cache_info :: "'v cache \<Rightarrow> (string \<times> int option) option \<times> int" where
  "cache_info c = (c_stats c, c_size c)"

section \<open>The factory\<close>

text \<open>\<open>caches\<close> by identifier; a client keeps the address of a cache also when it is destroyed.\<close>

record 'v factory =
  f_caches :: "(string \<times> nat) list"
  f_objects :: "'v cache list"

text \<open>\<open>cacheId in caches\<close>: \<open>caches\<close> is an object literal and inherits names.\<close>

definition taken :: "string \<Rightarrow> 'v factory \<Rightarrow> bool" where
  "taken i s \<longleftrightarrow> i \<in> set (akeys (f_caches s)) \<or> i \<in> set inherited_names \<or> i = ''hasOwnProperty''"

definition cacheFactory :: "string \<Rightarrow> int option \<Rightarrow> ('v factory, nat) comp" where
  "cacheFactory i capacity s =
    (if taken i s then (Inl (minErr ''$cacheFactory'' ''iid'' ''CacheId '{0}' is already taken!'' [i]), s)
     else (Inr (length (f_objects s)),
       s\<lparr>f_caches := aput i (length (f_objects s)) (f_caches s), f_objects := f_objects s @ [new_cache i capacity]\<rparr>))"

definition cache_destroy :: "nat \<Rightarrow> ('v factory, unit) comp" where
  "cache_destroy a s =
    (let c = f_objects s ! a in
     (Inr (), s\<lparr>f_objects := (f_objects s)[a := c\<lparr>c_data := None, c_stats := None, c_lru := None\<rparr>],
       f_caches := adel (c_id c) (f_caches s)\<rparr>))"

definition factory_info :: "'v factory \<Rightarrow> (string \<times> (string \<times> int option) option \<times> int) list" where
  "factory_info s = map (\<lambda>(i, a). (i, cache_info (f_objects s ! a))) (f_caches s)"

text \<open>\<open>caches[cacheId]\<close>, which finds inherited members too.\<close>

datatype cache_ref = CacheObject nat | CacheInherited string

definition factory_get :: "string \<Rightarrow> 'v factory \<Rightarrow> cache_ref option" where
  "factory_get i s = (case map_of (f_caches s) i of
     Some a \<Rightarrow> Some (CacheObject a)
   | None \<Rightarrow> if i \<in> set inherited_names \<or> i = ''hasOwnProperty'' then Some (CacheInherited i) else None)"

definition templateCache :: "('v factory, nat) comp" where
  "templateCache = cacheFactory ''templates'' None"

end
