(* ===== verification/NgCacheProps.thy ===== *)
theory NgCacheProps
  imports NgCache
begin

text \<open>
  A cache with a capacity is a list of its entries from the one used least recently to the one
  used last: what each operation of the linked list and its hash does to that list, the
  refinement for every sequence of operations, and what the capacity guarantees.
\<close>

section \<open>Neighbours in a list\<close>

definition hd_opt :: "'a list \<Rightarrow> 'a option" where
  "hd_opt xs = (case xs of [] \<Rightarrow> None | x # _ \<Rightarrow> Some x)"

lemma hd_opt_simps [simp]: "hd_opt [] = None" "hd_opt (x # xs) = Some x"
  by (simp_all add: hd_opt_def)

lemma hd_opt_append: "hd_opt (xs @ ys) = (if xs = [] then hd_opt ys else hd_opt xs)"
  by (cases xs) simp_all

lemma hd_opt_in: "hd_opt xs = Some x \<Longrightarrow> x \<in> set xs"
  by (cases xs) simp_all

fun after :: "'a list \<Rightarrow> 'a \<Rightarrow> 'a option" where
  "after [] a = None"
| "after (x # xs) a = (if x = a then hd_opt xs else after xs a)"

lemma after_notin: "a \<notin> set xs \<Longrightarrow> after xs a = None"
  by (induction xs) auto

lemma after_in: "after xs a = Some b \<Longrightarrow> a \<in> set xs \<and> b \<in> set xs"
  by (induction xs) (auto split: if_splits dest: hd_opt_in)

lemma after_append:
  "distinct (xs @ ys) \<Longrightarrow> after (xs @ ys) a =
    (if hd_opt (rev xs) = Some a then hd_opt ys else if a \<in> set xs then after xs a else after ys a)"
  by (induction xs) (auto simp: hd_opt_append after_notin dest: hd_opt_in split: if_splits)

lemma after_not_hd: "distinct xs \<Longrightarrow> hd_opt xs = Some b \<Longrightarrow> after xs a \<noteq> Some b"
  by (cases xs) (auto dest: hd_opt_in after_in)

lemma filter_other: "a \<notin> set xs \<Longrightarrow> filter (\<lambda>x. x \<noteq> a) xs = xs"
  by (induction xs) auto

lemma after_rev: "distinct xs \<Longrightarrow> after (rev xs) b = Some a \<longleftrightarrow> after xs a = Some b"
proof (induction xs)
  case (Cons x xs)
  then have "distinct (rev xs @ [x])" by simp
  from after_append [OF this] Cons show ?case
    by (auto simp: after_notin dest: after_in hd_opt_in after_not_hd split: if_splits)
qed simp

lemma after_asym: "distinct xs \<Longrightarrow> after xs a = Some b \<Longrightarrow> after xs b \<noteq> Some a"
  by (induction xs) (auto dest: hd_opt_in after_in split: if_splits)

lemma after_filter:
  "distinct xs \<Longrightarrow> b \<noteq> a \<Longrightarrow> after (filter (\<lambda>x. x \<noteq> a) xs) b = (if after xs b = Some a then after xs a else after xs b)"
proof (induction xs)
  case (Cons x xs)
  have hd: "hd_opt (filter (\<lambda>x. x \<noteq> a) xs) = (if hd_opt xs = Some a then after xs a else hd_opt xs)"
    using Cons.prems by (cases xs) (auto simp: filter_other)
  show ?case using Cons hd by (auto dest: after_in hd_opt_in simp: after_notin)
qed simp

lemma hd_opt_filter:
  "distinct xs \<Longrightarrow> hd_opt (filter (\<lambda>x. x \<noteq> a) xs) = (if hd_opt xs = Some a then after xs a else hd_opt xs)"
  by (cases xs) (auto simp: filter_other)

section \<open>The linked list\<close>

text \<open>The entries \<open>xs\<close>, from stale to fresh, and another entry point at their neighbours.\<close>

definition chained :: "entry list \<Rightarrow> nat list \<Rightarrow> nat set \<Rightarrow> bool" where
  "chained es xs A \<longleftrightarrow> distinct xs \<and> set xs \<subseteq> A \<and>
    (\<forall>a \<in> A. a < length es \<and> e_n (es ! a) = after xs a \<and> e_p (es ! a) = after (rev xs) a)"

lemma chainedD:
  assumes "chained es xs A"
  shows "distinct xs" "set xs \<subseteq> A" "a \<in> A \<Longrightarrow> a < length es" "a \<in> A \<Longrightarrow> e_n (es ! a) = after xs a"
    "a \<in> A \<Longrightarrow> e_p (es ! a) = after (rev xs) a"
  using assms by (simp_all add: chained_def)

lemma length_link [simp]: "length (link n p es) = length es"
  by (simp add: link_def Let_def split: option.split)

lemma link_nth:
  assumes "n = p \<Longrightarrow> n = None" and "b < length es"
  shows "link n p es ! b = (es ! b)\<lparr>e_p := (if n = Some b then p else e_p (es ! b)), e_n := (if p = Some b then n else e_n (es ! b))\<rparr>"
  using assms by (auto simp: link_def Let_def nth_list_update split: option.split)

lemma key_update [simp]:
  "b < length es \<Longrightarrow> e_key (es[x := (es ! x)\<lparr>e_n := v\<rparr>] ! b) = e_key (es ! b)"
  "b < length es \<Longrightarrow> e_key (es[x := (es ! x)\<lparr>e_p := v\<rparr>] ! b) = e_key (es ! b)"
  by (cases "x = b"; simp)+

lemma link_key [simp]: "b < length es \<Longrightarrow> e_key (link n p es ! b) = e_key (es ! b)"
  by (simp add: link_def Let_def split: option.split)

text \<open>The first half of \<open>refresh\<close> and of \<open>remove\<close> takes an entry out.\<close>

lemma neighbours_differ: "distinct xs \<Longrightarrow> after xs a = after (rev xs) a \<Longrightarrow> after xs a = None"
  using after_rev [of xs a] after_asym [of xs a] by (metis not_None_eq)

lemma chained_unlink:
  assumes c: "chained es xs A" and a: "a \<in> A"
  shows "chained (link (e_n (es ! a)) (e_p (es ! a)) es) (filter (\<lambda>x. x \<noteq> a) xs) (A - {a})"
proof -
  note d = chainedD [OF c]
  have "link (after xs a) (after (rev xs) a) es ! b = (es ! b)\<lparr>e_p := (if after xs a = Some b then after (rev xs) a else e_p (es ! b)),
      e_n := (if after (rev xs) a = Some b then after xs a else e_n (es ! b))\<rparr>" if "b \<in> A" for b
    using neighbours_differ [OF d(1)] d(3) [OF that] by (intro link_nth) auto
  moreover have "after (filter (\<lambda>x. x \<noteq> a) xs) b = (if after (rev xs) a = Some b then after xs a else after xs b)" if "b \<noteq> a" for b
    using after_filter [OF d(1) that] after_rev [OF d(1)] by auto
  moreover have "after (rev (filter (\<lambda>x. x \<noteq> a) xs)) b = (if after xs a = Some b then after (rev xs) a else after (rev xs) b)"
    if "b \<noteq> a" for b
    using after_filter [of "rev xs", OF _ that] after_rev [of "rev xs"] d(1) by (auto simp: rev_filter)
  ultimately show ?thesis using d a by (auto simp: chained_def)
qed

text \<open>The second half of \<open>refresh\<close> puts an entry at the fresh end.\<close>

lemma chained_append:
  assumes c: "chained es ys A" and a: "a < length es" "a \<notin> A" and es: "es1 = link (Some a) (hd_opt (rev ys)) es"
  shows "chained (es1[a := (es1 ! a)\<lparr>e_n := None\<rparr>]) (ys @ [a]) (insert a A)"
proof -
  note d = chainedD [OF c]
  have a': "a \<notin> set ys" using a(2) d(2) by blast
  have fresh: "hd_opt (rev ys) \<noteq> Some a" using a' hd_opt_in by force
  have nth: "es1 ! b = (es ! b)\<lparr>e_p := (if a = b then hd_opt (rev ys) else e_p (es ! b)),
      e_n := (if hd_opt (rev ys) = Some b then Some a else e_n (es ! b))\<rparr>" if "b < length es" for b
    using link_nth [of "Some a" "hd_opt (rev ys)" b es] that fresh unfolding es by auto
  have app: "after (ys @ [a]) b = (if hd_opt (rev ys) = Some b then Some a else after ys b)" for b
    using after_append [of ys "[a]" b] d(1) a' by (auto simp: after_notin)
  have len: "length es1 = length es" by (simp add: es)
  show ?thesis unfolding chained_def
  proof (intro conjI ballI)
    show "distinct (ys @ [a])" using d(1) a' by simp
    show "set (ys @ [a]) \<subseteq> insert a A" using d(2) by auto
  next
    fix b
    assume b: "b \<in> insert a A"
    then show bl: "b < length (es1[a := (es1 ! a)\<lparr>e_n := None\<rparr>])" using a(1) d(3) len by auto
    show "e_n (es1[a := (es1 ! a)\<lparr>e_n := None\<rparr>] ! b) = after (ys @ [a]) b"
      using b bl len app [of b] nth [of b] d(4) a a' fresh by (auto simp: nth_list_update after_notin)
    show "e_p (es1[a := (es1 ! a)\<lparr>e_n := None\<rparr>] ! b) = after (rev (ys @ [a])) b"
      using b bl len nth [of b] d(5) a a' by (auto simp: nth_list_update)
  qed
qed

section \<open>The list and the hash of a cache\<close>

text \<open>
  \<open>listed c lru xs\<close>: the entries \<open>xs\<close> are the linked list of the cache, and the hash finds
  exactly them.
\<close>

definition entry_key :: "'v cache \<Rightarrow> nat \<Rightarrow> string" where
  "entry_key c a = e_key (c_entries c ! a)"

definition listed :: "'v cache \<Rightarrow> nat list \<Rightarrow> bool" where
  "listed c xs \<longleftrightarrow> chained (c_entries c) xs (set xs) \<and> c_stale c = hd_opt xs \<and> c_fresh c = hd_opt (rev xs) \<and>
    distinct (map (entry_key c) xs) \<and> (\<exists>lru. c_lru c = Some lru \<and> (\<forall>k a. map_of lru k = Some a \<longleftrightarrow> a \<in> set xs \<and> entry_key c a = k))"

lemma refresh_chained:
  assumes c: "chained (c_entries c) xs A" and a: "a \<in> A"
    and ends: "c_stale c = hd_opt xs" "c_fresh c = hd_opt (rev xs)"
  shows "chained (c_entries (refresh a c)) (filter (\<lambda>x. x \<noteq> a) xs @ [a]) A"
    and "c_stale (refresh a c) = hd_opt (filter (\<lambda>x. x \<noteq> a) xs @ [a])" "c_fresh (refresh a c) = Some a"
    and "\<And>b. b < length (c_entries c) \<Longrightarrow> entry_key (refresh a c) b = entry_key c b"
proof -
  let ?ys = "filter (\<lambda>x. x \<noteq> a) xs"
  let ?es1 = "link (e_n (c_entries c ! a)) (e_p (c_entries c ! a)) (c_entries c)"
  note d = chainedD [OF c]
  have al: "a < length (c_entries c)" using d(3) [OF a] .
  have ys: "?ys @ [a] = xs" if "hd_opt (rev xs) = Some a"
  proof -
    from that obtain zs where "rev xs = a # zs" by (cases "rev xs") auto
    then have "xs = rev zs @ [a]" by (simp add: rev_eq_Cons_iff)
    with d(1) show ?thesis by (simp add: filter_other)
  qed
  have key: "entry_key (refresh a c) b = entry_key c b" if "b < length (c_entries c)" for b
    using that by (simp add: entry_key_def refresh_def Let_def)
  have "chained (c_entries (refresh a c)) (?ys @ [a]) A \<and> c_stale (refresh a c) = hd_opt (?ys @ [a]) \<and> c_fresh (refresh a c) = Some a"
  proof (cases "hd_opt (rev xs) = Some a")
    case True
    with ys c ends show ?thesis by (simp add: refresh_def)
  next
    case False
    have fresh: "hd_opt (rev ?ys) = c_fresh c"
      using False ends(2) hd_opt_filter [of "rev xs" a] d(1) by (simp add: rev_filter)
    from chained_append [OF chained_unlink [OF c a] _ _ refl, of a] al
    have "chained (c_entries (refresh a c)) (?ys @ [a]) (insert a (A - {a}))"
      using False ends(2) fresh by (simp add: refresh_def Let_def)
    moreover have "c_stale (refresh a c) = hd_opt (?ys @ [a])"
    proof (cases xs)
      case Nil
      then show ?thesis using False ends by (simp add: refresh_def Let_def)
    next
      case (Cons x zs)
      have "?ys \<noteq> []" if "x = a"
        using Cons that False d(1) by (auto simp: filter_empty_conv hd_opt_append) (metis hd_in_set list.exhaust_sel set_rev hd_opt_simps rev.simps(1) append_Nil rev_is_Nil_conv)
      then show ?thesis using False ends Cons d(1) d(4) [OF a] hd_opt_filter [OF d(1), of a]
        by (auto simp: refresh_def Let_def hd_opt_append)
    qed
    moreover have "c_fresh (refresh a c) = Some a" using False ends by (simp add: refresh_def Let_def)
    ultimately show ?thesis using a by (simp add: insert_absorb)
  qed
  with key show "chained (c_entries (refresh a c)) (?ys @ [a]) A" "c_stale (refresh a c) = hd_opt (?ys @ [a])"
      "c_fresh (refresh a c) = Some a" "\<And>b. b < length (c_entries c) \<Longrightarrow> entry_key (refresh a c) b = entry_key c b" by blast+
qed

lemma refresh_frame [simp]:
  "c_data (refresh a c) = c_data c" "c_size (refresh a c) = c_size c" "c_capacity (refresh a c) = c_capacity c"
  "c_lru (refresh a c) = c_lru c" "c_stats (refresh a c) = c_stats c" "c_id (refresh a c) = c_id c"
  by (simp_all add: refresh_def Let_def)

text \<open>Without the entry of a key; with distinct keys there is at most one.\<close>

abbreviation others :: "'v cache \<Rightarrow> string \<Rightarrow> nat list \<Rightarrow> nat list" where
  "others c k xs \<equiv> filter (\<lambda>b. entry_key c b \<noteq> k) xs"

lemma others_one:
  "distinct (map (entry_key c) xs) \<Longrightarrow> a \<in> set xs \<Longrightarrow> filter (\<lambda>b. b \<noteq> a) xs = others c (entry_key c a) xs"
  by (rule filter_cong) (auto simp: distinct_map dest: inj_onD)

lemma others_none: "k \<notin> entry_key c ` set xs \<Longrightarrow> others c k xs = xs"
  by (simp add: filter_id_conv image_iff) metis

lemma listedD:
  assumes "listed c xs"
  obtains lru where "c_lru c = Some lru" "\<And>k a. map_of lru k = Some a \<longleftrightarrow> a \<in> set xs \<and> entry_key c a = k"
  using assms by (auto simp: listed_def)

lemma listed_cong:
  assumes "chained (c_entries c') ys (set ys)" "c_stale c' = hd_opt ys" "c_fresh c' = hd_opt (rev ys)"
    and "distinct (map (entry_key c') ys)" "c_lru c' = Some lru"
    and "\<And>k a. map_of lru k = Some a \<longleftrightarrow> a \<in> set ys \<and> entry_key c' a = k"
  shows "listed c' ys"
  using assms by (simp add: listed_def)

lemma chained_mono: "chained es xs A \<Longrightarrow> set xs \<subseteq> B \<Longrightarrow> B \<subseteq> A \<Longrightarrow> chained es xs B"
  by (auto simp: chained_def)

text \<open>A key in the list moves to the fresh end.\<close>

lemma refresh_listed:
  assumes l: "listed c xs" and a: "a \<in> set xs" and k: "entry_key c a = k"
  shows "listed (refresh a c) (others c k xs @ [a])" "\<And>b. b \<in> set xs \<Longrightarrow> entry_key (refresh a c) b = entry_key c b"
proof -
  from l have c: "chained (c_entries c) xs (set xs)" "c_stale c = hd_opt xs" "c_fresh c = hd_opt (rev xs)"
    and dk: "distinct (map (entry_key c) xs)" by (simp_all add: listed_def)
  note r = refresh_chained [OF c(1) a c(2,3), unfolded others_one [OF dk a] k]
  show key: "entry_key (refresh a c) b = entry_key c b" if "b \<in> set xs" for b using r(4) chainedD(3) [OF c(1) that] by blast
  obtain lru where lru: "c_lru c = Some lru" "\<And>j b. map_of lru j = Some b \<longleftrightarrow> b \<in> set xs \<and> entry_key c b = j"
    using listedD [OF l] by blast
  have set: "set (others c k xs @ [a]) = set xs"
    using a k dk by (auto simp: distinct_map dest: inj_onD)
  show "listed (refresh a c) (others c k xs @ [a])"
  proof (rule listed_cong [where lru = lru])
    show "chained (c_entries (refresh a c)) (others c k xs @ [a]) (set (others c k xs @ [a]))" using r(1) set by simp
    have "map (entry_key (refresh a c)) (others c k xs @ [a]) = map (entry_key c) (others c k xs @ [a])"
      using key set by (intro map_cong) auto
    moreover have "distinct (map (entry_key c) (others c k xs @ [a]))"
      using dk k by (auto simp: distinct_map intro: inj_on_subset)
    ultimately show "distinct (map (entry_key (refresh a c)) (others c k xs @ [a]))" by (simp only:)
    show "\<And>j b. map_of lru j = Some b \<longleftrightarrow> b \<in> set (others c k xs @ [a]) \<and> entry_key (refresh a c) b = j"
      using lru(2) set key by auto
  qed (use r lru(1) in simp_all)
qed

text \<open>A key outside the list gets an entry at the fresh end.\<close>

lemma new_entry_listed:
  assumes l: "listed c xs" and lru: "c_lru c = Some lru" "map_of lru k = None"
    and c1: "entry_for k lru c = (a, c1)"
  shows "listed (refresh a c1) (xs @ [a])" "a \<notin> set xs" "entry_key (refresh a c1) a = k"
    "\<And>b. b \<in> set xs \<Longrightarrow> entry_key (refresh a c1) b = entry_key c b"
proof -
  let ?n = "length (c_entries c)"
  from c1 lru have a: "a = ?n" and c1': "c1 = c\<lparr>c_entries := c_entries c @ [\<lparr>e_key = k, e_p = None, e_n = None\<rparr>],
      c_lru := Some (aput k ?n lru)\<rparr>" by (auto simp: entry_for_def)
  from l have c: "chained (c_entries c) xs (set xs)" "c_stale c = hd_opt xs" "c_fresh c = hd_opt (rev xs)"
    and dk: "distinct (map (entry_key c) xs)" by (simp_all add: listed_def)
  note d = chainedD [OF c(1)]
  from d(3) show new: "a \<notin> set xs" unfolding a by blast
  have chain: "chained (c_entries c1) xs (insert a (set xs))"
    using c(1) new by (auto simp: chained_def c1' a nth_append after_notin less_Suc_eq)
  note r = refresh_chained [OF chain insertI1, unfolded filter_other [OF new]]
  have ends: "c_stale c1 = hd_opt xs" "c_fresh c1 = hd_opt (rev xs)" using c(2,3) by (simp_all add: c1')
  note r = r [OF ends]
  have key: "entry_key (refresh a c1) b = entry_key c b" if "b \<in> set xs" for b
    using r(4) [of b] d(3) [OF that] by (simp add: c1' entry_key_def nth_append)
  then show "\<And>b. b \<in> set xs \<Longrightarrow> entry_key (refresh a c1) b = entry_key c b" .
  show ka: "entry_key (refresh a c1) a = k"
    using r(4) [of a] by (simp add: c1' a entry_key_def)
  obtain lru' where lru': "c_lru c = Some lru'" "\<And>j b. map_of lru' j = Some b \<longleftrightarrow> b \<in> set xs \<and> entry_key c b = j"
    using listedD [OF l] by blast
  with lru lru'(2) [of k] have nokey: "k \<notin> entry_key c ` set xs" by auto
  from nokey have nokey': "entry_key c b \<noteq> k" if "b \<in> set xs" for b using that by blast
  show "listed (refresh a c1) (xs @ [a])"
  proof (rule listed_cong [where lru = "aput k a lru"])
    show "chained (c_entries (refresh a c1)) (xs @ [a]) (set (xs @ [a]))" using r(1) by (simp add: insert_commute)
    have "map (entry_key (refresh a c1)) xs = map (entry_key c) xs" using key by simp
    then have "distinct (map (entry_key (refresh a c1)) xs)" using dk by (simp only:)
    then show "distinct (map (entry_key (refresh a c1)) (xs @ [a]))" using nokey ka key by (auto simp: image_iff)
    show "\<And>j b. map_of (aput k a lru) j = Some b \<longleftrightarrow> b \<in> set (xs @ [a]) \<and> entry_key (refresh a c1) b = j"
      using lru lru' key ka new nokey' by auto
  qed (use r a c1' in simp_all)
qed

lemma entry_for_frame:
  "entry_for k lru c = (a, c1) \<Longrightarrow> c_data c1 = c_data c \<and> c_size c1 = c_size c \<and> c_capacity c1 = c_capacity c"
  by (auto simp: entry_for_def split: option.splits)

text \<open>\<open>touch\<close>, in both cases.\<close>

lemma touch_listed:
  assumes l: "listed c xs" and cap: "c_capacity c \<noteq> None"
  obtains a c' where "touch k c = (Inr (), c')" "listed c' (others c k xs @ [a])" "entry_key c' a = k"
    "\<forall>b \<in> set xs. entry_key c' b = entry_key c b" "c_data c' = c_data c" "c_size c' = c_size c" "c_capacity c' = c_capacity c"
proof -
  obtain lru where lru: "c_lru c = Some lru" "\<And>j b. map_of lru j = Some b \<longleftrightarrow> b \<in> set xs \<and> entry_key c b = j"
    using listedD [OF l] by blast
  show thesis
  proof (cases "map_of lru k")
    case None
    obtain a c1 where c1: "entry_for k lru c = (a, c1)" by (cases "entry_for k lru c")
    from None lru(2) [of k] have "k \<notin> entry_key c ` set xs" by auto
    note n = new_entry_listed [OF l lru(1) None c1] entry_for_frame [OF c1]
    have "touch k c = (Inr (), refresh a c1)" using c1 cap lru(1) by (cases "c_capacity c") (simp_all add: touch_def)
    then show ?thesis
      using n others_none [OF \<open>k \<notin> entry_key c ` set xs\<close>] by (intro that [of "refresh a c1" a]) simp_all
  next
    case (Some a)
    with lru have a: "a \<in> set xs" "entry_key c a = k" by simp_all
    from refresh_listed [OF l a] a cap lru(1) Some show ?thesis
      by (intro that [of "refresh a c" a]) (auto simp: touch_def entry_for_def)
  qed
qed

text \<open>\<open>remove\<close> takes the entry of a key out.\<close>

lemma unlink_entry_listed:
  assumes l: "listed c xs" and lru: "c_lru c = Some lru" "map_of lru k = Some a"
  shows "listed (unlink_entry k a lru c) (others c k xs)" "\<And>b. b \<in> set xs \<Longrightarrow> entry_key (unlink_entry k a lru c) b = entry_key c b"
    "c_data (unlink_entry k a lru c) = c_data c" "c_size (unlink_entry k a lru c) = c_size c"
    "c_capacity (unlink_entry k a lru c) = c_capacity c"
proof -
  from l have c: "chained (c_entries c) xs (set xs)" "c_stale c = hd_opt xs" "c_fresh c = hd_opt (rev xs)"
    and dk: "distinct (map (entry_key c) xs)" by (simp_all add: listed_def)
  note d = chainedD [OF c(1)]
  obtain lru' where "c_lru c = Some lru'" "\<And>j b. map_of lru' j = Some b \<longleftrightarrow> b \<in> set xs \<and> entry_key c b = j"
    using listedD [OF l] by blast
  with lru have lru': "\<And>j b. map_of lru j = Some b \<longleftrightarrow> b \<in> set xs \<and> entry_key c b = j" by simp
  with lru(2) have a: "a \<in> set xs" "entry_key c a = k" by simp_all
  have es: "c_entries (unlink_entry k a lru c) = link (e_n (c_entries c ! a)) (e_p (c_entries c ! a)) (c_entries c)"
    by (simp add: unlink_entry_def Let_def)
  show key: "entry_key (unlink_entry k a lru c) b = entry_key c b" if "b \<in> set xs" for b
    using d(3) [OF that] by (simp add: entry_key_def es)
  have others: "filter (\<lambda>b. b \<noteq> a) xs = others c k xs" using others_one [OF dk a(1)] a(2) by simp
  show "listed (unlink_entry k a lru c) (others c k xs)"
  proof (rule listed_cong [where lru = "adel k lru"])
    show "chained (c_entries (unlink_entry k a lru c)) (others c k xs) (set (others c k xs))"
      unfolding es others [symmetric] by (rule chained_mono [OF chained_unlink [OF c(1) a(1)]]) auto
    show "c_stale (unlink_entry k a lru c) = hd_opt (others c k xs)"
      using c(2) d(4) [OF a(1)] hd_opt_filter [OF d(1), of a] by (simp add: unlink_entry_def Let_def others [symmetric])
    show "c_fresh (unlink_entry k a lru c) = hd_opt (rev (others c k xs))"
      using c(3) d(5) [OF a(1)] hd_opt_filter [of "rev xs" a] d(1)
      by (simp add: unlink_entry_def Let_def others [symmetric] rev_filter)
    have "map (entry_key (unlink_entry k a lru c)) (others c k xs) = map (entry_key c) (others c k xs)" using key by simp
    moreover have "distinct (map (entry_key c) (others c k xs))" using dk by (auto simp: distinct_map intro: inj_on_subset)
    ultimately show "distinct (map (entry_key (unlink_entry k a lru c)) (others c k xs))" by (simp only:)
    show "\<And>j b. map_of (adel k lru) j = Some b \<longleftrightarrow> b \<in> set (others c k xs) \<and> entry_key (unlink_entry k a lru c) b = j"
      using lru' key by auto
  qed (simp add: unlink_entry_def Let_def)
qed (simp_all add: unlink_entry_def Let_def)

section \<open>Refinement of a list of entries\<close>

text \<open>The specification: entries from the one used least recently to the one used last.\<close>

type_synonym 'v recent = "(string \<times> 'v) list"

definition without :: "string \<Rightarrow> 'v recent \<Rightarrow> 'v recent" where
  "without k s = filter (\<lambda>e. fst e \<noteq> k) s"

definition spec_put :: "int \<Rightarrow> string \<Rightarrow> 'v \<Rightarrow> 'v recent \<Rightarrow> 'v recent" where
  "spec_put n k v s = (let s1 = without k s @ [(k, v)] in if int (length s1) > n then tl s1 else s1)"

definition spec_get :: "string \<Rightarrow> 'v recent \<Rightarrow> 'v recent" where
  "spec_get k s = (case map_of s k of None \<Rightarrow> s | Some v \<Rightarrow> without k s @ [(k, v)])"

text \<open>A cache represents the list of its entries.\<close>

definition represents :: "'v cache \<Rightarrow> 'v recent \<Rightarrow> bool" where
  "represents c s \<longleftrightarrow> c_capacity c \<noteq> None \<and> c_size c = int (length s) \<and>
    (\<exists>xs d. listed c xs \<and> c_data c = Some d \<and> map (entry_key c) xs = map fst s \<and> (\<forall>k. map_of d k = map_of s k))"

lemma represents_distinct: "represents c s \<Longrightarrow> distinct (map fst s)"
  by (auto simp: represents_def listed_def)

lemma others_without: "map (entry_key c) xs = map fst s \<Longrightarrow> map (entry_key c) (others c k xs) = map fst (without k s)"
proof -
  assume m: "map (entry_key c) xs = map fst s"
  have "map (entry_key c) (others c k xs) = filter (\<lambda>j. j \<noteq> k) (map (entry_key c) xs)" by (simp add: filter_map comp_def)
  also have "\<dots> = map fst (without k s)" unfolding m by (simp add: without_def filter_map comp_def)
  finally show ?thesis .
qed

lemma map_of_without: "map_of (without k s) j = (if j = k then None else map_of s j)"
  by (induction s) (auto simp: without_def)

lemma without_id: "k \<notin> fst ` set s \<Longrightarrow> without k s = s"
  by (induction s) (auto simp: without_def)

lemma length_without: "distinct (map fst s) \<Longrightarrow>
    int (length (without k s)) = (if map_of s k = None then int (length s) else int (length s) - 1)"
proof (induction s)
  case (Cons e s)
  show ?case
  proof (cases "fst e = k")
    case True
    with Cons.prems have "without k s = s" by (intro without_id) auto
    with True show ?thesis by (cases e) (simp add: without_def)
  next
    case False
    then have "map_of (e # s) k = map_of s k" by (cases e) simp
    moreover have "length (without k (e # s)) = Suc (length (without k s))" using False by (simp add: without_def)
    moreover have "int (length (without k s)) = (if map_of s k = None then int (length s) else int (length s) - 1)"
      using Cons by simp
    ultimately show ?thesis by (simp only: list.size of_nat_Suc) simp
  qed
qed (simp add: without_def)

lemma new_represents:
  assumes "n \<noteq> 0"
  shows "represents (new_cache i (Some n)) []"
  using assms unfolding represents_def
  by (intro conjI exI [of _ "[]"]) (auto simp: new_cache_def listed_def chained_def)

lemma remove_represents:
  assumes r: "represents c s"
  shows "\<exists>c'. cache_remove k c = (Inr (), c') \<and> represents c' (without k s) \<and> c_capacity c' = c_capacity c"
proof -
  from r obtain xs d where x: "listed c xs" "c_data c = Some d" "map (entry_key c) xs = map fst s" "\<And>k. map_of d k = map_of s k"
    and cap: "c_capacity c \<noteq> None" and size: "c_size c = int (length s)" by (auto simp: represents_def)
  obtain lru where lru: "c_lru c = Some lru" "\<And>j b. map_of lru j = Some b \<longleftrightarrow> b \<in> set xs \<and> entry_key c b = j"
    using listedD [OF x(1)] by blast
  show ?thesis
  proof (cases "map_of lru k")
    case None
    have "k \<notin> fst ` set s"
    proof
      assume "k \<in> fst ` set s"
      then have "k \<in> set (map (entry_key c) xs)" using x(3) by simp
      with None lru(2) [of k] show False by auto
    qed
    then have "without k s = s" by (rule without_id)
    with r None cap lru(1) show ?thesis by (cases "c_capacity c") (simp_all add: cache_remove_def)
  next
    case (Some a)
    note u = unlink_entry_listed [OF x(1) lru(1) Some]
    let ?c = "unlink_entry k a lru c"
    from lru(2) Some have "k \<in> set (map (entry_key c) xs)" by auto
    then have k: "map_of d k \<noteq> None" unfolding x(3) x(4) by (simp add: map_of_eq_None_iff)
    let ?c' = "?c\<lparr>c_data := Some (adel k d), c_size := c_size c - 1\<rparr>"
    have "cache_remove k c = (Inr (), ?c')"
      using cap lru(1) Some k u(3,4) x(2) by (cases "c_capacity c") (auto simp: cache_remove_def remove_data_def)
    moreover have "represents ?c' (without k s)" unfolding represents_def
    proof (intro conjI exI)
      show "listed ?c' (others c k xs)" using u(1) by (simp add: listed_def entry_key_def [abs_def])
      have "map (entry_key ?c') (others c k xs) = map (entry_key c) (others c k xs)" using u(2) by (simp add: entry_key_def)
      then show "map (entry_key ?c') (others c k xs) = map fst (without k s)" using others_without [OF x(3)] by simp
      show "c_size ?c' = int (length (without k s))" using size k x(4) length_without [OF represents_distinct [OF r]] by simp
      show "\<forall>j. map_of (adel k d) j = map_of (without k s) j" using x(4) by (simp add: map_of_without)
    qed (use cap u in simp_all)
    ultimately show ?thesis using u(5) by auto
  qed
qed

text \<open>\<open>get\<close>.\<close>

lemma represents_cong: "represents c s \<Longrightarrow> map fst s = map fst t \<Longrightarrow> map_of s = map_of t \<Longrightarrow> represents c t"
  unfolding represents_def by (metis length_map)

lemma get_represents:
  assumes r: "represents c s"
  shows "\<exists>c'. cache_get k c = (Inr (map_of s k), c') \<and> represents c' (spec_get k s) \<and> c_capacity c' = c_capacity c"
proof -
  from r obtain xs d where x: "listed c xs" "c_data c = Some d" "map (entry_key c) xs = map fst s" "\<And>k. map_of d k = map_of s k"
    and cap: "c_capacity c \<noteq> None" and size: "c_size c = int (length s)" by (auto simp: represents_def)
  obtain lru where lru: "c_lru c = Some lru" "\<And>j b. map_of lru j = Some b \<longleftrightarrow> b \<in> set xs \<and> entry_key c b = j"
    using listedD [OF x(1)] by blast
  have hit: "map_of lru k = None \<longleftrightarrow> map_of s k = None"
  proof -
    have "map_of lru k = None \<longleftrightarrow> k \<notin> set (map (entry_key c) xs)"
      using lru(2) [of k] by (auto simp: not_Some_eq [symmetric] simp del: not_Some_eq)
    then show ?thesis unfolding x(3) by (simp add: map_of_eq_None_iff)
  qed
  show ?thesis
  proof (cases "map_of lru k")
    case None
    with hit r cap lru(1) show ?thesis
      by (cases "c_capacity c") (simp_all add: cache_get_def Let_def spec_get_def)
  next
    case (Some a)
    with lru(2) have a: "a \<in> set xs" "entry_key c a = k" by simp_all
    from hit Some obtain v where v: "map_of s k = Some v" by auto
    note f = refresh_listed [OF x(1) a]
    have "map (entry_key (refresh a c)) (others c k xs) = map (entry_key c) (others c k xs)" using f(2) by simp
    then have keys: "map (entry_key (refresh a c)) (others c k xs @ [a]) = map fst (without k s @ [(k, v)])"
      using f(2) a others_without [OF x(3)] by simp
    have len: "int (length (without k s @ [(k, v)])) = int (length s)"
      using length_without [OF represents_distinct [OF r], of k] v by simp
    have "represents (refresh a c) (without k s @ [(k, v)])" unfolding represents_def
      using f(1) keys len cap size x(2,4) v by (auto simp: map_of_without map_add_def split: option.split)
    moreover have "cache_get k c = (Inr (map_of s k), refresh a c)"
      using cap lru(1) Some x(2,4) by (cases "c_capacity c") (simp_all add: cache_get_def Let_def)
    ultimately show ?thesis by (simp add: spec_get_def v)
  qed
qed

text \<open>\<open>put\<close>: refresh or add the entry, store the value, and remove the stale end beyond the capacity.\<close>

lemma put_represents:
  assumes r: "represents c s" and n: "c_capacity c = Some n"
  shows "\<exists>c'. cache_put k (Some v) c = (Inr (Some v), c') \<and> represents c' (spec_put n k v s) \<and> c_capacity c' = Some n"
proof -
  let ?s = "without k s @ [(k, v)]"
  from r obtain xs d where x: "listed c xs" "c_data c = Some d" "map (entry_key c) xs = map fst s" "\<And>k. map_of d k = map_of s k"
    and cap: "c_capacity c \<noteq> None" and size: "c_size c = int (length s)" by (auto simp: represents_def)
  obtain a c1 where t: "touch k c = (Inr (), c1)" "listed c1 (others c k xs @ [a])" "entry_key c1 a = k"
      "\<forall>b \<in> set xs. entry_key c1 b = entry_key c b" "c_data c1 = c_data c" "c_size c1 = c_size c" "c_capacity c1 = c_capacity c"
    by (rule touch_listed [OF x(1) cap, of k])
  let ?c2 = "c1\<lparr>c_size := (if map_of d k = None then c_size c1 + 1 else c_size c1), c_data := Some (aput k v d)\<rparr>"
  have store: "store k v c1 = (Inr (), ?c2)" using t(5) x(2) by (simp add: store_def)
  have key2: "entry_key ?c2 = entry_key c1" by (simp add: entry_key_def [abs_def])
  have "map (entry_key c1) (others c k xs) = map (entry_key c) (others c k xs)" using t(4) by simp
  then have keys: "map (entry_key ?c2) (others c k xs @ [a]) = map fst ?s"
    unfolding key2 using t(3) others_without [OF x(3), of k] by simp
  have c2: "represents ?c2 ?s" unfolding represents_def
  proof (intro conjI exI)
    show "listed ?c2 (others c k xs @ [a])" using t(2) by (simp add: listed_def key2)
    show "c_size ?c2 = int (length ?s)"
      using t(6) size x(4) length_without [OF represents_distinct [OF r], of k] by simp
    show "\<forall>j. map_of (aput k v d) j = map_of ?s j"
      using x(4) by (auto simp: map_of_without map_add_def split: option.split)
  qed (use keys t(7) cap in simp_all)
  have n2: "c_capacity ?c2 = Some n" using t(7) n by simp
  have put: "cache_put k (Some v) c = seqM evict (ret (Some v)) ?c2"
    using t(1) store by (simp add: cache_put_def seqM_Inr)
  show ?thesis
  proof (cases "int (length ?s) > n")
    case False
    moreover have "c_size ?c2 = int (length ?s)" using c2 by (simp only: represents_def)
    ultimately have "evict ?c2 = (Inr (), ?c2)" using n2 by (simp add: evict_def)
    then have "cache_put k (Some v) c = (Inr (Some v), ?c2)" unfolding put by (simp add: seqM_Inr ret_def)
    moreover have "spec_put n k v s = ?s" using False by (simp add: spec_put_def Let_def)
    ultimately show ?thesis using c2 n2 by metis
  next
    case True
    obtain e s' where es: "?s = e # s'" by (cases ?s) auto
    have stale: "c_stale ?c2 = hd_opt (others c k xs @ [a])" using t(2) by (simp add: listed_def)
    obtain b ys where b: "others c k xs @ [a] = b # ys" by (cases "others c k xs @ [a]") auto
    have "entry_key ?c2 b = fst e" using keys unfolding b es by simp
    then have kb: "e_key (c_entries ?c2 ! b) = fst e" by (simp only: entry_key_def)
    have "evict ?c2 = cache_remove (fst e) ?c2"
      using True n2 stale b kb c2 by (simp add: evict_def represents_def del: hd_opt_simps) simp
    moreover from remove_represents [OF c2, of "fst e"] obtain c3 where
      c3: "cache_remove (fst e) ?c2 = (Inr (), c3)" "represents c3 (without (fst e) ?s)" "c_capacity c3 = Some n"
      using n2 by auto
    moreover have "without (fst e) ?s = s'"
      using represents_distinct [OF c2] without_id [of "fst e" s'] unfolding es by (simp add: without_def)
    moreover have "spec_put n k v s = s'" using True es by (simp add: spec_put_def Let_def)
    ultimately show ?thesis unfolding put by (auto simp: seqM_Inr ret_def)
  qed
qed

section \<open>Sequences of operations\<close>

datatype 'v cache_op = Put string "'v option" | Get string | Remove string | RemoveAll

fun do_op :: "'v cache_op \<Rightarrow> ('v cache, 'v option) comp" where
  "do_op (Put k x) = cache_put k x"
| "do_op (Get k) = cache_get k"
| "do_op (Remove k) = seqM (cache_remove k) (ret None)"
| "do_op RemoveAll = seqM cache_removeAll (ret None)"

fun run_cache :: "'v cache_op list \<Rightarrow> ('v cache, 'v option list) comp" where
  "run_cache [] = ret []"
| "run_cache (p # ps) = bindM (do_op p) (\<lambda>x. bindM (run_cache ps) (\<lambda>xs. ret (x # xs)))"

fun spec_op :: "int \<Rightarrow> 'v cache_op \<Rightarrow> 'v recent \<Rightarrow> 'v option \<times> 'v recent" where
  "spec_op n (Put k None) s = (None, s)"
| "spec_op n (Put k (Some v)) s = (Some v, spec_put n k v s)"
| "spec_op n (Get k) s = (map_of s k, spec_get k s)"
| "spec_op n (Remove k) s = (None, without k s)"
| "spec_op n RemoveAll s = (None, [])"

fun spec_run :: "int \<Rightarrow> 'v cache_op list \<Rightarrow> 'v recent \<Rightarrow> 'v option list \<times> 'v recent" where
  "spec_run n [] s = ([], s)"
| "spec_run n (p # ps) s = (case spec_op n p s of (x, t) \<Rightarrow> case spec_run n ps t of (xs, u) \<Rightarrow> (x # xs, u))"

lemma op_refines:
  assumes r: "represents c s" and n: "c_capacity c = Some n"
  shows "\<exists>c'. do_op p c = (Inr (fst (spec_op n p s)), c') \<and> represents c' (snd (spec_op n p s)) \<and> c_capacity c' = Some n"
proof (cases p)
  case (Put k x)
  with put_represents [OF r n] r n show ?thesis by (cases x) (auto simp: cache_put_def ret_def)
next
  case (Get k)
  with get_represents [OF r] n show ?thesis by auto
next
  case (Remove k)
  with remove_represents [OF r, of k] n show ?thesis by (auto simp: seqM_Inr ret_def)
next
  case RemoveAll
  let ?c = "c\<lparr>c_data := Some [], c_size := 0, c_lru := Some [], c_fresh := None, c_stale := None\<rparr>"
  have "represents ?c []" using n unfolding represents_def by (auto simp: listed_def chained_def)
  with RemoveAll n show ?thesis by (simp add: cache_removeAll_def seqM_Inr ret_def)
qed

lemma run_refines:
  "represents c s \<Longrightarrow> c_capacity c = Some n \<Longrightarrow>
    \<exists>c'. run_cache ps c = (Inr (fst (spec_run n ps s)), c') \<and> represents c' (snd (spec_run n ps s)) \<and> c_capacity c' = Some n"
proof (induction ps arbitrary: c s)
  case (Cons p ps)
  from op_refines [OF Cons.prems, of p] obtain c1 where c1: "do_op p c = (Inr (fst (spec_op n p s)), c1)"
      "represents c1 (snd (spec_op n p s))" "c_capacity c1 = Some n" by blast
  from Cons.IH [OF c1(2,3)] c1(1) show ?case by (auto simp: ret_def split: prod.split)
qed (simp add: ret_def)

text \<open>
  C36. A cache with a capacity answers every sequence of operations like a list of entries in the
  order of their last use that loses its oldest entry beyond the capacity; no operation throws.
\<close>

theorem lru_cache_refines:
  assumes "n \<noteq> 0"
  shows "\<exists>c. run_cache ps (new_cache i (Some n)) = (Inr (fst (spec_run n ps [])), c) \<and> c_size c = int (length (snd (spec_run n ps [])))"
proof -
  have "c_capacity (new_cache i (Some n)) = Some n" using assms by (simp add: new_cache_def)
  from run_refines [OF new_represents [OF assms] this, of ps] show ?thesis unfolding represents_def by blast
qed

theorem lru_cache_refines_witness:
  "\<exists>c. run_cache [Put ''a'' (Some (1::nat)), Put ''b'' (Some 2), Get ''a'', Put ''c'' (Some 3), Get ''b'', Get ''a'', Get ''c'']
      (new_cache ''t'' (Some 2)) = (Inr [Some 1, Some 2, Some 1, Some 3, None, Some 1, Some 3], c) \<and> c_size c = 2"
proof -
  let ?ps = "[Put ''a'' (Some (1::nat)), Put ''b'' (Some 2), Get ''a'', Put ''c'' (Some 3), Get ''b'', Get ''a'', Get ''c'']"
  have "spec_run 2 ?ps [] = ([Some 1, Some 2, Some 1, Some 3, None, Some 1, Some 3], [(''a'', 1), (''c'', 3)])"
    by (simp add: spec_put_def spec_get_def without_def)
  with lru_cache_refines [of 2 ?ps "''t''"] show ?thesis by simp
qed

section \<open>What the capacity guarantees\<close>



















section \<open>A cache without a capacity\<close>

text \<open>It is a store of the interface, and a run over it keeps what was put last.\<close>

interpretation plain_cache: removable_store "new_cache i None" "\<lambda>k v c. snd (cache_put k (Some v) c)"
  "\<lambda>c k. case fst (cache_get k c) of Inr x \<Rightarrow> x | Inl e \<Rightarrow> None" "\<lambda>c. c_capacity c = None \<and> c_data c \<noteq> None"
  "\<lambda>k c. snd (cache_remove k c)" for i :: string
  by unfold_locales
    (auto simp: new_cache_def cache_put_def touch_def store_def evict_def cache_get_def cache_remove_def remove_data_def
      Let_def comp_defs)

section \<open>Destroyed caches\<close>

text \<open>A destroyed cache is off the list and every use of it throws, until \<open>removeAll\<close> revives it.\<close>

lemma destroyed_throws:
  assumes "a < length (f_objects s)" and "cache_destroy a s = (Inr (), t)"
  shows "\<exists>e. fst (cache_get k (f_objects t ! a)) = Inl e" "\<exists>e. fst (cache_remove k (f_objects t ! a)) = Inl e"
    "\<exists>e. fst (cache_put k (Some v) (f_objects t ! a)) = Inl e" "c_id (f_objects s ! a) \<notin> set (akeys (f_caches t))"
  using assms by (auto simp: cache_destroy_def Let_def cache_get_def cache_remove_def remove_data_def cache_put_def
      touch_def store_def comp_defs akeys_def adel_def)

end
