(* ===== verification/NgParse.thy ===== *)
theory NgParse
  imports NgInterpProps
begin

text \<open>
  The service \<open>$parse\<close> of \<open>js/angular.js\<close>: the cache of parsed expressions, the choice of the
  way an expression is watched, the watch of the inputs of an expression, one-time watches and
  interceptors. Not here: \<open>isAllDefined\<close> of the one-time watch of a literal.
\<close>

section \<open>Parsed expressions\<close>

text \<open>\<open>$$watchDelegate\<close>.\<close>

datatype delegate = ConstantWatch | OneTimeLiteralWatch | OneTimeWatch | InputsWatch

record 'n parsed =
  p_code :: "'n args \<Rightarrow> ('n, 'n val) eval"
  p_inputs :: "'n code list option"
  p_delegate :: "delegate option"
  p_compiled :: "'n compiled option"

definition watch_delegate :: "bool \<Rightarrow> 'n compiled \<Rightarrow> delegate option" where
  "watch_delegate oneTime c =
    (if fn_constant c then Some ConstantWatch
     else if oneTime then Some (if fn_literal c then OneTimeLiteralWatch else OneTimeWatch)
     else if fn_inputs c \<noteq> None then Some InputsWatch
     else None)"

definition parsed_of :: "bool \<Rightarrow> 'n compiled \<Rightarrow> 'n parsed" where
  "parsed_of oneTime c =
    \<lparr>p_code = fn_code c, p_inputs = fn_inputs c, p_delegate = watch_delegate oneTime c, p_compiled = Some c\<rparr>"

text \<open>The two caches, for expressions with and without the expensive checks.\<close>

record 'n parse_caches =
  cacheDefault :: "(string \<times> 'n parsed) list"
  cacheExpensive :: "(string \<times> 'n parsed) list"

definition the_cache :: "bool \<Rightarrow> 'n parse_caches \<Rightarrow> (string \<times> 'n parsed) list" where
  "the_cache expensive cs = (if expensive then cacheExpensive cs else cacheDefault cs)"

definition keep_parsed :: "bool \<Rightarrow> string \<Rightarrow> 'n parsed \<Rightarrow> 'n parse_caches \<Rightarrow> 'n parse_caches" where
  "keep_parsed expensive k p cs =
    (if expensive then cs\<lparr>cacheExpensive := aput k p (cacheExpensive cs)\<rparr> else cs\<lparr>cacheDefault := aput k p (cacheDefault cs)\<rparr>)"

text \<open>What is parsed when the cache has nothing; None only if parsing did not end (\<open>parsing_ends\<close>).\<close>

definition parse_fresh :: "'n realm \<Rightarrow> bool \<Rightarrow> string \<Rightarrow> (js_error + 'n parsed) option" where
  "parse_fresh env expensive k =
    (let oneTime = (take 2 k = ''::'');
         text = (if oneTime then drop 2 k else k)
     in map_option (map_sum id (parsed_of oneTime)) (parse_expression env text expensive))"

definition parse_string :: "'n realm \<Rightarrow> string \<Rightarrow> bool \<Rightarrow> 'n parse_caches \<Rightarrow> ((js_error + 'n parsed) \<times> 'n parse_caches) option" where
  "parse_string env exp expensive cs =
    (let k = trim exp in
     case map_of (the_cache expensive cs) k of
       Some p \<Rightarrow> Some (Inr p, cs)
     | None \<Rightarrow> (case parse_fresh env expensive k of
           None \<Rightarrow> None
         | Some (Inl e) \<Rightarrow> Some (Inl e, cs)
         | Some (Inr p) \<Rightarrow> Some (Inr p, keep_parsed expensive k p cs)))"

section \<open>Interceptors\<close>

text \<open>An interceptor is a function of the value, the scope and the locals; it may be \<open>$stateful\<close>.\<close>

record 'n interceptor =
  i_fn :: "'n val \<Rightarrow> 'n val \<Rightarrow> 'n val \<Rightarrow> ('n, 'n val) eval"
  i_stateful :: bool

definition regular_code :: "bool \<Rightarrow> 'n parsed \<Rightarrow> 'n interceptor \<Rightarrow> 'n args \<Rightarrow> ('n, 'n val) eval" where
  "regular_code useInputs p f a =
    bindM (case a_inputs a of
        Some vs \<Rightarrow> if useInputs then ret (if vs = [] then VUndefined else hd vs) else p_code p a
      | None \<Rightarrow> p_code p a)
      (\<lambda>v. i_fn f v (a_scope a) (a_locals a))"

definition oneTime_code :: "'n parsed \<Rightarrow> 'n interceptor \<Rightarrow> 'n args \<Rightarrow> ('n, 'n val) eval" where
  "oneTime_code p f a = bindM (p_code p a) (\<lambda>v.
     bindM (i_fn f v (a_scope a) (a_locals a)) (\<lambda>r. ret (if v \<noteq> VUndefined then r else v)))"

definition addInterceptor :: "'n parsed \<Rightarrow> 'n interceptor option \<Rightarrow> 'n parsed" where
  "addInterceptor p interceptor = (case interceptor of
     None \<Rightarrow> p
   | Some f \<Rightarrow>
      (let regular = (p_delegate p \<noteq> Some OneTimeLiteralWatch \<and> p_delegate p \<noteq> Some OneTimeWatch);
           propagate = (p_delegate p \<noteq> None \<and> p_delegate p \<noteq> Some InputsWatch);
           watchInputs = (\<not> propagate \<and> \<not> i_stateful f);
           useInputs = (watchInputs \<and> p_inputs p = None)
       in \<lparr>p_code = (if regular then regular_code useInputs p f else oneTime_code p f),
           p_inputs = (if watchInputs then
               Some (case p_inputs p of Some is \<Rightarrow> is | None \<Rightarrow> [with_value (p_code p)]) else None),
           p_delegate = (if propagate then p_delegate p else if watchInputs then Some InputsWatch else None),
           p_compiled = None\<rparr>))"

text \<open>\<open>$parse\<close> of a text.\<close>

definition ng_parse :: "'n realm \<Rightarrow> string \<Rightarrow> 'n interceptor option \<Rightarrow> bool \<Rightarrow> 'n parse_caches \<Rightarrow>
    ((js_error + 'n parsed) \<times> 'n parse_caches) option" where
  "ng_parse env exp interceptor expensive cs =
    map_option (map_prod (map_sum id (\<lambda>p. addInterceptor p interceptor)) id) (parse_string env exp expensive cs)"

section \<open>Watching the inputs\<close>

text \<open>
  \<open>vof\<close> is what \<open>valueOf\<close> of an object answers; a primitive answers itself. The mark no value
  equals, which the watch starts with, is None.
\<close>

definition getValueOf :: "(nat \<Rightarrow> ('n, 'n val) eval) \<Rightarrow> 'n val \<Rightarrow> ('n, 'n val) eval" where
  "getValueOf vof v = (case v of VRef r \<Rightarrow> vof r | _ \<Rightarrow> ret v)"

text \<open>\<open>typeof v === 'object'\<close>.\<close>

definition typeof_object :: "'n realm \<Rightarrow> 'n val \<Rightarrow> bool" where
  "typeof_object env v = (case v of VNull \<Rightarrow> True | VRef r \<Rightarrow> \<not> callable env r | _ \<Rightarrow> False)"

definition same_primitive :: "'n realm \<Rightarrow> 'n val \<Rightarrow> 'n val option \<Rightarrow> bool" where
  "same_primitive env new old = (case old of
     None \<Rightarrow> False
   | Some w \<Rightarrow> val_strict_eq env new w \<or> \<not> val_strict_eq env new new \<and> \<not> val_strict_eq env w w)"

definition expressionInputDirtyCheck ::
    "'n realm \<Rightarrow> (nat \<Rightarrow> ('n, 'n val) eval) \<Rightarrow> 'n val \<Rightarrow> 'n val option \<Rightarrow> ('n, bool) eval" where
  "expressionInputDirtyCheck env vof new old =
    (if nullish new \<or> (case old of Some w \<Rightarrow> nullish w | None \<Rightarrow> False) then
       ret (case old of Some w \<Rightarrow> val_strict_eq env new w | None \<Rightarrow> False)
     else if typeof_object env new then
       bindM (getValueOf vof new) (\<lambda>v. if typeof_object env v then ret False else ret (same_primitive env v old))
     else ret (same_primitive env new old))"

text \<open>What a watch keeps: \<open>oldInputValueOfValues\<close>, \<open>oldInputValues\<close> and \<open>lastResult\<close>.\<close>

record 'n input_watch =
  w_olds :: "'n val option list"
  w_values :: "'n val list"
  w_last :: "'n val"

definition new_input_watch :: "nat \<Rightarrow> 'n input_watch" where
  "new_input_watch n = \<lparr>w_olds = replicate n None, w_values = replicate n VNull, w_last = VUndefined\<rparr>"

text \<open>\<open>newInputValue && getValueOf(newInputValue)\<close>.\<close>

definition value_kept :: "'n realm \<Rightarrow> (nat \<Rightarrow> ('n, 'n val) eval) \<Rightarrow> 'n val \<Rightarrow> ('n, 'n val) eval" where
  "value_kept env vof v = (if val_truthy env v then getValueOf vof v else ret v)"

definition only_scope :: "'n val \<Rightarrow> 'n val list option \<Rightarrow> 'n args" where
  "only_scope scope inputs = \<lparr>a_scope = scope, a_locals = VUndefined, a_assign = VUndefined, a_inputs = inputs\<rparr>"

text \<open>A computation that changes the watch besides the heap; what it changed before a throw stays.\<close>

type_synonym ('n, 'a) watching = "'n input_watch \<Rightarrow> 'n heap \<Rightarrow> (js_error + 'a) \<times> 'n input_watch \<times> 'n heap"

definition w_lift :: "('n, 'a) eval \<Rightarrow> ('n, 'a) watching" where
  "w_lift m w h = (case m h of (r, h') \<Rightarrow> (r, w, h'))"

definition w_bind :: "('n, 'a) watching \<Rightarrow> ('a \<Rightarrow> ('n, 'b) watching) \<Rightarrow> ('n, 'b) watching" where
  "w_bind m f w h = (case m w h of (Inl e, w', h') \<Rightarrow> (Inl e, w', h') | (Inr x, w', h') \<Rightarrow> f x w' h')"

definition w_update :: "('n input_watch \<Rightarrow> 'n input_watch) \<Rightarrow> ('n, unit) watching" where
  "w_update f w h = (Inr (), f w, h)"

definition w_read :: "('n input_watch \<Rightarrow> 'a) \<Rightarrow> ('n, 'a) watching" where
  "w_read f w h = (Inr (f w), w, h)"

text \<open>The watch of an expression with one input.\<close>

definition expressionInputWatch ::
    "'n realm \<Rightarrow> (nat \<Rightarrow> ('n, 'n val) eval) \<Rightarrow> 'n code \<Rightarrow> ('n args \<Rightarrow> ('n, 'n val) eval) \<Rightarrow> 'n val \<Rightarrow> ('n, 'n val) watching" where
  "expressionInputWatch env vof input code scope =
    w_bind (w_lift (value_of input (only_scope scope None))) (\<lambda>new.
    w_bind (w_read (\<lambda>w. hd (w_olds w))) (\<lambda>old.
    w_bind (w_lift (expressionInputDirtyCheck env vof new old)) (\<lambda>unchanged.
    w_bind (if unchanged then w_read (\<lambda>w. ())
      else
        w_bind (w_lift (code (only_scope scope (Some [new])))) (\<lambda>r.
        w_bind (w_update (\<lambda>w. w\<lparr>w_last := r\<rparr>)) (\<lambda>_.
        w_bind (w_lift (value_kept env vof new)) (\<lambda>v. w_update (\<lambda>w. w\<lparr>w_olds := [Some v]\<rparr>))))) (\<lambda>_.
    w_read w_last))))"

text \<open>With several inputs: the loop over them, from index \<open>i\<close> on, answers whether one has changed.\<close>

fun check_inputs ::
    "'n realm \<Rightarrow> (nat \<Rightarrow> ('n, 'n val) eval) \<Rightarrow> 'n val \<Rightarrow> nat \<Rightarrow> 'n code list \<Rightarrow> bool \<Rightarrow> ('n, bool) watching" where
  "check_inputs env vof scope i [] changed = w_read (\<lambda>w. changed)"
| "check_inputs env vof scope i (input # inputs) changed =
    w_bind (w_lift (value_of input (only_scope scope None))) (\<lambda>new.
    w_bind (w_read (\<lambda>w. w_olds w ! i)) (\<lambda>old.
    w_bind (if changed then w_read (\<lambda>w. True)
      else w_bind (w_lift (expressionInputDirtyCheck env vof new old)) (\<lambda>unchanged. w_read (\<lambda>w. \<not> unchanged))) (\<lambda>changed'.
    w_bind (if changed' then
        w_bind (w_update (\<lambda>w. w\<lparr>w_values := (w_values w)[i := new]\<rparr>)) (\<lambda>_.
        w_bind (w_lift (value_kept env vof new)) (\<lambda>v. w_update (\<lambda>w. w\<lparr>w_olds := (w_olds w)[i := Some v]\<rparr>)))
      else w_read (\<lambda>w. ())) (\<lambda>_.
    check_inputs env vof scope (Suc i) inputs changed'))))"

definition expressionInputsWatch ::
    "'n realm \<Rightarrow> (nat \<Rightarrow> ('n, 'n val) eval) \<Rightarrow> 'n code list \<Rightarrow> ('n args \<Rightarrow> ('n, 'n val) eval) \<Rightarrow> 'n val \<Rightarrow> ('n, 'n val) watching" where
  "expressionInputsWatch env vof inputs code scope =
    w_bind (check_inputs env vof scope 0 inputs False) (\<lambda>changed.
    w_bind (if changed then
        w_bind (w_read w_values) (\<lambda>vs.
        w_bind (w_lift (code (only_scope scope (Some vs)))) (\<lambda>r. w_update (\<lambda>w. w\<lparr>w_last := r\<rparr>)))
      else w_read (\<lambda>w. ())) (\<lambda>_.
    w_read w_last))"

definition inputsWatch ::
    "'n realm \<Rightarrow> (nat \<Rightarrow> ('n, 'n val) eval) \<Rightarrow> 'n code list \<Rightarrow> ('n args \<Rightarrow> ('n, 'n val) eval) \<Rightarrow> 'n val \<Rightarrow> ('n, 'n val) watching" where
  "inputsWatch env vof inputs code scope =
    (case inputs of [input] \<Rightarrow> expressionInputWatch env vof input code scope
     | _ \<Rightarrow> expressionInputsWatch env vof inputs code scope)"

section \<open>One-time and constant watches\<close>

text \<open>What a listener does, in order; \<open>PostDigest\<close> queues the check at the end of the digest.\<close>

datatype 'n watch_action = CallListener "'n val" | PostDigest | Unwatch

text \<open>The listener of the application, if there is one, returns or throws.\<close>

definition oneTimeListener :: "('n val \<Rightarrow> js_error + unit) option \<Rightarrow> 'n val \<Rightarrow> js_error option \<times> 'n watch_action list \<times> 'n val" where
  "oneTimeListener listener v =
    (let called = (case listener of Some f \<Rightarrow> [CallListener v] | None \<Rightarrow> []) in
     case (case listener of Some f \<Rightarrow> f v | None \<Rightarrow> Inr ()) of
       Inl e \<Rightarrow> (Some e, called, v)
     | Inr _ \<Rightarrow> (None, called @ (if v \<noteq> VUndefined then [PostDigest] else []), v))"

definition oneTimeCheck :: "'n val \<Rightarrow> 'n watch_action list" where
  "oneTimeCheck lastValue = (if lastValue \<noteq> VUndefined then [Unwatch] else [])"

definition constantListener :: "('n val \<Rightarrow> js_error + unit) option \<Rightarrow> 'n val \<Rightarrow> js_error option \<times> 'n watch_action list" where
  "constantListener listener v =
    (let called = (case listener of Some f \<Rightarrow> [CallListener v] | None \<Rightarrow> []) in
     case (case listener of Some f \<Rightarrow> f v | None \<Rightarrow> Inr ()) of
       Inl e \<Rightarrow> (Some e, called)
     | Inr _ \<Rightarrow> (None, called @ [Unwatch]))"

end
