(* ===== verification/NgParseProps.thy ===== *)
theory NgParseProps
  imports NgParse
begin

text \<open>
  What \<open>$parse\<close> promises: a cached expression is the one parsing would give, and watching the
  inputs of an expression shows the same values as evaluating it in every digest.
\<close>

section \<open>The cache\<close>

definition caches_ok :: "'n realm \<Rightarrow> 'n parse_caches \<Rightarrow> bool" where
  "caches_ok env cs \<longleftrightarrow> (\<forall>b k p. map_of (the_cache b cs) k = Some p \<longrightarrow> parse_fresh env b k = Some (Inr p))"

lemma empty_caches_ok: "caches_ok env \<lparr>cacheDefault = [], cacheExpensive = []\<rparr>"
  by (simp add: caches_ok_def the_cache_def)

lemma the_cache_keep: "the_cache b (keep_parsed c k p cs) = (if b = c then aput k p (the_cache b cs) else the_cache b cs)"
  by (simp add: the_cache_def keep_parsed_def)

lemma parse_string_fresh:
  assumes "caches_ok env cs"
  obtains r cs' where "parse_fresh env b (trim exp) = Some r" "parse_string env exp b cs = Some (r, cs')" "caches_ok env cs'"
proof (cases "map_of (the_cache b cs) (trim exp)")
  case (Some p)
  with assms have "parse_fresh env b (trim exp) = Some (Inr p)" by (simp add: caches_ok_def)
  with Some assms that show thesis by (simp add: parse_string_def Let_def)
next
  case None
  have "\<exists>z. parse_expression env t b = Some z" for t
    using parsing_ends [of t] by (auto simp: parse_expression_def split: sum.split)
  then obtain r where r: "parse_fresh env b (trim exp) = Some r" by (auto simp: parse_fresh_def Let_def) metis
  show thesis
  proof (cases r)
    case (Inl e)
    with None r assms that show thesis by (simp add: parse_string_def Let_def)
  next
    case (Inr p)
    have "caches_ok env (keep_parsed b (trim exp) p cs)"
      using assms r Inr by (auto simp: caches_ok_def the_cache_keep)
    with None r Inr that show thesis by (simp add: parse_string_def Let_def)
  qed
qed

section \<open>Watching the inputs\<close>

lemma w_simps:
  "w_lift m w h = (fst (m h), w, snd (m h))"
  "w_read f w h = (Inr (f w), w, h)"
  "w_update g w h = (Inr (), g w, h)"
  "m' h = (Inr x, h') \<Longrightarrow> w_bind (w_lift m') j w h = j x w h'"
  "w_bind (w_read f') k w h = k (f' w) w h"
  "w_bind (w_update g) n w h = n () (g w) h"
  by (simp_all add: w_lift_def w_read_def w_update_def w_bind_def split: prod.split)

lemma w_assoc: "w_bind (w_bind m f) g = w_bind m (\<lambda>x. w_bind (f x) g)"
  by (intro ext) (simp add: w_bind_def split: prod.split sum.split)

text \<open>For primitive values the check compares them, NaN with itself as equal.\<close>

definition same_value :: "'n realm \<Rightarrow> 'n val \<Rightarrow> 'n val \<Rightarrow> bool" where
  "same_value env v w =
    (if nullish v \<or> nullish w then val_strict_eq env v w
     else val_strict_eq env v w \<or> \<not> val_strict_eq env v v \<and> \<not> val_strict_eq env w w)"

lemma same_value_refl: "same_value env v v"
  by (cases v) (auto simp: same_value_def nullish_def)

lemma check_primitive:
  assumes "\<not> is_ref v"
  shows "expressionInputDirtyCheck env vof v old h = (Inr (case old of Some w \<Rightarrow> same_value env v w | None \<Rightarrow> False), h)"
proof -
  from assms have "\<not> nullish v \<Longrightarrow> \<not> typeof_object env v"
    by (cases v) (auto simp: is_ref_def nullish_def typeof_object_def)
  then show ?thesis
    by (auto simp: expressionInputDirtyCheck_def same_value_def same_primitive_def ret_def split: option.split)
qed

lemma kept_primitive: "\<not> is_ref v \<Longrightarrow> value_kept env vof v h = (Inr v, h)"
  by (cases v) (auto simp: value_kept_def getValueOf_def is_ref_def ret_def)

text \<open>The inputs read primitive values and leave the heap alone.\<close>

definition reads :: "'n code list \<Rightarrow> 'n val \<Rightarrow> 'n heap \<Rightarrow> 'n val list \<Rightarrow> bool" where
  "reads inputs scope h vs \<longleftrightarrow> list_all2 (\<lambda>c v. value_of c (only_scope scope None) h = (Inr v, h) \<and> \<not> is_ref v) inputs vs"

text \<open>
  The loop from index \<open>i\<close>: it leaves the values before \<open>i\<close>, and those from \<open>i\<close> on are the ones
  read or the same; when it reports no change it has changed nothing.
\<close>

definition kept_values :: "nat \<Rightarrow> 'n input_watch \<Rightarrow> bool" where
  "kept_values n w \<longleftrightarrow> length (w_olds w) = n \<and> length (w_values w) = n \<and>
    (\<forall>j < n. w_olds w ! j = None \<or> w_olds w ! j = Some (w_values w ! j))"

lemma check_inputs_values:
  "reads inputs scope h vs \<Longrightarrow> i + length inputs = n \<Longrightarrow> kept_values n w \<Longrightarrow>
    \<exists>c w'. check_inputs env vof scope i inputs changed w h = (Inr c, w', h) \<and> kept_values n w' \<and> w_last w' = w_last w \<and>
      (changed \<longrightarrow> c) \<and> (\<not> c \<longrightarrow> w' = w) \<and> (\<forall>j < i. w_olds w' ! j = w_olds w ! j \<and> w_values w' ! j = w_values w ! j) \<and>
      (\<forall>j < length inputs. w_olds w' ! (i + j) = Some (w_values w' ! (i + j)) \<and> same_value env (vs ! j) (w_values w' ! (i + j)))"
proof (induction inputs arbitrary: i vs w changed)
  case Nil
  then show ?case by (auto simp: w_simps)
next
  case (Cons input inputs)
  from Cons.prems(1) obtain v vs' where vs: "vs = v # vs'" "value_of input (only_scope scope None) h = (Inr v, h)" "\<not> is_ref v"
      "reads inputs scope h vs'" by (auto simp: reads_def list_all2_Cons1)
  have i: "i < n" "Suc i + length inputs = n" using Cons.prems(2) by simp_all
  have len: "length (w_olds w) = n" "length (w_values w) = n" using Cons.prems(3) by (simp_all add: kept_values_def)
  let ?same = "case w_olds w ! i of Some u \<Rightarrow> same_value env v u | None \<Rightarrow> False"
  let ?c = "changed \<or> \<not> ?same"
  let ?w = "if ?c then w\<lparr>w_values := (w_values w)[i := v], w_olds := (w_olds w)[i := Some v]\<rparr> else w"
  have k: "kept_values n ?w" using Cons.prems(3) i(1) by (auto simp: kept_values_def nth_list_update)
  have binds:
    "w_bind (w_lift (value_of input (only_scope scope None))) g u h = g v u h"
    "w_bind (w_lift (expressionInputDirtyCheck env vof v old)) g' u h = g' (case old of Some u \<Rightarrow> same_value env v u | None \<Rightarrow> False) u h"
    "w_bind (w_lift (value_kept env vof v)) g u h = g v u h" for g g' u old
    by (rule w_simps(4), fact vs(2), rule w_simps(4), rule check_primitive [OF vs(3)], rule w_simps(4), rule kept_primitive [OF vs(3)])
  have step: "check_inputs env vof scope i (input # inputs) changed w h = check_inputs env vof scope (Suc i) inputs ?c ?w h"
    by (cases changed; cases ?same)
      (simp_all add: binds w_simps w_assoc)
  have here: "w_olds ?w ! i = Some (w_values ?w ! i) \<and> same_value env v (w_values ?w ! i)"
  proof (cases ?c)
    case True
    then show ?thesis using i(1) len by (simp add: same_value_refl)
  next
    case False
    with Cons.prems(3) i(1) show ?thesis by (auto simp: kept_values_def split: option.splits)
  qed
  from Cons.IH [OF vs(4) i(2) k, of ?c] obtain c w' where
    r: "check_inputs env vof scope (Suc i) inputs ?c ?w h = (Inr c, w', h)" "kept_values n w'" "w_last w' = w_last ?w"
      "?c \<longrightarrow> c" "\<not> c \<longrightarrow> w' = ?w" "\<forall>j < Suc i. w_olds w' ! j = w_olds ?w ! j \<and> w_values w' ! j = w_values ?w ! j"
      "\<forall>j < length inputs. w_olds w' ! (Suc i + j) = Some (w_values w' ! (Suc i + j)) \<and> same_value env (vs' ! j) (w_values w' ! (Suc i + j))"
    by blast
  show ?case
  proof (intro exI conjI)
    show "check_inputs env vof scope i (input # inputs) changed w h = (Inr c, w', h)" using step r(1) by (simp only:)
    show "\<forall>j < i. w_olds w' ! j = w_olds w ! j \<and> w_values w' ! j = w_values w ! j" using r(6) by simp
    show "\<forall>j < length (input # inputs). w_olds w' ! (i + j) = Some (w_values w' ! (i + j)) \<and> same_value env (vs ! j) (w_values w' ! (i + j))"
    proof (intro allI impI)
      fix j
      assume "j < length (input # inputs)"
      then show "w_olds w' ! (i + j) = Some (w_values w' ! (i + j)) \<and> same_value env (vs ! j) (w_values w' ! (i + j))"
        using here r(6) r(7) vs(1) by (cases j) simp_all
    qed
  qed (use r in \<open>simp_all split: if_splits\<close>)
qed

text \<open>
  What a watch keeps between digests: its last result is the one for the values it compares
  with; before the first digest it compares with none.
\<close>

definition watch_inv :: "nat \<Rightarrow> ('n val list \<Rightarrow> 'n val) \<Rightarrow> 'n input_watch \<Rightarrow> bool" where
  "watch_inv n F w \<longleftrightarrow>
    (if n = 1 then \<exists>old. w_olds w = [old] \<and> (\<forall>v. old = Some v \<longrightarrow> w_last w = F [v])
     else kept_values n w \<and> (w_olds w = map Some (w_values w) \<longrightarrow> w_last w = F (w_values w)))"

lemma watch_inv_new: "0 < n \<Longrightarrow> watch_inv n F (new_input_watch n)"
  by (cases n) (auto simp: watch_inv_def kept_values_def new_input_watch_def nth_Cons split: nat.split)

lemma same_value_primitive: "same_value env v w \<Longrightarrow> \<not> is_ref v \<Longrightarrow> \<not> is_ref w"
  by (cases v; cases w) (auto simp: same_value_def is_ref_def nullish_def split: if_splits)

lemma reads_primitive: "reads inputs scope h vs \<Longrightarrow> length vs = length inputs \<and> list_all (\<lambda>v. \<not> is_ref v) vs"
  by (auto simp: reads_def list_all2_conv_all_nth list_all_length)

text \<open>A function of the inputs that does not tell same values apart.\<close>

definition ignores_same :: "'n realm \<Rightarrow> ('n val list \<Rightarrow> 'n val) \<Rightarrow> bool" where
  "ignores_same env F \<longleftrightarrow> (\<forall>vs ws. list_all2 (same_value env) vs ws \<longrightarrow> F vs = F ws)"

lemma ignores_sameD: "ignores_same env F \<Longrightarrow> list_all2 (same_value env) vs ws \<Longrightarrow> F vs = F ws"
  by (simp add: ignores_same_def)

text \<open>One digest: the watch answers what evaluating with the values read gives.\<close>

lemma one_input_step:
  assumes inputs: "reads [input] scope h [v]"
    and code: "code (only_scope scope (Some [v])) h = (Inr (F [v]), h)"
    and F: "ignores_same env F"
    and w: "watch_inv 1 F w"
  shows "\<exists>w'. expressionInputWatch env vof input code scope w h = (Inr (F [v]), w', h) \<and> watch_inv 1 F w'"
proof -
  from inputs have v: "value_of input (only_scope scope None) h = (Inr v, h)" "\<not> is_ref v" by (simp_all add: reads_def)
  from w obtain old where old: "w_olds w = [old]" "\<And>u. old = Some u \<Longrightarrow> w_last w = F [u]" by (auto simp: watch_inv_def)
  have binds:
    "w_bind (w_lift (value_of input (only_scope scope None))) g u h = g v u h"
    "w_bind (w_lift (expressionInputDirtyCheck env vof v old)) g' u h = g' (case old of Some u \<Rightarrow> same_value env v u | None \<Rightarrow> False) u h"
    "w_bind (w_lift (value_kept env vof v)) g u h = g v u h"
    "w_bind (w_lift (code (only_scope scope (Some [v])))) g u h = g (F [v]) u h" for g g' u
    by (rule w_simps(4), fact v(1), rule w_simps(4), rule check_primitive [OF v(2)], rule w_simps(4), rule kept_primitive [OF v(2)],
        rule w_simps(4), fact code)
  show ?thesis
  proof (cases "case old of Some u \<Rightarrow> same_value env v u | None \<Rightarrow> False")
    case True
    then obtain u where u: "old = Some u" "same_value env v u" by (auto split: option.splits)
    with ignores_sameD [OF F, of "[v]" "[u]"] old(2) have last: "w_last w = F [v]" by simp
    have "expressionInputWatch env vof input code scope w h = (Inr (w_last w), w, h)"
      using True old(1) by (simp add: expressionInputWatch_def binds w_simps w_assoc)
    with last w show ?thesis by metis
  next
    case False
    let ?w = "w\<lparr>w_last := F [v], w_olds := [Some v]\<rparr>"
    have "expressionInputWatch env vof input code scope w h = (Inr (F [v]), ?w, h)"
      using False old(1) by (simp add: expressionInputWatch_def binds w_simps w_assoc)
    moreover have "watch_inv 1 F ?w" by (simp add: watch_inv_def)
    ultimately show ?thesis by blast
  qed
qed

lemma many_inputs_step:
  assumes inputs: "reads inputs scope h vs" "length inputs = n" "n \<noteq> 1"
    and code: "\<And>vs. length vs = n \<Longrightarrow> list_all (\<lambda>v. \<not> is_ref v) vs \<Longrightarrow> code (only_scope scope (Some vs)) h = (Inr (F vs), h)"
    and F: "ignores_same env F"
    and w: "watch_inv n F w"
  shows "\<exists>w'. expressionInputsWatch env vof inputs code scope w h = (Inr (F vs), w', h) \<and> watch_inv n F w'"
proof -
  from w inputs(3) have k: "kept_values n w" and l: "w_olds w = map Some (w_values w) \<longrightarrow> w_last w = F (w_values w)"
    by (simp_all add: watch_inv_def)
  from check_inputs_values [where i = 0 and changed = False and env = env and vof = vof, OF inputs(1) _ k] inputs(2) obtain c w' where
    c: "check_inputs env vof scope 0 inputs False w h = (Inr c, w', h)" "kept_values n w'" "w_last w' = w_last w" "\<not> c \<longrightarrow> w' = w"
      "\<forall>j < n. w_olds w' ! j = Some (w_values w' ! j) \<and> same_value env (vs ! j) (w_values w' ! j)"
    by auto
  note p = reads_primitive [OF inputs(1)]
  have len: "length (w_values w') = n" "length (w_olds w') = n" using c(2) by (simp_all add: kept_values_def)
  have same: "list_all2 (same_value env) vs (w_values w')" using c(5) p len inputs(2) by (simp add: list_all2_conv_all_nth)
  have prim: "list_all (\<lambda>v. \<not> is_ref v) (w_values w')"
    unfolding list_all_length
  proof (intro allI impI)
    fix j
    assume "j < length (w_values w')"
    with same p have "same_value env (vs ! j) (w_values w' ! j)" "\<not> is_ref (vs ! j)"
      by (simp_all add: list_all2_conv_all_nth list_all_length)
    then show "\<not> is_ref (w_values w' ! j)" by (rule same_value_primitive)
  qed
  have olds: "w_olds w' = map Some (w_values w')" using c(5) len by (simp add: list_eq_iff_nth_eq)
  have looped: "w_bind (check_inputs env vof scope 0 inputs False) g w h = g c w' h" for g using c(1) by (simp add: w_bind_def)
  have coded: "w_bind (w_lift (code (only_scope scope (Some (w_values w'))))) g u h = g (F (w_values w')) u h" for g u
    by (rule w_simps(4)) (rule code [OF len(1) prim])
  have run: "expressionInputsWatch env vof inputs code scope w h =
      (if c then (Inr (F (w_values w')), w'\<lparr>w_last := F (w_values w')\<rparr>, h) else (Inr (w_last w'), w', h))"
    by (simp add: expressionInputsWatch_def looped coded w_simps w_assoc)
  show ?thesis
  proof (cases c)
    case True
    have "watch_inv n F (w'\<lparr>w_last := F (w_values w')\<rparr>)" using c(2) inputs(3) by (simp add: watch_inv_def kept_values_def)
    with run True ignores_sameD [OF F same] show ?thesis by simp
  next
    case False
    with c(4) olds l have "w_last w' = F (w_values w')" by simp
    with run False ignores_sameD [OF F same] c(4) w show ?thesis by simp
  qed
qed

text \<open>The digests of a watch, each at a scope and with the heap the application has left.\<close>

fun watch_runs ::
    "'n realm \<Rightarrow> (nat \<Rightarrow> ('n, 'n val) eval) \<Rightarrow> 'n code list \<Rightarrow> ('n args \<Rightarrow> ('n, 'n val) eval) \<Rightarrow> ('n val \<times> 'n heap) list \<Rightarrow>
      'n input_watch \<Rightarrow> (js_error + 'n val) list" where
  "watch_runs env vof inputs code [] w = []"
| "watch_runs env vof inputs code ((scope, h) # ds) w =
    (case inputsWatch env vof inputs code scope w h of (r, w', h') \<Rightarrow> r # watch_runs env vof inputs code ds w')"

lemma watch_runs_exact:
  assumes "inputs \<noteq> []"
    and code: "\<And>scope h vs. length vs = length inputs \<Longrightarrow> list_all (\<lambda>v. \<not> is_ref v) vs \<Longrightarrow>
      code (only_scope scope (Some vs)) h = (Inr (F vs), h)"
    and F: "ignores_same env F"
  shows "list_all2 (\<lambda>d vs. reads inputs (fst d) (snd d) vs) ds vss \<Longrightarrow> watch_inv (length inputs) F w \<Longrightarrow>
    watch_runs env vof inputs code ds w = map (\<lambda>vs. Inr (F vs)) vss"
proof (induction ds arbitrary: vss w)
  case (Cons d ds)
  obtain scope h where d: "d = (scope, h)" by (cases d)
  with Cons.prems(1) obtain vs vss' where vs: "vss = vs # vss'" "reads inputs scope h vs"
      "list_all2 (\<lambda>d vs. reads inputs (fst d) (snd d) vs) ds vss'" by (auto simp: list_all2_Cons1)
  note p = reads_primitive [OF vs(2)]
  have "\<exists>w'. inputsWatch env vof inputs code scope w h = (Inr (F vs), w', h) \<and> watch_inv (length inputs) F w'"
  proof (cases "length inputs = 1")
    case True
    then obtain input where i: "inputs = [input]" by (auto simp: length_Suc_conv)
    with p obtain v where v: "vs = [v]" by (auto simp: length_Suc_conv)
    have "code (only_scope scope (Some [v])) h = (Inr (F [v]), h)" using code [of "[v]" scope h] p v i by simp
    from one_input_step [where F = F and env = env and vof = vof and w = w and code = code, OF vs(2) [unfolded i v] this F] Cons.prems(2)
    show ?thesis by (simp add: inputsWatch_def i v)
  next
    case False
    then have "inputsWatch env vof inputs code scope w h = expressionInputsWatch env vof inputs code scope w h"
      by (cases inputs rule: remdups_adj.cases) (simp_all add: inputsWatch_def)
    with many_inputs_step [where F = F and env = env and vof = vof and w = w and code = code, OF vs(2) refl False code F Cons.prems(2)]
    show ?thesis by simp
  qed
  then obtain w' where "inputsWatch env vof inputs code scope w h = (Inr (F vs), w', h)" "watch_inv (length inputs) F w'" by blast
  with Cons.IH [OF vs(3)] d vs(1) show ?case by simp
qed simp

text \<open>
  C38. Watching the inputs of an expression shows in every digest what evaluating it with the
  inputs' values would, whether the watch evaluates or keeps its last result: for inputs that
  read primitive values, and an expression that computes a function of them that does not tell
  values apart which the check takes as the same.
\<close>

theorem input_watch_exact:
  assumes "inputs \<noteq> []"
    and "\<And>scope h vs. length vs = length inputs \<Longrightarrow> list_all (\<lambda>v. \<not> is_ref v) vs \<Longrightarrow>
      code (only_scope scope (Some vs)) h = (Inr (F vs), h)"
    and "ignores_same env F"
    and "list_all2 (\<lambda>d vs. reads inputs (fst d) (snd d) vs) digests vss"
  shows "watch_runs env vof inputs code digests (new_input_watch (length inputs)) = map (\<lambda>vs. Inr (F vs)) vss"
  using watch_runs_exact [OF assms(1,2,3,4) watch_inv_new] assms(1) by simp

section \<open>Watches that miss something\<close>

text \<open>
  \<open>this\<close> is neither constant nor has it an input: it is watched by its inputs, of which there
  are none, and the watch answers undefined forever.
\<close>

lemma this_watched_by_no_inputs:
  "\<exists>c. parse_fresh env b ''this'' = Some (Inr c) \<and> p_delegate c = Some InputsWatch \<and> p_inputs c = Some [] \<and>
    fst (p_code c (only_scope v None) h) = Inr v \<and>
    inputsWatch env vof [] (p_code c) v (new_input_watch 0) h = (Inr VUndefined, new_input_watch 0, h)"
proof -
  have tree: "ast_of ''this'' = Some (Inr [ThisExpression])" by code_simp
  show ?thesis
    unfolding parse_fresh_def parse_expression_def Let_def
    by (simp add: tree compile_body_def getInputs_def assignableAST_def isAssignable_def isLiteral_def isConstant_def
      input_table_def e_bind_def recurse.simps parsed_of_def watch_delegate_def value_of_def bindM_def ret_def plain_def
      only_scope_def inputsWatch_def expressionInputsWatch_def w_bind_def w_read_def new_input_watch_def)
qed

text \<open>
  With several inputs the values are stored before the expression is evaluated: when it throws,
  the next digest with the same inputs shows the result of before. With one input it throws again.
\<close>

lemma throw_is_forgotten:
  assumes inputs: "reads [i, j] v h [x, y]" and throws: "code (only_scope v (Some [x, y])) h = (Inl e, h)"
  shows "watch_runs env vof [i, j] code [(v, h), (v, h)] (new_input_watch 2) = [Inl e, Inr VUndefined]"
proof -
  from inputs have x: "value_of i (only_scope v None) h = (Inr x, h)" "value_of j (only_scope v None) h = (Inr y, h)"
      "\<not> is_ref x" "\<not> is_ref y" by (simp_all add: reads_def)
  have eqs: "fst (value_of i (only_scope v None) h) = Inr x" "snd (value_of i (only_scope v None) h) = h"
    "fst (value_of j (only_scope v None) h) = Inr y" "snd (value_of j (only_scope v None) h) = h" using x by simp_all
  let ?w = "\<lparr>w_olds = [Some x, Some y], w_values = [x, y], w_last = VUndefined\<rparr>"
  have two: "new_input_watch 2 = \<lparr>w_olds = [None, None], w_values = [VNull, VNull], w_last = VUndefined\<rparr>"
    by (simp add: new_input_watch_def numeral_2_eq_2)
  have first: "inputsWatch env vof [i, j] code v (new_input_watch 2) h = (Inl e, ?w, h)"
    using x throws kept_primitive [OF x(3), of env vof h] kept_primitive [OF x(4), of env vof h]
      check_primitive [OF x(3), of env vof None h]
    by (simp add: two inputsWatch_def expressionInputsWatch_def w_bind_def w_lift_def w_read_def w_update_def)
  have second: "inputsWatch env vof [i, j] code v ?w h = (Inr VUndefined, ?w, h)"
    using x check_primitive [OF x(3), of env vof "Some x" h] check_primitive [OF x(4), of env vof "Some y" h]
    by (simp add: same_value_refl inputsWatch_def expressionInputsWatch_def w_bind_def w_lift_def w_read_def w_update_def)
  show ?thesis by (simp add: first second)
qed

section \<open>An example\<close>

lemma small_same: "same_value small_realm = (=)"
proof (intro ext)
  fix v w
  show "same_value small_realm v w = (v = w)"
    by (cases v; cases w) (auto simp: same_value_def nullish_def small_realm_def whole_numbers_def)
qed

text \<open>The sum of two numbers of the scope, watched over three digests.\<close>

theorem input_watch_exact_witness:
  "\<exists>p is. parse_fresh small_realm False ''a+b'' = Some (Inr p) \<and> p_inputs p = Some is \<and>
    (let scope = (\<lambda>x y. [\<lparr>o_props = [(key ''a'', VNum x), (key ''b'', VNum y)], o_proto = None, o_length = None\<rparr>]) in
     watch_runs small_realm (\<lambda>r. ret (VRef r)) is (p_code p) [(VRef 0, scope 1 2), (VRef 0, scope 1 2), (VRef 0, scope 1 4)]
       (new_input_watch (length is)) = [Inr (VNum 3), Inr (VNum 3), Inr (VNum 5)])"
proof -
  let ?scope = "\<lambda>x y. [\<lparr>o_props = [(key ''a'', VNum x), (key ''b'', VNum y)], o_proto = None, o_length = None\<rparr>] :: int heap"
  let ?id = "\<lambda>s. interp_identifier small_realm ''a+b'' s False NoCreate"
  let ?code = "run_body [binary_code small_realm ''+'' (input_code (?id ''a'') 0) (input_code (?id ''b'') 1)] VUndefined"
  let ?F = "\<lambda>vs. case fst (plusFn small_realm (vs ! 0) (vs ! 1) []) of Inr v \<Rightarrow> v | Inl e \<Rightarrow> VUndefined"
  have tree: "ast_of ''a+b'' = Some (Inr [BinaryExpression ''+'' (Identifier ''a'') (Identifier ''b'')])" by code_simp
  obtain p where p: "parse_fresh small_realm False ''a+b'' = Some (Inr p)" "p_inputs p = Some [?id ''a'', ?id ''b'']" "p_code p = ?code"
    unfolding parse_fresh_def parse_expression_def Let_def
    by (simp add: tree compile_body_def getInputs_def assignableAST_def isAssignable_def isLiteral_def isConstant_def
      input_table_def e_bind_def recurse.simps parsed_of_def ensureSafeMemberName_def disallowed_names_def key_def units_def
      isPossiblyDangerousMemberName_def)
  have reads: "reads [?id ''a'', ?id ''b''] (VRef 0) (?scope x y) [VNum x, VNum y]" for x y
    by (simp add: reads_def is_ref_def value_of_def only_scope_def interp_identifier_def base_of_def create_missing_def check_if_def
      read_prop_def lookup_def own_get_def key_def units_def bindM_def ret_def)
  have plus: "plusFn small_realm v w h = (Inr (?F [v, w]), h)" if "\<not> is_ref v" "\<not> is_ref w" for v w and h :: "int heap"
    using that by (auto simp: plusFn_def js_plus_def prim_of_def ret_def bindM_def is_ref_def split: val.splits)
  have code: "?code (only_scope scope (Some vs)) h = (Inr (?F vs), h)"
    if len: "length vs = length [?id ''a'', ?id ''b'']" and prim: "list_all (\<lambda>v. \<not> is_ref v) vs"
    for scope h and vs :: "int val list"
  proof -
    from len obtain v w where vs: "vs = [v, w]" by (auto simp: length_Suc_conv)
    with prim plus [of v w h] show ?thesis
      by (simp add: binary_code_def with_value_def value_of_def input_code_def only_scope_def binary_op_def plain_def bindM_def ret_def)
  qed
  have ign: "ignores_same small_realm ?F"
    by (auto simp: ignores_same_def small_same list.rel_eq)
  have "watch_runs small_realm (\<lambda>r. ret (VRef r)) [?id ''a'', ?id ''b''] ?code
      [(VRef 0, ?scope 1 2), (VRef 0, ?scope 1 2), (VRef 0, ?scope 1 4)] (new_input_watch (length [?id ''a'', ?id ''b''])) =
      map (\<lambda>vs. Inr (?F vs)) [[VNum 1, VNum 2], [VNum 1, VNum 2], [VNum 1, VNum 4]]"
    by (rule input_watch_exact [OF _ code ign]) (simp_all add: reads)
  then show ?thesis using p
    by (intro exI [of _ p] exI [of _ "[?id ''a'', ?id ''b'']"])
      (simp add: plusFn_def js_plus_def prim_of_def ret_def bindM_def is_str_def small_realm_def whole_numbers_def)
qed

end
