(* ===== verification/NgInterpolate.thy ===== *)
theory NgInterpolate
  imports NgParse
begin

text \<open>
  \<open>$interpolate\<close> of \<open>js/angular.js\<close>: a text with expressions in double braces is cut into
  pieces, and rendered with the values of the expressions in their places. The symbols are the
  defaults, which the application does not change. The array \<open>concat\<close> of the pieces belongs to
  the compiled text and is written again in every rendering. Parameters are \<open>$sce\<close> (what
  \<open>getTrusted\<close> or \<open>valueOf\<close> makes of a value) and \<open>toJson\<close> of an object.
\<close>

section \<open>Texts\<close>

definition startSymbol :: string where
  "startSymbol = ''{{''"

definition endSymbol :: string where
  "endSymbol = ''}}''"

text \<open>\<open>indexOf\<close>: the first place of a text in another.\<close>

fun find_text :: "string \<Rightarrow> string \<Rightarrow> nat option" where
  "find_text p [] = (if p = [] then Some 0 else None)"
| "find_text p (c # s) = (if take (length p) (c # s) = p then Some 0 else map_option Suc (find_text p s))"

definition index_of :: "string \<Rightarrow> string \<Rightarrow> nat \<Rightarrow> nat option" where
  "index_of s p i = map_option (\<lambda>j. i + j) (find_text p (drop i s))"

text \<open>\<open>replace\<close> with a global pattern that is a text: all places, from the left.\<close>

fun replace_all :: "nat \<Rightarrow> string \<Rightarrow> string \<Rightarrow> string \<Rightarrow> string" where
  "replace_all skip p r [] = []"
| "replace_all (Suc skip) p r (c # s) = replace_all skip p r s"
| "replace_all 0 p r (c # s) =
    (if take (length p) (c # s) = p then r @ replace_all (length p - 1) p r s else c # replace_all 0 p r s)"

text \<open>A backslash before every character of a symbol.\<close>

definition escaped :: "string \<Rightarrow> string" where
  "escaped s = concat (map (\<lambda>c. [CHR 0x5C, c]) s)"

definition unescapeText :: "string \<Rightarrow> string" where
  "unescapeText s = replace_all 0 (escaped endSymbol) endSymbol (replace_all 0 (escaped startSymbol) startSymbol s)"

section \<open>Cutting a text\<close>

text \<open>What the loop collects: \<open>concat\<close>, the expressions, and the places of their values in \<open>concat\<close>.\<close>

record pieces =
  i_concat :: "string list"
  i_expressions :: "string list"
  i_positions :: "nat list"

definition push_text :: "string \<Rightarrow> pieces \<Rightarrow> pieces" where
  "push_text s p = p\<lparr>i_concat := i_concat p @ [unescapeText s]\<rparr>"

definition push_expression :: "string \<Rightarrow> pieces \<Rightarrow> pieces" where
  "push_expression e p = p\<lparr>i_expressions := i_expressions p @ [e], i_positions := i_positions p @ [length (i_concat p)],
     i_concat := i_concat p @ [[]]\<rparr>"

definition interpolation_at :: "string \<Rightarrow> nat \<Rightarrow> (nat \<times> nat) option" where
  "interpolation_at text_in i = (case index_of text_in startSymbol i of
     None \<Rightarrow> None
   | Some s \<Rightarrow> map_option (\<lambda>e. (s, e)) (index_of text_in endSymbol (s + length startSymbol)))"

lemma index_of_ge: "index_of s p i = Some j \<Longrightarrow> i \<le> j"
  by (auto simp: index_of_def)

lemma interpolation_at_ge: "interpolation_at s i = Some (b, e) \<Longrightarrow> i \<le> b \<and> b + 2 \<le> e"
  by (auto simp: interpolation_at_def startSymbol_def dest: index_of_ge split: option.splits)

function cut_from :: "string \<Rightarrow> nat \<Rightarrow> pieces \<Rightarrow> pieces" where
  "cut_from s i p =
    (if i < length s then
       (case interpolation_at s i of
          Some (b, e) \<Rightarrow>
            cut_from s (e + length endSymbol)
              (push_expression (take (e - (b + length startSymbol)) (drop (b + length startSymbol) s))
                (if i \<noteq> b then push_text (take (b - i) (drop i s)) p else p))
        | None \<Rightarrow> push_text (drop i s) p)
     else p)"
  by pat_completeness auto
termination
  by (relation "measure (\<lambda>(s, i, p). length s - i)") (auto simp: endSymbol_def dest: interpolation_at_ge)

declare cut_from.simps [simp del]

definition cut_text :: "string \<Rightarrow> pieces" where
  "cut_text s = cut_from s 0 \<lparr>i_concat = [], i_expressions = [], i_positions = []\<rparr>"

section \<open>Rendering\<close>

text \<open>
  What \<open>$interpolate\<close> is given: the values of the language, \<open>toJson\<close> of an object (None where it
  is undefined), \<open>$sce\<close> with a context or without one, the exception handler, and the text of an
  error.
\<close>

record 'n interpolate_env =
  ie_realm :: "'n realm"
  ie_json :: "nat \<Rightarrow> ('n, js_string option) eval"
  ie_sce :: "string option \<Rightarrow> 'n val \<Rightarrow> ('n, 'n val) eval"
  ie_handler :: "js_error \<Rightarrow> ('n, unit) eval"
  ie_error :: "js_error \<Rightarrow> string"

definition stringify :: "'n interpolate_env \<Rightarrow> 'n val \<Rightarrow> ('n, 'n val) eval" where
  "stringify env v = (case v of
     VUndefined \<Rightarrow> ret (VStr [])
   | VNull \<Rightarrow> ret (VStr [])
   | VStr s \<Rightarrow> ret (VStr s)
   | VNum n \<Rightarrow> ret (VStr (n_str (nums (ie_realm env)) n))
   | VBool b \<Rightarrow> ret (VStr (prim_string (ie_realm env) (VBool b)))
   | VRef r \<Rightarrow> bindM (ie_json env r) (\<lambda>s. ret (case s of Some t \<Rightarrow> VStr t | None \<Rightarrow> VUndefined)))"

definition noconcat_error :: "string \<Rightarrow> js_error" where
  "noconcat_error s = minErr ''$interpolate'' ''noconcat''
     (''Error while interpolating: {0}'' @ [CHR 0x0A] @ ''Strict Contextual Escaping disallows interpolations that concatenate multiple expressions when a trusted value is required.  See http://docs.angularjs.org/api/ng.$sce'') [s]"

definition interr :: "'n interpolate_env \<Rightarrow> string \<Rightarrow> js_error \<Rightarrow> js_error" where
  "interr env s err = minErr ''$interpolate'' ''interr'' (''Can'' @ [CHR 0x27] @ ''t interpolate: {0}'' @ [CHR 0x0A] @ ''{1}'') [s, ie_error env err]"

definition try_catch :: "('s, 'a) comp \<Rightarrow> (js_error \<Rightarrow> ('s, 'a) comp) \<Rightarrow> ('s, 'a) comp" where
  "try_catch m k s = (case m s of (Inl e, t) \<Rightarrow> k e t | (Inr x, t) \<Rightarrow> (Inr x, t))"

definition parseStringifyInterceptor :: "'n interpolate_env \<Rightarrow> string \<Rightarrow> string option \<Rightarrow> bool \<Rightarrow> 'n val \<Rightarrow> ('n, 'n val) eval" where
  "parseStringifyInterceptor env s trusted allOrNothing v =
    try_catch (bindM (ie_sce env trusted v) (\<lambda>w. if allOrNothing \<and> w = VUndefined then ret w else stringify env w))
      (\<lambda>e. bindM (ie_handler env (interr env s e)) (\<lambda>_. ret VUndefined))"

text \<open>A compiled text; \<open>t_concat\<close> is the array before the first rendering.\<close>

record 'n interpolation =
  t_exp :: string
  t_fns :: "'n parsed list"
  t_positions :: "nat list"
  t_concat :: "'n val list"
  t_allOrNothing :: bool

text \<open>The expressions are parsed in order; the first that cannot be parsed makes the call throw.\<close>

fun parse_all :: "'n interpolate_env \<Rightarrow> 'n interceptor \<Rightarrow> string list \<Rightarrow> 'n parse_caches \<Rightarrow>
    ((js_error + 'n parsed list) \<times> 'n parse_caches) option" where
  "parse_all env f [] cs = Some (Inr [], cs)"
| "parse_all env f (e # es) cs = (case ng_parse (ie_realm env) e (Some f) False cs of
     None \<Rightarrow> None
   | Some (Inl err, cs') \<Rightarrow> Some (Inl err, cs')
   | Some (Inr p, cs') \<Rightarrow> (case parse_all env f es cs' of
       None \<Rightarrow> None
     | Some (Inl err, cs'') \<Rightarrow> Some (Inl err, cs'')
     | Some (Inr ps, cs'') \<Rightarrow> Some (Inr (p # ps), cs'')))"

definition initial_concat :: "pieces \<Rightarrow> 'n val list" where
  "initial_concat p = map (\<lambda>s. VStr (units s)) (i_concat p)"

text \<open>\<open>$interpolate\<close>; the result is undefined (None) for a text that must have an expression and has none.\<close>

definition interpolate :: "'n interpolate_env \<Rightarrow> string \<Rightarrow> bool \<Rightarrow> string option \<Rightarrow> bool \<Rightarrow> 'n parse_caches \<Rightarrow>
    ((js_error + 'n interpolation option) \<times> 'n parse_caches) option" where
  "interpolate env s mustHaveExpression trusted allOrNothing cs =
    (let p = cut_text s;
         f = \<lparr>i_fn = (\<lambda>v scope locals. parseStringifyInterceptor env s trusted allOrNothing v), i_stateful = False\<rparr>
     in case parse_all env f (i_expressions p) cs of
          None \<Rightarrow> None
        | Some (Inl err, cs') \<Rightarrow> Some (Inl err, cs')
        | Some (Inr fns, cs') \<Rightarrow>
            if trusted \<noteq> None \<and> length (i_concat p) > 1 then Some (Inl (noconcat_error s), cs')
            else if mustHaveExpression \<and> i_expressions p = [] then Some (Inr None, cs')
            else Some (Inr (Some \<lparr>t_exp = s, t_fns = fns, t_positions = i_positions p, t_concat = initial_concat p,
              t_allOrNothing = allOrNothing\<rparr>), cs'))"

text \<open>
  \<open>concat.join('')\<close>: undefined and null are empty texts. The elements are texts and what the
  interceptor leaves undefined.
\<close>

definition join_concat :: "'n realm \<Rightarrow> 'n val list \<Rightarrow> js_string" where
  "join_concat env vs = concat (map (\<lambda>v. if nullish v then [] else prim_string env v) vs)"

fun compute :: "'n realm \<Rightarrow> bool \<Rightarrow> nat list \<Rightarrow> 'n val list \<Rightarrow> 'n val list \<Rightarrow> 'n val \<times> 'n val list" where
  "compute env allOrNothing (i # is) (v # vs) pieces =
    (if allOrNothing \<and> v = VUndefined then (VUndefined, pieces) else compute env allOrNothing is vs (pieces[i := v]))"
| "compute env allOrNothing _ _ pieces = (VStr (join_concat env pieces), pieces)"



text \<open>
  \<open>interpolateFnWatcher\<close>: the values of the group, whether they are the first, and the last text;
  the listener is called with the new text and the old one.
\<close>

definition interpolateFnWatcher :: "'n interpolate_env \<Rightarrow> 'n interpolation \<Rightarrow> 'n val list \<Rightarrow> bool \<Rightarrow> 'n val \<Rightarrow> 'n val list \<Rightarrow>
    ('n val \<times> 'n val) \<times> 'n val list" where
  "interpolateFnWatcher env t values_in first lastValue pieces =
    (case compute (ie_realm env) (t_allOrNothing t) (t_positions t) values_in pieces of
       (v, pieces') \<Rightarrow> ((v, if first then v else lastValue), pieces'))"

section \<open>A rendered template\<close>









text \<open>
  The first place is looked for without regard to the backslashes: a symbol that is escaped, but
  followed at once by an expression, gives its last brace to the expression.
\<close>

lemma escaped_before_expression:
  "i_expressions (cut_text (escaped startSymbol @ ''{{n}}'')) = [''{n'']"
  "i_concat (cut_text (escaped startSymbol @ ''{{n}}'')) = [[CHR 0x5C, CHR ''{'', CHR 0x5C], []]"
  by code_simp+

section \<open>Filling the pieces\<close>













section \<open>What the expressions answer\<close>










section \<open>Every rendering\<close>











end
