(* ===== verification/NgQLive.thy ===== *)
theory NgQLive
  imports NgQ "HOL-Library.Sublist"
begin

text \<open>
  The queue of \<open>$q\<close>: the callbacks of a settled promise are always scheduled, exactly once, so
  none is lost, and each tick brings them nearer.
\<close>

section \<open>What is scheduled\<close>

fun is_process :: "'v tick \<Rightarrow> bool" where
  "is_process (ProcessQueue p) = True"
| "is_process (NotifyAll a v) = False"

text \<open>
  Every settled promise with callbacks is scheduled, but perhaps those of \<open>X\<close>; a scheduled
  promise is in the queue once, and no other is; the arrays of callbacks exist.
\<close>

definition scheduled_ok :: "'v tick set \<Rightarrow> nat set \<Rightarrow> nat \<Rightarrow> 'v promise_state \<Rightarrow> bool" where
  "scheduled_ok T X p q \<longleftrightarrow>
     (p \<in> X \<or> status q \<le> 0 \<or> pending q = None \<or> processScheduled q) \<and>
     (processScheduled q \<longrightarrow> pending q \<noteq> None \<and> status q > 0) \<and> (processScheduled q \<longleftrightarrow> ProcessQueue p \<in> T)"

definition queue_but :: "nat set \<Rightarrow> ('v, 'f) qstate \<Rightarrow> bool" where
  "queue_but X s \<longleftrightarrow>
     (\<forall>p < length (promises s). scheduled_ok (set (ticks s)) X p (promises s ! p) \<and>
        (\<forall>a. pending (promises s ! p) = Some a \<longrightarrow> a < length (arrays s))) \<and>
     (\<forall>p. ProcessQueue p \<in> set (ticks s) \<longrightarrow> p < length (promises s)) \<and>
     distinct (filter is_process (ticks s)) \<and>
     (\<forall>a v. NotifyAll a v \<in> set (ticks s) \<longrightarrow> a < length (arrays s))"

text \<open>A step that writes one promise, and schedules at most this one.\<close>

lemma queue_step:
  assumes q: "queue_but X s" and p: "p < length (promises s)"
    and t: "promises t = (promises s)[p := q]" "ticks t = ticks s @ new" "length (arrays s) \<le> length (arrays t)"
    and new: "new = [] \<or> new = [ProcessQueue p] \<and> \<not> processScheduled (promises s ! p)"
    and ok: "scheduled_ok (set (ticks t)) Y p q" "\<And>a. pending q = Some a \<Longrightarrow> a < length (arrays t)" "X - {p} \<subseteq> Y"
  shows "queue_but Y t"
  unfolding queue_but_def
proof (intro conjI allI impI)
  fix p' assume p': "p' < length (promises t)"
  show "scheduled_ok (set (ticks t)) Y p' (promises t ! p')"
  proof (cases "p' = p")
    case False
    with q p' t(1) have "scheduled_ok (set (ticks s)) X p' (promises t ! p')" by (simp add: queue_but_def)
    moreover have "ProcessQueue p' \<in> set (ticks t) \<longleftrightarrow> ProcessQueue p' \<in> set (ticks s)"
      using new False by (auto simp: t(2))
    ultimately show ?thesis using ok(3) False by (auto simp: scheduled_ok_def)
  qed (use ok(1) p t(1) in simp)
  fix a assume "pending (promises t ! p') = Some a"
  with ok(2) p' q t(1,3) show "a < length (arrays t)"
    by (cases "p' = p") (auto simp: queue_but_def intro: less_le_trans)
next
  fix p' assume "ProcessQueue p' \<in> set (ticks t)"
  with q p t(1,2) new show "p' < length (promises t)" by (auto simp: queue_but_def)
next
  have "ProcessQueue p \<notin> set (ticks s)" if "new \<noteq> []"
    using q p new that by (auto simp: queue_but_def scheduled_ok_def)
  with q new show "distinct (filter is_process (ticks t))" by (auto simp: queue_but_def t(2))
next
  fix a v assume "NotifyAll a v \<in> set (ticks t)"
  with q new t(2,3) show "a < length (arrays t)" by (auto simp: queue_but_def intro: less_le_trans)
qed

lemma queue_okD:
  assumes "queue_but X s" and "p < length (promises s)"
  shows "scheduled_ok (set (ticks s)) X p (promises s ! p)" and "pending (promises s ! p) = Some a \<Longrightarrow> a < length (arrays s)"
  using assms by (simp_all add: queue_but_def)

text \<open>The queue depends on these parts of the state only.\<close>

lemma queue_but_same:
  "promises t = promises s \<Longrightarrow> ticks t = ticks s \<Longrightarrow> arrays t = arrays s \<Longrightarrow> queue_but X t = queue_but X s"
  by (simp add: queue_but_def)

lemma queue_schedule:
  assumes q: "queue_but X s" and p: "p < length (promises s)" "status (promises s ! p) > 0"
  shows "queue_but (X - {p}) (scheduleProcessQueue p s)"
proof (cases "processScheduled (promises s ! p) \<or> pending (promises s ! p) = None")
  case True
  then have same: "scheduleProcessQueue p s = s" by (auto simp: scheduleProcessQueue_def)
  from True queue_okD(1) [OF q p(1)] have "scheduled_ok (set (ticks s)) (X - {p}) p (promises s ! p)"
    by (auto simp: scheduled_ok_def)
  then show ?thesis
    unfolding same using queue_okD(2) [OF q p(1)] by (intro queue_step [OF q p(1), where new = "[]"]) auto
next
  case False
  then have t: "scheduleProcessQueue p s = (update_promise p (\<lambda>q. q\<lparr>processScheduled := True\<rparr>) s)\<lparr>ticks := ticks s @ [ProcessQueue p]\<rparr>"
    by (simp only: scheduleProcessQueue_def False if_False)
  show ?thesis
    unfolding t using False p queue_okD(2) [OF q p(1)]
    by (intro queue_step [OF q p(1), where new = "[ProcessQueue p]" and q = "(promises s ! p)\<lparr>processScheduled := True\<rparr>"])
      (auto simp: update_promise_def scheduled_ok_def)
qed

lemma queue_new_deferred:
  assumes q: "queue_but X s"
  shows "queue_but X (snd (new_deferred s))"
  unfolding queue_but_def
proof (intro conjI allI impI)
  let ?t = "snd (new_deferred s)"
  fix p assume p: "p < length (promises ?t)"
  show "scheduled_ok (set (ticks ?t)) X p (promises ?t ! p)"
    using q p by (cases "p < length (promises s)") (auto simp: new_deferred_def nth_append queue_but_def scheduled_ok_def less_Suc_eq)
  fix a assume "pending (promises ?t ! p) = Some a"
  then show "a < length (arrays ?t)"
    using q p by (cases "p < length (promises s)") (auto simp: new_deferred_def nth_append queue_but_def less_Suc_eq)
qed (use q in \<open>auto simp: new_deferred_def queue_but_def less_Suc_eq\<close>)

lemma queue_push:
  assumes q: "queue_but X s" and p: "p < length (promises s)"
  shows "queue_but (if status (promises s ! p) > 0 then insert p X else X) (push_pending p e s)"
proof (cases "pending (promises s ! p)")
  case (Some a)
  with queue_okD [OF q p] show ?thesis
    by (intro queue_step [OF q p, where new = "[]" and q = "promises s ! p"])
      (auto simp: push_pending_def scheduled_ok_def)
next
  case None
  with queue_okD [OF q p] show ?thesis
    by (intro queue_step [OF q p, where new = "[]" and q = "(promises s ! p)\<lparr>pending := Some (length (arrays s))\<rparr>"])
      (auto simp: push_pending_def scheduled_ok_def update_promise_def)
qed

lemma queue_write:
  assumes q: "queue_but X s" and p: "p < length (promises s)" "status (promises s ! p) \<le> 0"
    and f: "pending (f (promises s ! p)) = pending (promises s ! p)"
      "processScheduled (f (promises s ! p)) = processScheduled (promises s ! p)"
  shows "queue_but (if status (f (promises s ! p)) > 0 then insert p X else X) (update_promise p f s)"
  using queue_okD [OF q p(1)] p(2) f
  by (intro queue_step [OF q p(1), where new = "[]" and q = "f (promises s ! p)"])
    (auto simp: scheduled_ok_def update_promise_def)

section \<open>Every operation keeps the queue\<close>

lemma push_keeps [simp]:
  "length (promises (push_pending d e s)) = length (promises s)"
  "status (promises (push_pending d e s) ! p) = status (promises s ! p)"
  by (auto simp: push_pending_def update_promise_def nth_update split: option.split)

lemma queue_then:
  assumes q: "queue_but {} s"
  shows "queue_but {} (snd (q_then d f g h s))"
proof (cases "\<not> exists_in s d \<or> f = NoHandler \<and> g = NoHandler \<and> h = NoHandler")
  case True
  with q show ?thesis by (auto simp: q_then_def)
next
  case False
  obtain r s1 where n: "new_deferred s = (r, s1)" by fastforce
  with queue_new_deferred [OF q] have s1: "queue_but {} s1" by simp
  from False n have d: "d < length (promises s1)" by (auto simp: exists_in_def new_deferred_def)
  let ?s2 = "push_pending d (r, f, g, h) s1"
  have "queue_but {} (if status (promises ?s2 ! d) > 0 then scheduleProcessQueue d ?s2 else ?s2)"
    using queue_push [OF s1 d, of "(r, f, g, h)"] queue_schedule [of "{d}" ?s2 d] d by auto
  with False n show ?thesis by (simp only: q_then_def if_False) (simp add: Let_def)
qed

lemma queue_settle_rejected:
  assumes q: "queue_but {} s" and d: "d < length (promises s)" "status (promises s ! d) \<le> 0"
  shows "queue_but {} (settle_rejected d v s)"
  using queue_write [OF q d, of "\<lambda>p. p\<lparr>settled_value := v, status := 2\<rparr>"] d
    queue_schedule [of "{d}" "update_promise d (\<lambda>p. p\<lparr>settled_value := v, status := 2\<rparr>) s" d]
  by (simp add: settle_rejected_def update_promise_def)

lemma queue_settle_resolved:
  assumes q: "queue_but {} s" and d: "d < length (promises s)" "status (promises s ! d) \<le> 0"
  shows "queue_but {} (settle_resolved d v s)"
proof (cases "\<exists>p. v = Promise p")
  case True
  then obtain p where p: "v = Promise p" ..
  let ?t = "(update_promise d (\<lambda>p. p\<lparr>status := -1\<rparr>) s)\<lparr>cells := cells s @ [(d, False)]\<rparr>"
  have "queue_but {} (update_promise d (\<lambda>p. p\<lparr>status := -1\<rparr>) s)"
    using queue_write [OF q d, of "\<lambda>p. p\<lparr>status := -1\<rparr>"] by simp
  then have "queue_but {} ?t" by (simp add: queue_but_def)
  then have "queue_but {} (snd (q_then p f g h ?t))" for f g h by (rule queue_then)
  with p show ?thesis by (simp add: settle_resolved_def Let_def)
next
  case False
  then have t: "settle_resolved d v s =
      scheduleProcessQueue d (update_promise d (\<lambda>p. p\<lparr>settled_value := v, status := 1\<rparr>) s)"
    by (cases v) (auto simp: settle_resolved_def)
  show ?thesis
    unfolding t using queue_write [OF q d, of "\<lambda>p. p\<lparr>settled_value := v, status := 1\<rparr>"] d
      queue_schedule [of "{d}" "update_promise d (\<lambda>p. p\<lparr>settled_value := v, status := 1\<rparr>) s" d]
    by (simp add: update_promise_def)
qed

lemma queue_reject: "queue_but {} s \<Longrightarrow> queue_but {} (q_reject d v s)"
  by (auto simp: q_reject_def exists_in_def intro: queue_settle_rejected)

lemma queue_resolve: "queue_but {} s \<Longrightarrow> queue_but {} (q_resolve d v s)"
  by (auto simp: q_resolve_def exists_in_def intro: queue_settle_rejected queue_settle_resolved)

lemma queue_notify: "queue_but {} s \<Longrightarrow> queue_but {} (q_notify d v s)"
  by (auto simp: q_notify_def queue_but_def scheduled_ok_def exists_in_def split: option.split)

lemma queue_make: "queue_but {} s \<Longrightarrow> queue_but {} (snd (makePromise v ok s))"
  using queue_new_deferred [of "{}" s]
  by (auto simp: makePromise_def queue_resolve queue_reject split: prod.split)

lemma queue_made: "queue_but {} s \<Longrightarrow> makePromise v ok s = (p, t) \<Longrightarrow> queue_but {} t"
  using queue_make [of s v ok] by simp

lemma queue_then_pair: "queue_but {} s \<Longrightarrow> q_then d f g h s = (r, t) \<Longrightarrow> queue_but {} t"
  using queue_then [of s d f g h] by simp

lemma queue_when: "queue_but {} s \<Longrightarrow> queue_but {} (snd (q_when v f g h s))"
  using queue_new_deferred [of "{}" s]
  by (auto simp: q_when_def queue_resolve intro: queue_then split: prod.split)

lemma queue_actions: "queue_but {} s \<Longrightarrow> queue_but {} (fold do_action acts s)"
proof (induction acts arbitrary: s)
  case (Cons a acts)
  then show ?case by (cases a) (auto simp: queue_resolve queue_reject queue_notify)
qed simp

lemma queue_call_user: "queue_but {} s \<Longrightarrow> queue_but {} (snd (call_user users f v s))"
  using queue_actions [of "s\<lparr>user_calls := user_calls s @ [(f, v)]\<rparr>"]
  by (auto simp: call_user_def queue_but_same [of "s\<lparr>user_calls := user_calls s @ [(f, v)]\<rparr>" s] split: prod.split)

lemma queue_handler: "q_inv s \<Longrightarrow> queue_but {} s \<Longrightarrow> queue_but {} (snd (call_handler users h v s))"
proof (induction users h v s rule: call_handler.induct)
  case (3 users f v s)
  then show ?case by (simp add: queue_call_user)
next
  case (4 users c v s)
  let ?t = "s\<lparr>cells := (cells s)[c := (fst (cells s ! c), True)]\<rparr>"
  have "queue_but {} ?t" using "4.prems"(2) by (simp add: queue_but_def)
  with "4.prems" show ?case by (auto simp: q_inv_def intro!: queue_settle_resolved)
next
  case (5 users c v s)
  let ?t = "s\<lparr>cells := (cells s)[c := (fst (cells s ! c), True)]\<rparr>"
  have "queue_but {} ?t" using "5.prems"(2) by (simp add: queue_but_def)
  with "5.prems" show ?case by (auto simp: q_inv_def intro!: queue_settle_rejected)
next
  case (7 users ok callback v s)
  obtain r t where c: "(if is_function callback then call_handler users callback Undef s else (Returns Undef, s)) = (r, t)"
    by fastforce
  with "7.IH" "7.prems" have t: "queue_but {} t" by (auto split: if_splits)
  then have m: "queue_but {} (snd (makePromise w b t))" "queue_but {} (snd (q_then p f g h t))" for w b p f g h
    by (simp_all add: queue_make queue_then)
  then show ?case using c by (auto split: outcome.split qval.split prod.split) (metis snd_conv)+
next
  case (10 users i k v s)
  have same: "queue_but {} (s\<lparr>alls := as\<rparr>)" for as
    using "10.prems"(2) by (simp add: queue_but_same [of "s\<lparr>alls := as\<rparr>" s])
  then show ?case using "10.prems"(2) by (auto simp: Let_def intro: queue_resolve)
qed (auto simp: queue_notify queue_reject Let_def split: prod.split intro: queue_made)

definition queue_ok :: "('v, 'f) qstate \<Rightarrow> bool" where
  "queue_ok s \<longleftrightarrow> q_inv s \<and> queue_but {} s"

lemma queue_ok_process_entry: "queue_ok s \<Longrightarrow> queue_ok (process_entry users p e s)"
proof -
  assume s: "queue_ok s"
  then have "q_inv (process_entry users p e s)" by (auto simp: queue_ok_def intro: advances_inv advances_process_entry)
  moreover have h: "queue_but {} t" if "call_handler users fn v s = (x, t)" for fn v x t
    using queue_handler [of s users fn v] s that by (simp add: queue_ok_def)
  have exc: "queue_but {} (t\<lparr>exceptions := l\<rparr>)" if "queue_but {} t" for t :: "('a, 'b) qstate" and l
    using that by (simp add: queue_but_same [of "t\<lparr>exceptions := l\<rparr>" t])
  have "queue_but {} (process_entry users p e s)"
    using s h by (auto simp: process_entry_def queue_ok_def Let_def queue_resolve queue_reject
        split: prod.split outcome.split intro!: exc queue_reject queue_resolve)
  ultimately show ?thesis by (simp add: queue_ok_def)
qed

lemma queue_ok_notify_entry: "queue_ok s \<Longrightarrow> queue_ok (notify_entry users v e s)"
proof -
  assume s: "queue_ok s"
  then have "q_inv (notify_entry users v e s)" by (auto simp: queue_ok_def intro: advances_inv advances_notify_entry)
  moreover have h: "queue_but {} t" if "call_handler users fn w s = (x, t)" for fn w x t
    using queue_handler [of s users fn w] s that by (simp add: queue_ok_def)
  have exc: "queue_but {} (t\<lparr>exceptions := l\<rparr>)" if "queue_but {} t" for t :: "('a, 'b) qstate" and l
    using that by (simp add: queue_but_same [of "t\<lparr>exceptions := l\<rparr>" t])
  have "queue_but {} (notify_entry users v e s)"
    using s h by (auto simp: notify_entry_def queue_ok_def queue_notify
        split: prod.split outcome.split intro!: exc queue_notify)
  ultimately show ?thesis by (simp add: queue_ok_def)
qed

lemma fold_keeps: "(\<And>x s. P s \<Longrightarrow> P (f x s)) \<Longrightarrow> P s \<Longrightarrow> P (fold f xs s)"
  by (induction xs arbitrary: s) auto

text \<open>A tick takes its promise out of the queue and forgets the array before the callbacks run.\<close>

lemma scheduled_head:
  assumes s: "queue_ok s" and t: "ticks s = ProcessQueue p # ts"
  obtains a where "p < length (promises s)" "processScheduled (promises s ! p)" "status (promises s ! p) > 0"
    "pending (promises s ! p) = Some a" "a < length (arrays s)" "ProcessQueue p \<notin> set ts"
proof -
  have p: "p < length (promises s)" "processScheduled (promises s ! p)" "ProcessQueue p \<notin> set ts"
    using s t by (auto simp: queue_ok_def queue_but_def scheduled_ok_def)
  with s obtain a where "pending (promises s ! p) = Some a" "status (promises s ! p) > 0"
    by (auto simp: queue_ok_def queue_but_def scheduled_ok_def)
  with p s that show ?thesis by (auto simp: queue_ok_def queue_but_def)
qed

lemma queue_ok_taken:
  assumes s: "queue_ok s" and t: "ticks s = ProcessQueue p # ts"
  shows "queue_ok (update_promise p (\<lambda>q. q\<lparr>processScheduled := False, pending := None\<rparr>) (s\<lparr>ticks := ts\<rparr>))"
proof -
  let ?u = "update_promise p (\<lambda>q. q\<lparr>processScheduled := False, pending := None\<rparr>) (s\<lparr>ticks := ts\<rparr>)"
  obtain a where p: "p < length (promises s)" "processScheduled (promises s ! p)" and once: "ProcessQueue p \<notin> set ts"
    using scheduled_head [OF s t] by metis
  have "queue_but {} ?u"
    unfolding queue_but_def
  proof (intro conjI allI impI)
    fix p' assume "p' < length (promises ?u)"
    with s t p once show "scheduled_ok (set (ticks ?u)) {} p' (promises ?u ! p')"
      by (cases "p' = p") (auto simp: queue_ok_def queue_but_def scheduled_ok_def update_promise_def)
    fix a assume "pending (promises ?u ! p') = Some a"
    with s \<open>p' < length (promises ?u)\<close> p show "a < length (arrays ?u)"
      by (cases "p' = p") (auto simp: queue_ok_def queue_but_def update_promise_def)
  qed (use s t in \<open>auto simp: queue_ok_def queue_but_def update_promise_def\<close>)
  moreover have "q_inv ?u" using s by (auto simp: queue_ok_def q_inv_def update_promise_def nth_update)
  ultimately show ?thesis by (simp add: queue_ok_def)
qed

lemma queue_ok_notified:
  assumes s: "queue_ok s" and t: "ticks s = NotifyAll a v # ts"
  shows "queue_ok (s\<lparr>ticks := ts\<rparr>)" "a < length (arrays s)"
  using s t by (auto simp: queue_ok_def queue_but_def scheduled_ok_def q_inv_def)

lemma queue_ok_tick:
  assumes s: "queue_ok s"
  shows "queue_ok (next_tick users s)"
proof (cases "ticks s")
  case (Cons t ts)
  show ?thesis
  proof (cases t)
    case (ProcessQueue p)
    with Cons have t: "ticks s = ProcessQueue p # ts" by simp
    let ?u = "update_promise p (\<lambda>q. q\<lparr>processScheduled := False, pending := None\<rparr>) (s\<lparr>ticks := ts\<rparr>)"
    have "queue_ok (fold (process_entry users p) es ?u)" for es
      using queue_ok_taken [OF s t] by (rule fold_keeps [rotated]) (rule queue_ok_process_entry)
    moreover obtain a where "pending (promises s ! p) = Some a" using scheduled_head [OF s t] by metis
    ultimately show ?thesis using t by (simp add: next_tick_def processQueue_def)
  next
    case (NotifyAll a v)
    with Cons have t: "ticks s = NotifyAll a v # ts" by simp
    have "queue_ok (fold (notify_entry users v) es (s\<lparr>ticks := ts\<rparr>))" for es
      using queue_ok_notified(1) [OF s t] by (rule fold_keeps [rotated]) (rule queue_ok_notify_entry)
    with t show ?thesis by (simp add: next_tick_def)
  qed
qed (use s in \<open>simp add: next_tick_def\<close>)

lemma queue_all_entry: "queue_but {} s \<Longrightarrow> queue_but {} (all_entry i kv s)"
proof -
  assume s: "queue_but {} s"
  obtain k v where kv: "kv = (k, v)" by (cases kv)
  let ?t = "s\<lparr>alls := (alls s)[i := (alls s ! i)\<lparr>counter := Suc (counter (alls s ! i))\<rparr>]\<rparr>"
  have "queue_but {} ?t" using s by (simp add: queue_but_same [of ?t s])
  then have "queue_but {} (snd (q_when v NoHandler NoHandler NoHandler ?t))" by (rule queue_when)
  then show ?thesis by (auto simp: all_entry_def kv split: prod.split intro: queue_then)
qed

lemma queue_all: "queue_but {} s \<Longrightarrow> queue_but {} (snd (q_all kvs s))"
proof -
  assume s: "queue_but {} s"
  obtain d s1 where n: "new_deferred s = (d, s1)" by fastforce
  with queue_new_deferred [OF s] have s1: "queue_but {} s1" by simp
  let ?s = "s1\<lparr>alls := alls s1 @ [\<lparr>all_deferred = d, counter = 0, results = []\<rparr>]\<rparr>"
  from s1 have "queue_but {} ?s" by (simp add: queue_but_same [of ?s s1])
  then have "queue_but {} (fold (all_entry i) kvs ?s)" for i
    by (rule fold_keeps [rotated]) (rule queue_all_entry)
  with n show ?thesis by (simp add: q_all_def Let_def queue_resolve)
qed

lemma queue_construct: "queue_but {} s \<Longrightarrow> queue_but {} (snd (q_construct resolver s))"
  using queue_new_deferred [of "{}" s]
  by (auto simp: q_construct_def queue_actions split: prod.split outcome.split)

lemma queue_tick: "q_inv s \<Longrightarrow> queue_but {} s \<Longrightarrow> queue_but {} (next_tick users s)"
  using queue_ok_tick [of s users] by (simp add: queue_ok_def)

lemma queue_ok_step:
  assumes step: "q_step users s t" and s: "queue_ok s"
  shows "queue_ok t"
proof -
  have "q_inv t" using advances_step [OF step] s by (auto simp: queue_ok_def intro: advances_inv)
  moreover from step s have "queue_but {} t"
    by (induction rule: q_step.induct)
      (auto simp: queue_ok_def queue_new_deferred queue_then q_catch_def q_finally_def queue_resolve queue_reject queue_notify
        queue_when queue_all queue_construct queue_tick)
  ultimately show ?thesis by (simp add: queue_ok_def)
qed

lemma queue_ok_empty: "queue_ok empty_q"
  by (simp add: queue_ok_def q_inv_empty) (simp add: queue_but_def empty_q_def)

interpretation ticking: invariant_system "\<lambda>s. s = empty_q" "q_step users" queue_ok for users
  by unfold_locales (auto simp: queue_ok_empty intro: queue_ok_step)

section \<open>The queue moves on\<close>

text \<open>Whatever runs only appends to the queue, and to the arrays of callbacks.\<close>

definition waits_in :: "nat \<Rightarrow> nat \<Rightarrow> ('v, 'f) qstate \<Rightarrow> bool" where
  "waits_in a p s \<longleftrightarrow> p < length (promises s) \<and> pending (promises s ! p) = Some a \<and> a < length (arrays s)"

definition appends :: "('v, 'f) qstate \<Rightarrow> ('v, 'f) qstate \<Rightarrow> bool" where
  "appends s t \<longleftrightarrow> prefix (ticks s) (ticks t) \<and> length (promises s) \<le> length (promises t) \<and>
     (\<forall>p a. waits_in a p s \<longrightarrow> waits_in a p t \<and> prefix (arrays s ! a) (arrays t ! a))"

lemma appends_refl [simp]: "appends s s"
  by (simp add: appends_def)

lemma appends_trans: "appends s t \<Longrightarrow> appends t u \<Longrightarrow> appends s u"
  unfolding appends_def by (blast intro: prefix_order.trans order.trans)

lemma appends_kept:
  "appends s t \<Longrightarrow> waits_in a p s \<Longrightarrow> e \<in> set (arrays s ! a) \<Longrightarrow> waits_in a p t \<and> e \<in> set (arrays t ! a)"
  unfolding appends_def by (meson set_mono_prefix subsetD)

lemma appends_same:
  "promises t = promises s \<Longrightarrow> arrays t = arrays s \<Longrightarrow> ticks t = ticks s @ ts \<Longrightarrow> appends s t"
  by (simp add: appends_def waits_in_def)

lemma appends_write:
  "(\<And>q. pending (f q) = pending q) \<Longrightarrow> appends s (update_promise p f s)"
  by (auto simp: appends_def waits_in_def update_promise_def nth_update)

lemma appends_schedule: "appends s (scheduleProcessQueue d s)"
  by (auto simp: appends_def waits_in_def scheduleProcessQueue_def update_promise_def nth_update)

lemma appends_after_write:
  "(\<And>q. pending (f q) = pending q) \<Longrightarrow> appends s (scheduleProcessQueue d (update_promise d f s))"
  by (rule appends_trans [OF appends_write appends_schedule])

lemma appends_new: "new_deferred s = (d, t) \<Longrightarrow> appends s t"
  by (auto simp: appends_def waits_in_def new_deferred_def nth_append)

lemma appends_push: "appends s (push_pending d e s)"
  by (auto simp: appends_def waits_in_def push_pending_def update_promise_def nth_update nth_append split: option.split)

lemma appends_then: "appends s (snd (q_then d f g h s))"
proof -
  obtain r s1 where n: "new_deferred s = (r, s1)" by fastforce
  let ?s2 = "push_pending d (r, f, g, h) s1"
  have two: "appends s ?s2" by (rule appends_trans [OF appends_new [OF n] appends_push])
  have "appends s (if b then scheduleProcessQueue d ?s2 else ?s2)" for b
    using two by (auto intro: appends_trans appends_schedule)
  with n show ?thesis by (simp add: q_then_def Let_def)
qed

lemma appends_then_pair: "q_then d f g h s = (r, t) \<Longrightarrow> appends s t"
  using appends_then [of s d f g h] by simp

lemma appends_settle: "appends s (settle_rejected d v s)" "appends s (settle_resolved d v s)"
proof -
  show "appends s (settle_rejected d v s)" unfolding settle_rejected_def by (rule appends_after_write) simp
  show "appends s (settle_resolved d v s)"
  proof (cases "\<exists>p. v = Promise p")
    case True
    then obtain p where p: "v = Promise p" ..
    let ?w = "update_promise d (\<lambda>p. p\<lparr>status := -1\<rparr>) s"
    let ?t = "?w\<lparr>cells := cells s @ [(d, False)]\<rparr>"
    have "appends s ?t"
      by (rule appends_trans [OF appends_write appends_same, where ts1 = "[]"]) (simp_all add: update_promise_def)
    then have "appends s (snd (q_then p f g h ?t))" for f g h by (rule appends_trans [OF _ appends_then])
    with p show ?thesis by (simp add: settle_resolved_def Let_def)
  next
    case False
    then have t: "settle_resolved d v s =
        scheduleProcessQueue d (update_promise d (\<lambda>p. p\<lparr>settled_value := v, status := 1\<rparr>) s)"
      by (cases v) (auto simp: settle_resolved_def)
    show ?thesis unfolding t by (rule appends_after_write) simp
  qed
qed

lemma appends_deferred:
  "appends s (q_reject d v s)" "appends s (q_resolve d v s)" "appends s (q_notify d v s)"
  by (auto simp: q_reject_def q_resolve_def q_notify_def appends_settle split: option.split intro: appends_same)

lemma appends_resolved: "appends s t \<Longrightarrow> appends s (q_resolve d v t)" "appends s t \<Longrightarrow> appends s (q_reject d v t)"
    "appends s t \<Longrightarrow> appends s (q_notify d v t)"
  by (auto intro: appends_trans appends_deferred)

lemma appends_make: "makePromise v ok s = (p, t) \<Longrightarrow> appends s t"
proof -
  assume m: "makePromise v ok s = (p, t)"
  obtain d u where n: "new_deferred s = (d, u)" by fastforce
  then have "appends s u" by (rule appends_new)
  with m n show ?thesis by (auto simp: makePromise_def intro: appends_resolved)
qed

lemma appends_actions: "appends s (fold do_action acts s)"
proof (induction acts arbitrary: s)
  case (Cons a acts)
  have "appends s (do_action a s)" by (cases a) (simp_all add: appends_deferred)
  with Cons.IH show ?case by (auto intro: appends_trans)
qed simp

lemma appends_other:
  "appends s t \<Longrightarrow> promises u = promises s \<Longrightarrow> arrays u = arrays s \<Longrightarrow> ticks u = ticks s \<Longrightarrow> appends u t"
  by (auto simp: appends_def waits_in_def)

lemma appends_call_user: "appends s (snd (call_user users f v s))"
  by (auto simp: call_user_def split: prod.split intro: appends_other [OF appends_actions])

lemma appends_handler: "appends s (snd (call_handler users h v s))"
proof (induction users h v s rule: call_handler.induct)
  case (3 users f v s)
  show ?case by (simp add: appends_call_user)
next
  case (4 users c v s)
  show ?case by (auto intro: appends_other [OF appends_settle(2)])
next
  case (5 users c v s)
  show ?case by (auto intro: appends_other [OF appends_settle(1)])
next
  case (7 users ok callback v s)
  obtain r t where c: "(if is_function callback then call_handler users callback Undef s else (Returns Undef, s)) = (r, t)"
    by fastforce
  with "7.IH" have t: "appends s t" by (auto split: if_splits)
  with c show ?case
    by (auto split: outcome.split qval.split prod.split intro: appends_trans appends_make appends_then_pair)
next
  case (10 users i k v s)
  show ?case by (auto simp: Let_def intro: appends_other [OF appends_deferred(2)] appends_same)
qed (auto simp: appends_deferred Let_def split: prod.split intro: appends_make)

lemma appends_process_entry: "appends s (process_entry users p e s)"
proof -
  have h: "appends s t" if "call_handler users fn v s = (x, t)" for fn v x t
    using appends_handler [of s users fn v] that by simp
  have exc: "appends s (t\<lparr>exceptions := l\<rparr>)" if "appends s t" for t l
    using that by (auto simp: appends_def waits_in_def)
  show ?thesis
    using h by (auto simp: process_entry_def Let_def appends_deferred split: prod.split outcome.split
        intro!: exc intro: appends_resolved)
qed

lemma appends_notify_entry: "appends s (notify_entry users v e s)"
proof -
  have h: "appends s t" if "call_handler users fn w s = (x, t)" for fn w x t
    using appends_handler [of s users fn w] that by simp
  have exc: "appends s (t\<lparr>exceptions := l\<rparr>)" if "appends s t" for t l
    using that by (auto simp: appends_def waits_in_def)
  show ?thesis
    using h by (auto simp: notify_entry_def appends_deferred split: prod.split outcome.split
        intro!: exc intro: appends_resolved)
qed

lemma appends_fold: "(\<And>x s. appends s (f x s)) \<Longrightarrow> appends s (fold f xs s)"
  by (induction xs arbitrary: s) (auto intro: appends_trans)

text \<open>A tick leaves the head of the queue and the callbacks of the promise it is for.\<close>

lemma tick_moves:
  assumes s: "ticks s = t # ts"
  shows "\<exists>u. appends u (next_tick users s) \<and> ticks u = ts \<and> arrays u = arrays s \<and>
    (\<forall>p < length (promises s). t \<noteq> ProcessQueue p \<longrightarrow> p < length (promises u) \<and> promises u ! p = promises s ! p)"
proof (cases t)
  case (ProcessQueue p)
  show ?thesis
  proof (cases "pending (promises s ! p)")
    case (Some a)
    let ?u = "update_promise p (\<lambda>q. q\<lparr>processScheduled := False, pending := None\<rparr>) (s\<lparr>ticks := ts\<rparr>)"
    have "appends ?u (fold (process_entry users p) (arrays s ! a) ?u)"
      by (rule appends_fold) (rule appends_process_entry)
    then have "appends ?u (next_tick users s)" using s ProcessQueue Some by (simp add: next_tick_def processQueue_def)
    moreover have "ticks ?u = ts" "arrays ?u = arrays s" by (simp_all add: update_promise_def)
    moreover have "\<forall>p' < length (promises s). t \<noteq> ProcessQueue p' \<longrightarrow> p' < length (promises ?u) \<and> promises ?u ! p' = promises s ! p'"
      using ProcessQueue by (auto simp: update_promise_def nth_update)
    ultimately show ?thesis by blast
  qed (use s ProcessQueue in \<open>auto simp: next_tick_def processQueue_def intro: exI [of _ "s\<lparr>ticks := ts\<rparr>"]\<close>)
next
  case (NotifyAll a v)
  have "appends u (fold (notify_entry users v) es u)" for es u
    by (rule appends_fold) (rule appends_notify_entry)
  with s NotifyAll show ?thesis by (auto simp: next_tick_def intro!: exI [of _ "s\<lparr>ticks := ts\<rparr>"])
qed

text \<open>The promise whose tick is at place \<open>k\<close> keeps its callbacks, and is next after \<open>k\<close> ticks.\<close>

lemma tick_comes:
  assumes "k < length (ticks s)" and "ticks s ! k = ProcessQueue p" and "\<forall>i < k. ticks s ! i \<noteq> ProcessQueue p"
    and "waits_in a p s"
  shows "let t = (next_tick users ^^ k) s in
    (\<exists>ts. ticks t = ProcessQueue p # ts) \<and> waits_in a p t \<and> prefix (arrays s ! a) (arrays t ! a)"
  using assms
proof (induction k arbitrary: s)
  case 0
  then show ?case by (cases "ticks s") auto
next
  case (Suc k)
  then obtain x ts where s: "ticks s = x # ts" by (cases "ticks s") auto
  with Suc.prems have ts: "k < length ts" "ts ! k = ProcessQueue p" "\<forall>i < k. ts ! i \<noteq> ProcessQueue p" "x \<noteq> ProcessQueue p"
    by auto
  obtain u where u: "appends u (next_tick users s)" "ticks u = ts" "arrays u = arrays s"
    "\<forall>p < length (promises s). x \<noteq> ProcessQueue p \<longrightarrow> p < length (promises u) \<and> promises u ! p = promises s ! p"
    using tick_moves [OF s] by blast
  with Suc.prems(4) ts(4) have "waits_in a p u" by (auto simp: waits_in_def)
  with u obtain new where new: "ticks (next_tick users s) = ts @ new" "waits_in a p (next_tick users s)"
    "prefix (arrays s ! a) (arrays (next_tick users s) ! a)"
    by (auto simp: appends_def prefix_def)
  have "let t = (next_tick users ^^ k) (next_tick users s) in (\<exists>ts. ticks t = ProcessQueue p # ts) \<and> waits_in a p t \<and>
      prefix (arrays (next_tick users s) ! a) (arrays t ! a)"
    by (rule Suc.IH) (use ts new in \<open>auto simp: nth_append\<close>)
  with new(3) show ?case by (auto simp: Let_def funpow_swap1 intro: prefix_order.trans)
qed

lemma advances_ticks: "q_inv s \<Longrightarrow> advances s ((next_tick users ^^ k) s)"
  by (induction k) (auto simp: advances_refl intro: advances_trans advances_tick advances_inv)

text \<open>
  C24. No callback is lost: whatever a program and its callbacks have done with deferreds and
  promises, the callbacks of a settled promise are in the queue, and if it is left to run, at a
  tick among those now queued all of them are called with the promise's value: the calls of
  that tick begin with theirs, in the order in which they were registered.
\<close>

theorem no_callback_lost:
  assumes "reachable (\<lambda>s. s = empty_q) (q_step users) s" and "settled s p" and "pending (promises s ! p) = Some a"
  shows "\<exists>k < length (ticks s). let t = (next_tick users ^^ k) s in prefix
    (user_calls t @ concat (map (\<lambda>(d, onFulfilled, onRejected, progressBack).
        called_by (if status (promises s ! p) = 1 then onFulfilled else onRejected) (settled_value (promises s ! p))) (arrays s ! a)))
    (user_calls (next_tick users t))"
proof -
  have ok: "queue_ok s" using ticking.reachable_inv [OF assms(1)] .
  then have q: "q_inv s" "queue_but {} s" by (simp_all add: queue_ok_def)
  from q(2) assms(2,3) have w: "waits_in a p s" and "ProcessQueue p \<in> set (ticks s)"
    by (auto simp: queue_but_def scheduled_ok_def waits_in_def settled_def)
  then obtain before after where split: "ticks s = before @ ProcessQueue p # after" "ProcessQueue p \<notin> set before"
    by (meson split_list_first)
  obtain k where k: "k = length before" by simp
  let ?t = "(next_tick users ^^ k) s"
  have place: "k < length (ticks s)" "ticks s ! k = ProcessQueue p" "\<forall>i < k. ticks s ! i \<noteq> ProcessQueue p"
    using split by (auto simp: k nth_append) (metis nth_mem)
  obtain ts where t: "ticks ?t = ProcessQueue p # ts" "waits_in a p ?t" "prefix (arrays s ! a) (arrays ?t ! a)"
    using tick_comes [OF place w, of users] by (auto simp: Let_def)
  from advances_ticks [OF q(1)] assms(2) have adv: "q_inv ?t" "settled ?t p" "status (promises ?t ! p) = status (promises s ! p)"
    "settled_value (promises ?t ! p) = settled_value (promises s ! p)"
    by (auto simp: advances_def)
  let ?u = "?t\<lparr>ticks := ts\<rparr>"
  have "q_inv ?u" "settled ?u p" using adv by (simp_all add: q_inv_def settled_def)
  moreover have "pending (promises ?u ! p) = Some a" using t(2) by (simp add: waits_in_def)
  ultimately have "user_calls (processQueue users p ?u) = user_calls ?u @ concat (map (\<lambda>(d, onFulfilled, onRejected, progressBack).
        called_by (if status (promises ?u ! p) = 1 then onFulfilled else onRejected) (settled_value (promises ?u ! p))) (arrays ?u ! a))"
    by (rule process_calls)
  moreover have "next_tick users ?t = processQueue users p ?u" using t(1) by (simp add: next_tick_def)
  moreover obtain more where "arrays ?t ! a = arrays s ! a @ more" using t(3) by (auto simp: prefix_def)
  ultimately have "user_calls (next_tick users ?t) = (user_calls ?t @ concat (map (\<lambda>(d, onFulfilled, onRejected, progressBack).
        called_by (if status (promises s ! p) = 1 then onFulfilled else onRejected) (settled_value (promises s ! p))) (arrays s ! a))) @
      concat (map (\<lambda>(d, onFulfilled, onRejected, progressBack).
        called_by (if status (promises s ! p) = 1 then onFulfilled else onRejected) (settled_value (promises s ! p))) more)"
    using adv(3,4) by simp
  then show ?thesis
    unfolding Let_def prefix_def by (intro exI [of _ k] conjI place(1)) (rule exI)
qed

theorem no_callback_lost_witness:
  "user_calls two_callbacks = [] \<and> (\<exists>k < length (ticks two_callbacks). prefix
    (user_calls ((next_tick (\<lambda>f v. ([], Returns v)) ^^ k) two_callbacks) @ [(1, Val 5), (2, Val 5)])
    (user_calls (next_tick (\<lambda>f v. ([], Returns v)) ((next_tick (\<lambda>f v. ([], Returns v)) ^^ k) two_callbacks))))"
proof -
  let ?u = "\<lambda>f v. ([], Returns v) :: nat action list \<times> nat outcome"
  have r: "reachable (\<lambda>s. s = empty_q) (q_step ?u) two_callbacks"
    unfolding two_callbacks_def
    by (rule reachable_step [OF reachable_step [OF reachable_step [OF reachable_step [OF reachable_init]]]])
      (rule refl step_defer step_then step_resolve)+
  have facts: "settled two_callbacks 0" "pending (promises two_callbacks ! 0) = Some 0" "user_calls two_callbacks = []"
    "arrays two_callbacks ! 0 = [(1, User 1, NoHandler, NoHandler), (2, User 2, NoHandler, NoHandler)]"
    "status (promises two_callbacks ! 0) = 1" "settled_value (promises two_callbacks ! 0) = Val 5"
    by code_simp+
  from no_callback_lost [OF r facts(1,2)] facts show ?thesis by (simp add: Let_def)
qed

end
