(* ===== verification/NgHttp.thy ===== *)
theory NgHttp
  imports NgQLive NgCache Json
begin

text \<open>
  The service \<open>$http\<close> of \<open>js/angular.js\<close>, through which \<open>xjaf.service.js\<close> talks to the server:
  headers, transformations of data, the chain of interceptors, requests that share a cached or
  expected answer, and the list of pending requests. It runs on the modelled promises (\<open>NgQ\<close>) and
  caches (\<open>NgCache\<close>). Parameters are the server (its answers are steps), cookies, the functions
  the application passes, and the serializer of parameters (a configuration holds its result).
\<close>

section \<open>Data and headers\<close>

text \<open>
  \<open>toJson\<close> leaves out the properties of Angular itself, whose names begin with two dollars, and does
  not look into what it takes for a scope. Windows and documents are no values of the model.
\<close>

definition dollar_key :: "string \<Rightarrow> bool" where
  "dollar_key k \<longleftrightarrow> take 2 k = ''$$''"

definition isScope :: "(string \<times> js) list \<Rightarrow> bool" where
  "isScope ps \<longleftrightarrow> (\<forall>k \<in> {''$evalAsync'', ''$watch''}. case map_of ps k of Some v \<Rightarrow> truthy v | None \<Rightarrow> False)"

fun toJsonReplacer :: "js \<Rightarrow> js" and replace_elems :: "js list \<Rightarrow> js list"
  and replace_members :: "(string \<times> js) list \<Rightarrow> (string \<times> js) list" where
  "toJsonReplacer (JArr xs) = JArr (replace_elems xs)"
| "toJsonReplacer (JObj ps) = (if isScope ps then JStr ''$SCOPE'' else JObj (replace_members ps))"
| "toJsonReplacer v = v"
| "replace_elems [] = []"
| "replace_elems (x # xs) = toJsonReplacer x # replace_elems xs"
| "replace_members [] = []"
| "replace_members ((k, v) # ps) =
    (if dollar_key k then replace_members ps else (k, toJsonReplacer v) # replace_members ps)"

definition toJson :: "js \<Rightarrow> js" where
  "toJson v = (if v = JUndef then JUndef else json_stringify (toJsonReplacer v))"

definition fromJson :: "js \<Rightarrow> js_error + js" where
  "fromJson v = (case v of JStr s \<Rightarrow> json_parse s | _ \<Rightarrow> Inr v)"

text \<open>A transformation gets the data, the getter of headers, and the status (undefined in a request).\<close>

type_synonym transform = "js \<Rightarrow> (string \<Rightarrow> string option) \<Rightarrow> int option \<Rightarrow> js_error + js"

datatype transforms = OneTransform transform | Transforms "transform list"

fun transform_all :: "transform list \<Rightarrow> (string \<Rightarrow> string option) \<Rightarrow> int option \<Rightarrow> js \<Rightarrow> js_error + js" where
  "transform_all [] headers st data = Inr data"
| "transform_all (f # fs) headers st data =
    (case f data headers st of Inl e \<Rightarrow> Inl e | Inr d \<Rightarrow> transform_all fs headers st d)"

fun transformData :: "transforms \<Rightarrow> (string \<Rightarrow> string option) \<Rightarrow> int option \<Rightarrow> js \<Rightarrow> js_error + js" where
  "transformData (OneTransform f) headers st data = f data headers st"
| "transformData (Transforms fs) headers st data = transform_all fs headers st data"

definition isSuccess :: "int \<Rightarrow> bool" where
  "isSuccess st \<longleftrightarrow> 200 \<le> st \<and> st < 300"

text \<open>Files, blobs and forms are objects of the browser and no values of the model.\<close>

definition defaultHttpRequestTransform :: transform where
  "defaultHttpRequestTransform data headers st =
    Inr (case data of JObj _ \<Rightarrow> toJson data | JArr _ \<Rightarrow> toJson data | _ \<Rightarrow> data)"

text \<open>The prefix that keeps an answer from being run as a script: \<open>)]}',\<close> and a new line; the comma may miss.\<close>

definition strip_protection :: "string \<Rightarrow> string" where
  "strip_protection s =
    (if take 4 s = '')]}'' @ [CHR 0x27] then
       (let r = drop 4 s; r' = (if take 1 r = '','' then drop 1 r else r) in
        if take 1 r' = [CHR 0x0A] then drop 1 r' else s)
     else s)"

definition isJsonLike :: "string \<Rightarrow> bool" where
  "isJsonLike s \<longleftrightarrow> take 1 s = ''['' \<and> last s = CHR '']'' \<or>
     take 1 s = ''{'' \<and> take 1 (drop 1 s) \<noteq> ''{'' \<and> last s = CHR ''}''"

definition application_json :: string where
  "application_json = ''application/json''"

definition defaultHttpResponseTransform :: transform where
  "defaultHttpResponseTransform data headers st = (case data of
     JStr s \<Rightarrow>
      (let tempData = trim (strip_protection s);
           json = (case headers ''Content-Type'' of
             Some t \<Rightarrow> take (length application_json) t = application_json | None \<Rightarrow> False)
       in if tempData \<noteq> [] \<and> (json \<or> isJsonLike tempData) then fromJson (JStr tempData) else Inr data)
   | _ \<Rightarrow> Inr data)"

text \<open>\<open>parseHeaders\<close>: of the text of an answer, or of an object. Names are in lower case; equal ones are joined.\<close>

datatype raw_headers = RawText string | RawObject "(string \<times> string) list"

fun split_on :: "char \<Rightarrow> string \<Rightarrow> string list" where
  "split_on c [] = [[]]"
| "split_on c (x # xs) =
    (if x = c then [] # split_on c xs else (case split_on c xs of l # ls \<Rightarrow> (x # l) # ls | [] \<Rightarrow> [[x]]))"

definition fillInParsed :: "string \<Rightarrow> string \<Rightarrow> (string \<times> string) list \<Rightarrow> (string \<times> string) list" where
  "fillInParsed key val parsed =
    (if key = [] then parsed
     else aput key (case map_of parsed key of
         Some old \<Rightarrow> if old \<noteq> [] then old @ '', '' @ val else val | None \<Rightarrow> val) parsed)"

text \<open>A line without a colon has the empty name.\<close>

definition header_line :: "string \<Rightarrow> string \<times> string" where
  "header_line line =
    (let name = takeWhile (\<lambda>c. c \<noteq> CHR '':'') line
     in if CHR '':'' \<in> set line then (lowercase (trim name), trim (drop (length name + 1) line)) else ([], trim line))"

definition parseHeaders :: "raw_headers \<Rightarrow> (string \<times> string) list" where
  "parseHeaders h = (case h of
     RawText s \<Rightarrow> fold (\<lambda>line. case header_line line of (k, v) \<Rightarrow> fillInParsed k v) (split_on (CHR 0x0A) s) []
   | RawObject hs \<Rightarrow> fold (\<lambda>(k, v). fillInParsed (lowercase k) (trim v)) hs [])"

definition headersGetter :: "(string \<times> string) list \<Rightarrow> string \<Rightarrow> string option" where
  "headersGetter parsed name = map_of parsed (lowercase name)"

text \<open>\<open>shallowCopy\<close> of an object leaves out the names that begin with two dollars.\<close>

definition shallowCopy :: "(string \<times> 'v) list \<Rightarrow> (string \<times> 'v) list" where
  "shallowCopy ps = filter (\<lambda>(k, v). \<not> dollar_key k) ps"

definition buildUrl :: "string \<Rightarrow> string \<Rightarrow> string" where
  "buildUrl url serializedParams =
    (if serializedParams \<noteq> [] then url @ (if CHR ''?'' \<in> set url then ''&'' else ''?'') @ serializedParams else url)"

section \<open>Configurations\<close>

text \<open>The setting \<open>cache\<close>: absent (or null), false, true, or a cache (by its number; 0 is the service's own).\<close>

datatype cache_option = CUnset | CFalse | CTrue | CObject nat

text \<open>A header is a text or a function (by its number) of the configuration.\<close>

datatype header_value = HText string | HComputed nat

record request_config =
  rc_method :: "string option"
  rc_url :: string
  rc_params :: string
  rc_data :: js
  rc_headers :: "(string \<times> header_value) list"
  rc_transformRequest :: "transforms option"
  rc_transformResponse :: "transforms option"
  rc_cache :: cache_option
  rc_timeout :: js
  rc_withCredentials :: js
  rc_responseType :: js
  rc_xsrfCookieName :: "string option"
  rc_xsrfHeaderName :: "string option"

text \<open>What \<open>$http\<close> makes of it, an object of its own.\<close>

record http_config =
  cf_method :: string
  cf_url :: string
  cf_params :: string
  cf_data :: js
  cf_headers :: "(string \<times> string) list"
  cf_transformRequest :: transforms
  cf_transformResponse :: transforms
  cf_cache :: cache_option
  cf_timeout :: js
  cf_withCredentials :: js
  cf_responseType :: js
  cf_xsrfCookieName :: "string option"
  cf_xsrfHeaderName :: "string option"

record http_defaults =
  df_transformRequest :: transforms
  df_transformResponse :: transforms
  df_headers :: "(string \<times> (string \<times> header_value) list) list"
  df_cache :: cache_option
  df_withCredentials :: js
  df_xsrfCookieName :: string
  df_xsrfHeaderName :: string

definition json_header :: "(string \<times> header_value) list" where
  "json_header = [(''Content-Type'', HText (application_json @ '';charset=utf-8''))]"

definition http_defaults :: http_defaults where
  "http_defaults = \<lparr>df_transformRequest = Transforms [defaultHttpRequestTransform],
     df_transformResponse = Transforms [defaultHttpResponseTransform],
     df_headers = [(''common'', [(''Accept'', HText ''application/json, text/plain, */*'')]), (''post'', json_header),
       (''put'', json_header), (''patch'', json_header)],
     df_cache = CUnset, df_withCredentials = JUndef, df_xsrfCookieName = ''XSRF-TOKEN'', df_xsrfHeaderName = ''X-XSRF-TOKEN''\<rparr>"

section \<open>State\<close>

text \<open>An answer as the service passes it on, with parsed headers and the number of its configuration.\<close>

record response =
  rs_data :: js
  rs_status :: int
  rs_headers :: "(string \<times> string) list"
  rs_config :: nat
  rs_statusText :: string

datatype http_val = Config nat | Response response | Failed js_error | Other js

text \<open>
  The functions the service passes to \<open>then\<close>: of a call of \<open>$http\<close> (by its configuration), of a
  request (by its number), and those of interceptors and of the application, which may hand on
  another configuration but do not change one.
\<close>

datatype http_fn =
    ServerRequest nat
  | TransformResponse nat
  | RemovePending nat
  | ResolveWithResult nat
  | UserFn nat

text \<open>
  What a cache holds: the promise of a request, an answer, or a value the application has put there
  (\<open>undefined\<close> is not stored, and an array would be taken for an answer).
\<close>

definition storable :: "js \<Rightarrow> bool" where
  "storable v \<longleftrightarrow> v \<noteq> JUndef \<and> (case v of JArr _ \<Rightarrow> False | _ \<Rightarrow> True)"

datatype cached = Placeholder nat | Answer int js "(string \<times> string) list" string | Stored js

text \<open>The variables of a call of \<open>sendReq\<close>, and what it hands to \<open>$httpBackend\<close>.\<close>

record raw_request =
  rr_config :: nat
  rr_deferred :: nat
  rr_url :: string
  rr_cache :: "nat option"

record backend_call =
  bc_request :: nat
  bc_method :: string
  bc_url :: string
  bc_data :: js
  bc_headers :: "(string \<times> string) list"
  bc_timeout :: js
  bc_withCredentials :: js
  bc_responseType :: js

record late_answer =
  la_request :: nat
  la_data :: js
  la_status :: int
  la_headers :: raw_headers
  la_statusText :: string

text \<open>
  \<open>h_open\<close>: the requests the backend has not answered yet; \<open>h_later\<close>: answers that wait for the
  next digest (\<open>$applyAsync\<close>).
\<close>

record http_state =
  h_q :: "(http_val, http_fn) qstate"
  h_configs :: "http_config list"
  h_requests :: "raw_request list"
  pendingRequests :: "nat list"
  h_caches :: "cached cache list"
  h_sent :: "backend_call list"
  h_open :: "nat list"
  h_later :: "late_answer list"

record http_env =
  he_defaults :: http_defaults
  he_cookies :: "string \<Rightarrow> string option"
  he_same_origin :: "string \<Rightarrow> bool"
  he_applyAsync :: bool
  he_header_fn :: "nat \<Rightarrow> request_config \<Rightarrow> string option"
  he_user :: "nat \<Rightarrow> http_val qval \<Rightarrow> http_val outcome"

section \<open>Building a configuration\<close>

text \<open>\<open>mergeHeaders\<close>: a default header is taken where the request has none of that name, in any case.\<close>

definition mergeHeaders :: "http_defaults \<Rightarrow> request_config \<Rightarrow> (string \<times> header_value) list" where
  "mergeHeaders df rc =
    (let named = (\<lambda>k. case map_of (df_headers df) k of Some hs \<Rightarrow> hs | None \<Rightarrow> []);
         defHeaders = fold (\<lambda>(k, v). aput k v)
           (named ''common'' @ (case rc_method rc of Some m \<Rightarrow> named (lowercase m) | None \<Rightarrow> [])) []
     in fold (\<lambda>(k, v) hs. if \<exists>h \<in> set hs. lowercase (fst h) = lowercase k then hs else hs @ [(k, v)])
          defHeaders (rc_headers rc))"

fun executeHeaderFns :: "(nat \<Rightarrow> request_config \<Rightarrow> string option) \<Rightarrow> request_config \<Rightarrow>
    (string \<times> header_value) list \<Rightarrow> (string \<times> string) list" where
  "executeHeaderFns fn rc [] = []"
| "executeHeaderFns fn rc ((k, HText v) # hs) = (k, v) # executeHeaderFns fn rc hs"
| "executeHeaderFns fn rc ((k, HComputed n) # hs) =
    (case fn n rc of Some v \<Rightarrow> (k, v) # executeHeaderFns fn rc hs | None \<Rightarrow> executeHeaderFns fn rc hs)"

definition new_config :: "http_env \<Rightarrow> request_config \<Rightarrow> http_config" where
  "new_config env rc =
    (let df = he_defaults env; or = (\<lambda>x d. case x of Some y \<Rightarrow> y | None \<Rightarrow> d) in
     \<lparr>cf_method = uppercase (case rc_method rc of Some m \<Rightarrow> m | None \<Rightarrow> ''get''), cf_url = rc_url rc, cf_params = rc_params rc,
      cf_data = rc_data rc, cf_headers = executeHeaderFns (he_header_fn env) rc (mergeHeaders df rc),
      cf_transformRequest = or (rc_transformRequest rc) (df_transformRequest df),
      cf_transformResponse = or (rc_transformResponse rc) (df_transformResponse df),
      cf_cache = rc_cache rc, cf_timeout = rc_timeout rc, cf_withCredentials = rc_withCredentials rc,
      cf_responseType = rc_responseType rc, cf_xsrfCookieName = rc_xsrfCookieName rc, cf_xsrfHeaderName = rc_xsrfHeaderName rc\<rparr>)"

section \<open>Sending a request\<close>

text \<open>An operation on a cache, which exists.\<close>

definition on_cache :: "nat \<Rightarrow> (cached cache, 'a) comp \<Rightarrow> (http_state, 'a) comp" where
  "on_cache a m s =
    (if a < length (h_caches s)
     then (case m (h_caches s ! a) of (r, c) \<Rightarrow> (r, s\<lparr>h_caches := (h_caches s)[a := c]\<rparr>))
     else (Inl (TypeError ''get''), s))"

definition cache_for :: "cache_option \<Rightarrow> cache_option \<Rightarrow> string \<Rightarrow> nat option" where
  "cache_for setting standard verb =
    (if (setting \<in> {CUnset, CFalse} \<and> standard \<in> {CUnset, CFalse}) \<or> setting = CFalse \<or> verb \<notin> {''GET'', ''JSONP''} then None
     else Some (case setting of CObject a \<Rightarrow> a | _ \<Rightarrow> (case standard of CObject a \<Rightarrow> a | _ \<Rightarrow> 0)))"

definition set_q :: "(http_val, http_fn) qstate \<Rightarrow> http_state \<Rightarrow> http_state" where
  "set_q q s = s\<lparr>h_q := q\<rparr>"

definition resolvePromise :: "nat \<Rightarrow> js \<Rightarrow> int \<Rightarrow> raw_headers \<Rightarrow> string \<Rightarrow> http_state \<Rightarrow> http_state" where
  "resolvePromise k data st headers statusText s =
    (let r = h_requests s ! k; st' = (if st \<ge> -1 then st else 0);
         v = Val (Response \<lparr>rs_data = data, rs_status = st', rs_headers = parseHeaders headers, rs_config = rr_config r,
           rs_statusText = statusText\<rparr>)
     in set_q ((if isSuccess st' then q_resolve else q_reject) (rr_deferred r) v (h_q s)) s)"

text \<open>What is found in the cache: a promise to wait for, or an answer.\<close>

definition serve_cached :: "nat \<Rightarrow> cached \<Rightarrow> http_state \<Rightarrow> http_state" where
  "serve_cached k x s = (case x of
     Placeholder p \<Rightarrow> set_q (snd (q_then p (User (ResolveWithResult k)) (User (ResolveWithResult k)) NoHandler (h_q s))) s
   | Answer st data headers statusText \<Rightarrow> resolvePromise k data st (RawObject (shallowCopy headers)) statusText s
   | Stored v \<Rightarrow> resolvePromise k v 200 (RawObject []) ''OK'' s)"

definition xsrf_header :: "http_env \<Rightarrow> http_config \<Rightarrow> (string \<times> string) list" where
  "xsrf_header env cfg =
    (let value = (if he_same_origin env (cf_url cfg)
           then he_cookies env (case cf_xsrfCookieName cfg of Some n \<Rightarrow> n | None \<Rightarrow> df_xsrfCookieName (he_defaults env)) else None);
         name = (case cf_xsrfHeaderName cfg of Some n \<Rightarrow> n | None \<Rightarrow> df_xsrfHeaderName (he_defaults env))
     in case value of Some v \<Rightarrow> if v \<noteq> [] then aput name v (cf_headers cfg) else cf_headers cfg | None \<Rightarrow> cf_headers cfg)"

text \<open>The call of \<open>$httpBackend\<close>; the header is set in the configuration itself.\<close>

definition send_backend :: "http_env \<Rightarrow> nat \<Rightarrow> js \<Rightarrow> http_state \<Rightarrow> http_state" where
  "send_backend env k reqData s =
    (let r = h_requests s ! k; c = rr_config r; cfg = h_configs s ! c; headers = xsrf_header env cfg in
     s\<lparr>h_configs := (h_configs s)[c := cfg\<lparr>cf_headers := headers\<rparr>],
       h_sent := h_sent s @ [\<lparr>bc_request = k, bc_method = cf_method cfg, bc_url = rr_url r, bc_data = reqData, bc_headers = headers,
         bc_timeout = cf_timeout cfg, bc_withCredentials = cf_withCredentials cfg, bc_responseType = cf_responseType cfg\<rparr>],
       h_open := h_open s @ [k]\<rparr>)"

text \<open>A new request: its deferred, its place among the pending ones, and the callback that removes it there.\<close>

definition new_request :: "http_env \<Rightarrow> nat \<Rightarrow> http_state \<Rightarrow> nat \<times> http_state" where
  "new_request env c s =
    (let cfg = h_configs s ! c; k = length (h_requests s) in
     case new_deferred (h_q s) of (d, q) \<Rightarrow>
       (d, s\<lparr>h_q := snd (q_then d (User (RemovePending k)) (User (RemovePending k)) NoHandler q),
         pendingRequests := pendingRequests s @ [c],
         h_requests := h_requests s @ [\<lparr>rr_config = c, rr_deferred = d, rr_url = buildUrl (cf_url cfg) (cf_params cfg),
           rr_cache = cache_for (cf_cache cfg) (df_cache (he_defaults env)) (cf_method cfg)\<rparr>]\<rparr>))"

definition sendReq :: "http_env \<Rightarrow> nat \<Rightarrow> js \<Rightarrow> (http_state, nat) comp" where
  "sendReq env c reqData s =
    (let k = length (h_requests s) in
     case new_request env c s of (d, s1) \<Rightarrow>
       (let r = h_requests s1 ! k in
        bindM (case rr_cache r of None \<Rightarrow> ret None | Some a \<Rightarrow> on_cache a (cache_get (rr_url r)))
          (\<lambda>cachedResp. case cachedResp of
             Some x \<Rightarrow> seqM (modS (serve_cached k x)) (ret d)
           | None \<Rightarrow> seqM (case rr_cache r of None \<Rightarrow> ret None
                 | Some a \<Rightarrow> on_cache a (cache_put (rr_url r) (Some (Placeholder d))))
               (seqM (modS (send_backend env k reqData)) (ret d))) s1))"

text \<open>\<open>done\<close>, which the backend calls with its answer; the digest that follows runs the queue of \<open>$q\<close>.\<close>

definition http_done :: "http_env \<Rightarrow> nat \<Rightarrow> int \<Rightarrow> js \<Rightarrow> raw_headers \<Rightarrow> string \<Rightarrow> (http_state, unit) comp" where
  "http_done env k st response headersString statusText s =
    (let r = h_requests s ! k in
     seqM (case rr_cache r of
         None \<Rightarrow> ret ()
       | Some a \<Rightarrow> if isSuccess st
           then seqM (on_cache a (cache_put (rr_url r) (Some (Answer st response (parseHeaders headersString) statusText)))) (ret ())
           else on_cache a (cache_remove (rr_url r)))
       (modS (\<lambda>t. if he_applyAsync env
          then t\<lparr>h_later := h_later t @ [\<lparr>la_request = k, la_data = response, la_status = st, la_headers = headersString,
            la_statusText = statusText\<rparr>]\<rparr>
          else resolvePromise k response st headersString statusText t)) s)"

definition resolveHttpPromise :: "late_answer \<Rightarrow> http_state \<Rightarrow> http_state" where
  "resolveHttpPromise l = resolvePromise (la_request l) (la_data l) (la_status l) (la_headers l) (la_statusText l)"

text \<open>\<open>serverRequest\<close> of the call with configuration \<open>i\<close>, on the configuration \<open>c\<close> the interceptors leave.\<close>

definition strip_content_type :: "(string \<times> string) list \<Rightarrow> (string \<times> string) list" where
  "strip_content_type hs = filter (\<lambda>(k, v). lowercase k \<noteq> ''content-type'') hs"

definition serverRequest :: "http_env \<Rightarrow> nat \<Rightarrow> nat \<Rightarrow> (http_state, nat) comp" where
  "serverRequest env i c s =
    (let cfg = h_configs s ! c in
     case transformData (cf_transformRequest cfg) (headersGetter (parseHeaders (RawObject (cf_headers cfg)))) None (cf_data cfg) of
       Inl e \<Rightarrow> (Inl e, s)
     | Inr reqData \<Rightarrow>
        (let cfg' = cfg\<lparr>cf_headers := (if reqData = JUndef then strip_content_type (cf_headers cfg) else cf_headers cfg),
             cf_withCredentials := (if cf_withCredentials cfg = JUndef then df_withCredentials (he_defaults env)
               else cf_withCredentials cfg)\<rparr>
         in bindM (sendReq env c reqData) (\<lambda>d t.
              case q_then d (User (TransformResponse i)) (User (TransformResponse i)) NoHandler (h_q t) of
                (p, q) \<Rightarrow> (Inr p, set_q q t)) (s\<lparr>h_configs := (h_configs s)[c := cfg']\<rparr>)))"

section \<open>The functions of the service\<close>

text \<open>
  A call from the queue of \<open>$q\<close>. \<open>transformResponse\<close> takes its transformations from the
  configuration of the call of \<open>$http\<close>; a failed response becomes a rejected promise.
\<close>

definition transformResponse :: "nat \<Rightarrow> response \<Rightarrow> http_state \<Rightarrow> http_val outcome \<times> http_state" where
  "transformResponse i r s =
    (case transformData (cf_transformResponse (h_configs s ! i)) (headersGetter (rs_headers r)) (Some (rs_status r)) (rs_data r) of
       Inl e \<Rightarrow> (Throws (Val (Failed e)), s)
     | Inr data \<Rightarrow>
        (let resp = r\<lparr>rs_data := data\<rparr> in
         if isSuccess (rs_status r) then (Returns (Val (Response resp)), s)
         else (case makePromise (Val (Response resp)) False (h_q s) of (p, q) \<Rightarrow> (Returns (Promise p), set_q q s))))"

definition removePendingReq :: "nat \<Rightarrow> http_state \<Rightarrow> http_state" where
  "removePendingReq k s = s\<lparr>pendingRequests := remove1 (rr_config (h_requests s ! k)) (pendingRequests s)\<rparr>"

definition resolvePromiseWithResult :: "nat \<Rightarrow> response \<Rightarrow> http_state \<Rightarrow> http_state" where
  "resolvePromiseWithResult k r s =
    resolvePromise k (rs_data r) (rs_status r) (RawObject (shallowCopy (rs_headers r))) (rs_statusText r) s"

definition not_a :: "string \<Rightarrow> http_val outcome" where
  "not_a what = Throws (Val (Failed (TypeError what)))"

definition http_call :: "http_env \<Rightarrow> http_fn \<Rightarrow> http_val qval \<Rightarrow> http_state \<Rightarrow> http_val outcome \<times> http_state" where
  "http_call env f v s0 =
    (let s = set_q ((h_q s0)\<lparr>user_calls := user_calls (h_q s0) @ [(f, v)]\<rparr>) s0 in
     case f of
       RemovePending k \<Rightarrow> (Returns Undef, removePendingReq k s)
     | ResolveWithResult k \<Rightarrow> (case v of
           Val (Response r) \<Rightarrow> (Returns Undef, resolvePromiseWithResult k r s)
         | _ \<Rightarrow> (not_a ''headers'', s))
     | TransformResponse i \<Rightarrow> (case v of
           Val (Response r) \<Rightarrow> transformResponse i r s
         | _ \<Rightarrow> (not_a ''data'', s))
     | ServerRequest i \<Rightarrow> (case v of
           Val (Config c) \<Rightarrow>
            (if c < length (h_configs s) then
               (case serverRequest env i c s of
                  (Inl e, t) \<Rightarrow> (Throws (Val (Failed e)), t)
                | (Inr p, t) \<Rightarrow> (Returns (Promise p), t))
             else (not_a ''headers'', s))
         | _ \<Rightarrow> (not_a ''headers'', s))
     | UserFn n \<Rightarrow> (he_user env n v, s))"

text \<open>
  \<open>processQueue\<close> with these functions (\<open>NgQ.processQueue\<close> with functions that change the state of
  \<open>$http\<close> too).
\<close>

definition no_users :: "(http_val, http_fn) users" where
  "no_users f v = ([], Returns Undef)"

definition http_process_entry :: "http_env \<Rightarrow> nat \<Rightarrow> (http_val, http_fn) NgQ.entry \<Rightarrow> http_state \<Rightarrow> http_state" where
  "http_process_entry env p e s =
    (case e of (d, onFulfilled, onRejected, progressBack) \<Rightarrow>
      let st = status (promises (h_q s) ! p); v = settled_value (promises (h_q s) ! p);
          fn = (if st = 1 then onFulfilled else onRejected)
      in case fn of
           User f \<Rightarrow>
            (case http_call env f v s of
               (Returns w, t) \<Rightarrow> set_q (q_resolve d w (h_q t)) t
             | (Throws x, t) \<Rightarrow> set_q ((q_reject d x (h_q t))\<lparr>exceptions := exceptions (h_q t) @ [x]\<rparr>) t)
         | _ \<Rightarrow> set_q (process_entry no_users p e (h_q s)) s)"

definition http_processQueue :: "http_env \<Rightarrow> nat \<Rightarrow> http_state \<Rightarrow> http_state" where
  "http_processQueue env p s =
    (case pending (promises (h_q s) ! p) of
       None \<Rightarrow> s
     | Some a \<Rightarrow> fold (http_process_entry env p) (arrays (h_q s) ! a)
         (set_q (update_promise p (\<lambda>q. q\<lparr>processScheduled := False, pending := None\<rparr>) (h_q s)) s))"

definition http_tick :: "http_env \<Rightarrow> http_state \<Rightarrow> http_state" where
  "http_tick env s =
    (case ticks (h_q s) of
       [] \<Rightarrow> s
     | t # ts \<Rightarrow>
        (let s1 = set_q ((h_q s)\<lparr>ticks := ts\<rparr>) s in
         case t of ProcessQueue p \<Rightarrow> http_processQueue env p s1
         | NotifyAll a v \<Rightarrow> set_q (run_tick no_users t (h_q s1)) s1))"

section \<open>A call of the service\<close>

text \<open>An interceptor: what it has for requests and responses, each a function or nothing.\<close>

record interceptor =
  ic_request :: "(http_val, http_fn) handler"
  ic_requestError :: "(http_val, http_fn) handler"
  ic_response :: "(http_val, http_fn) handler"
  ic_responseError :: "(http_val, http_fn) handler"

type_synonym chain_link = "(http_val, http_fn) handler \<times> (http_val, http_fn) handler"

definition apply_interceptor :: "interceptor \<Rightarrow> chain_link list \<Rightarrow> chain_link list" where
  "apply_interceptor ic chain =
    (let before = (if ic_request ic \<noteq> NoHandler \<or> ic_requestError ic \<noteq> NoHandler
           then [(ic_request ic, ic_requestError ic)] else []);
         after = (if ic_response ic \<noteq> NoHandler \<or> ic_responseError ic \<noteq> NoHandler
           then [(ic_response ic, ic_responseError ic)] else [])
     in before @ chain @ after)"

text \<open>The service keeps the registered interceptors in reverse.\<close>

definition reversedInterceptors :: "interceptor list \<Rightarrow> interceptor list" where
  "reversedInterceptors ics = fold (\<lambda>ic rs. ic # rs) ics []"

definition interceptor_chain :: "interceptor list \<Rightarrow> nat \<Rightarrow> chain_link list" where
  "interceptor_chain reversed i = fold apply_interceptor reversed [(User (ServerRequest i), NoHandler)]"

definition then_chain :: "chain_link list \<Rightarrow> nat \<Rightarrow> (http_val, http_fn) qstate \<Rightarrow> nat \<times> (http_val, http_fn) qstate" where
  "then_chain chain p q = fold (\<lambda>(f, g) (p, q). q_then p f g NoHandler q) chain (p, q)"

definition http :: "http_env \<Rightarrow> interceptor list \<Rightarrow> request_config \<Rightarrow> http_state \<Rightarrow> nat \<times> http_state" where
  "http env ics rc s =
    (let i = length (h_configs s); s1 = s\<lparr>h_configs := h_configs s @ [new_config env rc]\<rparr> in
     case q_when (Val (Config i)) NoHandler NoHandler NoHandler (h_q s1) of
       (p, q) \<Rightarrow> (case then_chain (interceptor_chain (reversedInterceptors ics) i) p q of
         (r, q') \<Rightarrow> (r, set_q q' s1)))"

text \<open>The shortcuts, with and without data; \<open>success\<close> and \<open>error\<close> of the promise are callbacks of it.\<close>

definition short_method :: "string \<Rightarrow> string \<Rightarrow> request_config \<Rightarrow> request_config" where
  "short_method name url rc = rc\<lparr>rc_method := Some name, rc_url := url\<rparr>"

definition short_method_with_data :: "string \<Rightarrow> string \<Rightarrow> js \<Rightarrow> request_config \<Rightarrow> request_config" where
  "short_method_with_data name url data rc = rc\<lparr>rc_method := Some name, rc_url := url, rc_data := data\<rparr>"

definition promise_success :: "nat \<Rightarrow> nat \<Rightarrow> http_state \<Rightarrow> http_state" where
  "promise_success p f s = set_q (snd (q_then p (User (UserFn f)) NoHandler NoHandler (h_q s))) s"

definition promise_error :: "nat \<Rightarrow> nat \<Rightarrow> http_state \<Rightarrow> http_state" where
  "promise_error p f s = set_q (snd (q_then p NotAFunction (User (UserFn f)) NoHandler (h_q s))) s"

text \<open>The service at its start, with its own cache and those the application has made for it, without a capacity.\<close>

definition fresh_http :: "string list \<Rightarrow> http_state" where
  "fresh_http names = \<lparr>h_q = empty_q, h_configs = [], h_requests = [], pendingRequests = [],
     h_caches = map (\<lambda>n. new_cache n None) (''$http'' # names), h_sent = [], h_open = [], h_later = []\<rparr>"

section \<open>Examples\<close>

text \<open>An environment without cookies, default headers and transformations, whose functions are not used.\<close>

definition quiet_env :: http_env where
  "quiet_env = \<lparr>he_defaults = http_defaults\<lparr>df_transformRequest := Transforms [], df_transformResponse := Transforms [], df_headers := []\<rparr>,
     he_cookies = (\<lambda>n. None), he_same_origin = (\<lambda>u. True), he_applyAsync = False,
     he_header_fn = (\<lambda>n c. None), he_user = (\<lambda>n v. Returns v)\<rparr>"

definition get_request :: "string \<Rightarrow> cache_option \<Rightarrow> request_config" where
  "get_request url setting = \<lparr>rc_method = None, rc_url = url, rc_params = [], rc_data = JUndef, rc_headers = [], rc_transformRequest = None,
     rc_transformResponse = None, rc_cache = setting, rc_timeout = JUndef, rc_withCredentials = JUndef, rc_responseType = JUndef,
     rc_xsrfCookieName = None, rc_xsrfHeaderName = None\<rparr>"

text \<open>Two calls for the same address; both have reached \<open>sendReq\<close>; the server has answered; all is quiet.\<close>

definition two_calls :: http_state where
  "two_calls = snd (http quiet_env [] (get_request ''/a'' CTrue) (snd (http quiet_env [] (get_request ''/a'' CTrue) (fresh_http []))))"

definition sent_calls :: http_state where
  "sent_calls = (http_tick quiet_env ^^ 2) two_calls"

definition answered_calls :: http_state where
  "answered_calls = (snd (http_done quiet_env 0 200 (JStr ''x'') (RawText []) ''OK'' sent_calls))\<lparr>h_open := remove1 0 (h_open sent_calls)\<rparr>"

definition quiet_calls :: http_state where
  "quiet_calls = (http_tick quiet_env ^^ 4) answered_calls"

end
