(* ===== verification/NgHttpProps.thy ===== *)
theory NgHttpProps
  imports NgHttp
begin

text \<open>
  What \<open>$http\<close> guarantees. The invariant \<open>http_ok\<close> says of every request who will settle its
  promise: the server, an answer that waits, or the callback on the promise of an earlier request
  for the same address; and that only requests whose removal is still to come are pending.
\<close>

section \<open>Promises that only the service settles\<close>

text \<open>
  \<open>D\<close> are the promises of requests: the library never settles them by itself, since no callback
  resolves one of them and none follows another promise.
\<close>

definition entries :: "('v, 'f) qstate \<Rightarrow> ('v, 'f) NgQ.entry set" where
  "entries q = \<Union> (set ` set (arrays q))"

text \<open>The handlers of the service: functions of its own or of users, and those that follow a promise.\<close>

fun plain :: "('v, 'f) handler \<Rightarrow> bool" where
  "plain (Finally ok h) = False"
| "plain (MakePromise v ok) = False"
| "plain MakeRejected = False"
| "plain (AllResolved i k) = False"
| "plain (AllRejected i k) = False"
| "plain h = True"

fun plain_entry :: "('v, 'f) NgQ.entry \<Rightarrow> bool" where
  "plain_entry (r, f, g, h) = (plain f \<and> plain g \<and> plain h)"

definition raw_ok :: "nat set \<Rightarrow> ('v, 'f) qstate \<Rightarrow> bool" where
  "raw_ok D q \<longleftrightarrow> queue_ok q \<and> (\<forall>d \<in> D. d < length (promises q) \<and> status (promises q ! d) \<ge> 0) \<and>
     (\<forall>e \<in> entries q. fst e < length (promises q) \<and> fst e \<notin> D \<and> plain_entry e)"

text \<open>A move of the queue that settles promises of \<open>D\<close> with responses only.\<close>

definition moves :: "nat set \<Rightarrow> (http_val, 'f) qstate \<Rightarrow> (http_val, 'f) qstate \<Rightarrow> bool" where
  "moves D q q' \<longleftrightarrow> raw_ok D q' \<and> appends q q' \<and> advances q q' \<and>
     (\<forall>d \<in> D. status (promises q ! d) = 0 \<longrightarrow> status (promises q' ! d) > 0 \<longrightarrow>
        (\<exists>r. settled_value (promises q' ! d) = Val (Response r)))"

lemma raw_okD:
  assumes "raw_ok D q"
  shows "queue_ok q" "q_inv q" "queue_but {} q"
    and "d \<in> D \<Longrightarrow> d < length (promises q)" "d \<in> D \<Longrightarrow> status (promises q ! d) \<ge> 0"
    and "e \<in> entries q \<Longrightarrow> fst e < length (promises q) \<and> fst e \<notin> D \<and> plain_entry e"
  using assms by (auto simp: raw_ok_def queue_ok_def)

lemma moves_refl: "raw_ok D q \<Longrightarrow> moves D q q"
  by (simp add: moves_def advances_refl raw_okD)

lemma moves_ok: "moves D q q' \<Longrightarrow> raw_ok D q'"
  by (simp add: moves_def)

lemma advances_status:
  "advances q q' \<Longrightarrow> p < length (promises q) \<Longrightarrow> status (promises q ! p) > 0 \<Longrightarrow>
    status (promises q' ! p) = status (promises q ! p) \<and> settled_value (promises q' ! p) = settled_value (promises q ! p)"
  by (simp add: advances_def settled_def)

lemma moves_trans:
  assumes D: "raw_ok D q" and a: "moves D q q'" and b: "moves D q' q''"
  shows "moves D q q''"
proof -
  have "\<exists>r. settled_value (promises q'' ! d) = Val (Response r)"
    if "d \<in> D" "status (promises q ! d) = 0" "status (promises q'' ! d) > 0" for d
  proof (cases "status (promises q' ! d) > 0")
    case True
    with a b that show ?thesis
      by (metis advances_status moves_def raw_okD(4))
  next
    case False
    with a that raw_okD(5) [OF moves_ok [OF a] that(1)] have "status (promises q' ! d) = 0" by simp
    with b that show ?thesis by (simp add: moves_def)
  qed
  with a b show ?thesis by (auto simp: moves_def intro: appends_trans advances_trans)
qed

text \<open>What leaves the promises of \<open>D\<close> alone, and adds entries for new promises only.\<close>

definition leaves :: "nat set \<Rightarrow> ('v, 'f) qstate \<Rightarrow> ('v, 'f) qstate \<Rightarrow> bool" where
  "leaves D q q' \<longleftrightarrow> length (promises q) \<le> length (promises q') \<and>
     (\<forall>d \<in> D. status (promises q' ! d) = status (promises q ! d)) \<and>
     (\<forall>e \<in> entries q'. e \<in> entries q \<or> length (promises q) \<le> fst e \<and> fst e < length (promises q') \<and> plain_entry e)"

lemma leaves_refl [simp]: "leaves D q q"
  by (simp add: leaves_def)

lemma leaves_trans: "leaves D q q' \<Longrightarrow> leaves D q' q'' \<Longrightarrow> leaves D q q''"
  unfolding leaves_def by (auto dest!: bspec)

lemma leaves_moves:
  assumes D: "raw_ok D q" and l: "leaves D q q'" and q': "queue_but {} q'" "appends q q'" "advances q q'"
  shows "moves D q q'"
proof -
  have "d < length (promises q') \<and> status (promises q' ! d) \<ge> 0" if "d \<in> D" for d
    using raw_okD(4,5) [OF D that] l that by (auto simp: leaves_def)
  moreover have "fst e < length (promises q') \<and> fst e \<notin> D \<and> plain_entry e" if "e \<in> entries q'" for e
  proof (cases "e \<in> entries q")
    case True
    with raw_okD(6) [OF D True] l show ?thesis by (auto simp: leaves_def)
  next
    case False
    with l that have "length (promises q) \<le> fst e" "fst e < length (promises q')" "plain_entry e" by (auto simp: leaves_def)
    with raw_okD(4) [OF D, of "fst e"] show ?thesis by auto
  qed
  ultimately have "raw_ok D q'" using q'(1) advances_inv [OF q'(3)] by (simp add: raw_ok_def queue_ok_def)
  with l q' show ?thesis by (auto simp: moves_def leaves_def)
qed

lemma leaves_same:
  "promises q' = promises q \<Longrightarrow> arrays q' = arrays q \<Longrightarrow> leaves D q q'"
  by (simp add: leaves_def entries_def)

lemma leaves_write: "d \<notin> D \<Longrightarrow> leaves D q (update_promise d f q)"
  by (auto simp: leaves_def update_promise_def nth_update entries_def)

lemma leaves_schedule: "leaves D q (scheduleProcessQueue d q)"
  by (auto simp: leaves_def scheduleProcessQueue_def update_promise_def nth_update entries_def)

lemma entries_push: "entries (push_pending d e q) \<subseteq> insert e (entries q)"
proof (cases "pending (promises q ! d)")
  case (Some a)
  show ?thesis
  proof (cases "a < length (arrays q)")
    case True
    then have "set (arrays q ! a) \<subseteq> entries q" using nth_mem [OF True] by (auto simp: entries_def simp del: nth_mem)
    with Some set_update_subset_insert [of "arrays q" a "arrays q ! a @ [e]"] show ?thesis
      by (fastforce simp: push_pending_def entries_def)
  qed (use Some in \<open>auto simp: push_pending_def entries_def not_less list_update_beyond\<close>)
qed (auto simp: push_pending_def entries_def update_promise_def)

lemma leaves_then:
  assumes "\<forall>d \<in> D. d < length (promises q)" and "plain f" "plain g" "plain h"
  shows "leaves D q (snd (q_then d f g h q))"
proof (cases "\<not> exists_in q d \<or> f = NoHandler \<and> g = NoHandler \<and> h = NoHandler")
  case False
  obtain r q1 where n: "new_deferred q = (r, q1)" by fastforce
  let ?q2 = "push_pending d (r, f, g, h) q1"
  have "leaves D q ?q2"
    using n assms entries_push [of d "(r, f, g, h)" q1] by (auto simp: leaves_def new_deferred_def nth_append entries_def)
  then have "leaves D q (if b then scheduleProcessQueue d ?q2 else ?q2)" for b
    by (auto intro: leaves_trans leaves_schedule)
  with False n show ?thesis by (simp only: q_then_def if_False) (simp add: Let_def)
qed (auto simp: q_then_def)

text \<open>The operations of the library; a promise of \<open>D\<close> is settled with a response at most.\<close>

lemma leaves_settle_rejected: "d \<notin> D \<Longrightarrow> leaves D q (settle_rejected d v q)"
  unfolding settle_rejected_def by (rule leaves_trans [OF leaves_write leaves_schedule])

lemma leaves_settle_resolved:
  assumes "d \<notin> D" and "\<forall>d \<in> D. d < length (promises q)"
  shows "leaves D q (settle_resolved d v q)"
proof (cases "\<exists>p. v = Promise p")
  case True
  then obtain p where p: "v = Promise p" ..
  let ?t = "(update_promise d (\<lambda>p. p\<lparr>status := -1\<rparr>) q)\<lparr>cells := cells q @ [(d, False)]\<rparr>"
  have "leaves D q ?t" by (rule leaves_trans [OF leaves_write [OF assms(1)] leaves_same]) simp_all
  moreover have "leaves D ?t (snd (q_then p (ResolveOnce c) (RejectOnce c) (NotifyDeferred d) ?t))" for c
    using assms(2) by (intro leaves_then) (simp_all add: update_promise_def)
  ultimately have "leaves D q (snd (q_then p (ResolveOnce c) (RejectOnce c) (NotifyDeferred d) ?t))" for c
    by (rule leaves_trans)
  with p show ?thesis by (simp add: settle_resolved_def Let_def)
next
  case False
  then have t: "settle_resolved d v q =
      scheduleProcessQueue d (update_promise d (\<lambda>p. p\<lparr>settled_value := v, status := 1\<rparr>) q)"
    by (cases v) (auto simp: settle_resolved_def)
  show ?thesis unfolding t by (rule leaves_trans [OF leaves_write [OF assms(1)] leaves_schedule])
qed

lemma leaves_deferred:
  assumes "d \<notin> D" and "\<forall>d \<in> D. d < length (promises q)"
  shows "leaves D q (q_reject d v q)" "leaves D q (q_resolve d v q)"
  using leaves_settle_rejected [OF assms(1)] leaves_settle_resolved [OF assms]
  by (auto simp: q_reject_def q_resolve_def)

lemma leaves_notify: "leaves D q (q_notify d v q)"
  by (auto simp: q_notify_def intro: leaves_same split: option.split)

lemma leaves_new: "\<forall>d \<in> D. d < length (promises q) \<Longrightarrow> leaves D q (snd (new_deferred q))"
  by (auto simp: leaves_def new_deferred_def nth_append entries_def)

lemma leaves_made: "\<forall>d \<in> D. d < length (promises q) \<Longrightarrow> makePromise v ok q = (p, q') \<Longrightarrow> leaves D q q'"
proof -
  assume D: "\<forall>d \<in> D. d < length (promises q)" and m: "makePromise v ok q = (p, q')"
  obtain d q1 where n: "new_deferred q = (d, q1)" by fastforce
  have l: "leaves D q q1" using leaves_new [OF D] n by simp
  have "d \<notin> D" "\<forall>d \<in> D. d < length (promises q1)" using D n by (auto simp: new_deferred_def)
  from leaves_deferred [OF this, of v] l m n show ?thesis by (auto simp: makePromise_def intro: leaves_trans)
qed

lemma leaves_then_pair: "\<forall>d \<in> D. d < length (promises q) \<Longrightarrow> plain f \<Longrightarrow> plain g \<Longrightarrow> plain h \<Longrightarrow> q_then d f g h q = (r, q') \<Longrightarrow> leaves D q q'"
  using leaves_then [of D q f g h d] by simp

lemma leaves_before:
  "leaves D q' t \<Longrightarrow> promises q' = promises q \<Longrightarrow> arrays q' = arrays q \<Longrightarrow> leaves D q t"
  by (simp add: leaves_def entries_def)

text \<open>A plain handler settles only what follows another promise.\<close>

lemma leaves_handler:
  assumes q: "q_inv q" "\<forall>d \<in> D. d < length (promises q) \<and> status (promises q ! d) \<ge> 0" and h: "plain h"
  shows "leaves D q (snd (call_handler no_users h v q))"
proof -
  have open_cell: "fst (cells q ! c) \<notin> D" if "\<not> (c \<ge> length (cells q) \<or> snd (cells q ! c))" for c
  proof -
    from q(1) that have "status (promises q ! fst (cells q ! c)) = -1" by (auto simp: q_inv_def)
    with q(2) show ?thesis by auto
  qed
  from h show ?thesis
  proof (cases h)
    case (User f)
    then show ?thesis by (simp add: call_user_def no_users_def leaves_same)
  next
    case (ResolveOnce c)
    with open_cell [of c] q(2) show ?thesis by (auto intro!: leaves_before [OF leaves_settle_resolved])
  next
    case (RejectOnce c)
    with open_cell [of c] show ?thesis by (auto intro!: leaves_before [OF leaves_settle_rejected])
  qed (simp_all add: leaves_notify)
qed

text \<open>Settling a promise with a plain value, exactly.\<close>

lemma schedule_keeps [simp]:
  "length (promises (scheduleProcessQueue d q)) = length (promises q)"
  "status (promises (scheduleProcessQueue d q) ! p) = status (promises q ! p)"
  "settled_value (promises (scheduleProcessQueue d q) ! p) = settled_value (promises q ! p)"
  "arrays (scheduleProcessQueue d q) = arrays q"
  by (auto simp: scheduleProcessQueue_def update_promise_def nth_update)

lemma settle_value:
  fixes v :: 'v
  assumes "s = q_resolve d (Val v) q \<and> k = 1 \<or> s = q_reject d (Val v) q \<and> k = 2"
  shows "length (promises s) = length (promises q)" "arrays s = arrays q"
    "d < length (promises q) \<Longrightarrow> status (promises q ! d) = 0 \<Longrightarrow> status (promises s ! d) = k \<and> settled_value (promises s ! d) = Val v"
    "p \<noteq> d \<or> status (promises q ! d) \<noteq> 0 \<Longrightarrow> status (promises s ! p) = status (promises q ! p) \<and>
      settled_value (promises s ! p) = settled_value (promises q ! p)"
  using assms
  by (auto simp: q_resolve_def q_reject_def settle_resolved_def settle_rejected_def exists_in_def update_promise_def nth_update)

lemma raw_all: "raw_ok D q \<Longrightarrow> \<forall>d \<in> D. d < length (promises q)"
  by (simp add: raw_okD)

lemma moves_value:
  assumes D: "raw_ok D q"
  shows "moves D q (q_resolve d (Val (Response r)) q)" "moves D q (q_reject d (Val (Response r)) q)"
proof -
  have one: "moves D q s" if s: "s = q_resolve d (Val (Response r)) q \<and> k = 1 \<or> s = q_reject d (Val (Response r)) q \<and> k = 2" for s and k :: int
  proof -
    note exact = settle_value [OF s]
    have adv: "queue_but {} s" "appends q s" "advances q s"
      using s raw_okD(2,3) [OF D]
      by (auto simp: queue_resolve queue_reject advances_resolve advances_reject appends_deferred)
    have s': "queue_ok s" "appends q s" "advances q s"
      using adv advances_inv [OF adv(3)] by (simp_all add: queue_ok_def)
    have k: "k > 0" using s by auto
    have "status (promises s ! p) \<ge> 0" if "p \<in> D" for p
      using exact(3) exact(4) [of p] raw_okD(4,5) [OF D that] k by (cases "p \<noteq> d \<or> status (promises q ! d) \<noteq> 0") auto
    with D exact(1,2) s'(1) have "raw_ok D s" by (auto simp: raw_ok_def entries_def)
    moreover have "\<exists>r. settled_value (promises s ! p) = Val (Response r)"
      if "p \<in> D" "status (promises q ! p) = 0" "status (promises s ! p) > 0" for p
      using exact(3) exact(4) [of p] raw_okD(4) [OF D that(1)] that by (cases "p \<noteq> d \<or> status (promises q ! d) \<noteq> 0") auto
    ultimately show ?thesis using s' by (simp add: moves_def)
  qed
  show "moves D q (q_resolve d (Val (Response r)) q)" by (rule one [where k = 1]) simp
  show "moves D q (q_reject d (Val (Response r)) q)" by (rule one [where k = 2]) simp
qed

lemma moves_settle:
  assumes D: "raw_ok D q" and d: "d \<notin> D"
  shows "moves D q (q_resolve d v q)" "moves D q (q_reject d v q)"
  by (rule leaves_moves [OF D leaves_deferred(2) [OF d raw_all [OF D]] queue_resolve appends_deferred(2) advances_resolve],
      rule raw_okD(3) [OF D], rule raw_okD(2) [OF D],
      rule leaves_moves [OF D leaves_deferred(1) [OF d raw_all [OF D]] queue_reject appends_deferred(1) advances_reject],
      rule raw_okD(3) [OF D], rule raw_okD(2) [OF D])

lemma moves_then:
  assumes D: "raw_ok D q" and h: "plain f" "plain g" "plain h"
  shows "moves D q (snd (q_then d f g h q))"
  by (rule leaves_moves [OF D leaves_then [OF raw_all [OF D] h] queue_then appends_then advances_then])
    (rule raw_okD(3) [OF D], rule raw_okD(2) [OF D])

lemma moves_new:
  assumes D: "raw_ok D q"
  shows "moves D q (snd (new_deferred q))"
  by (rule leaves_moves [OF D leaves_new [OF raw_all [OF D]] queue_new_deferred appends_new [OF prod.collapse [symmetric]]
      advances_new_deferred]) (rule raw_okD(3) [OF D], rule raw_okD(2) [OF D])

lemma moves_made:
  assumes D: "raw_ok D q" and m: "makePromise v ok q = (p, q')"
  shows "moves D q q'"
  by (rule leaves_moves [OF D leaves_made [OF raw_all [OF D] m] queue_made [OF _ m] appends_make [OF m] advances_made [OF _ m]])
    (rule raw_okD(3) [OF D], rule raw_okD(2) [OF D])

text \<open>Writing a log changes nothing.\<close>

lemma moves_log:
  assumes D: "raw_ok D q" and "promises q' = promises q" "arrays q' = arrays q" "ticks q' = ticks q" "cells q' = cells q"
  shows "moves D q q'"
proof -
  have "q_inv q'" using raw_okD(2) [OF D] assms by (simp add: q_inv_def)
  moreover have "queue_but {} q'" using raw_okD(3) [OF D] queue_but_same [of q' q "{}"] assms by simp
  moreover have "advances q q'" using calculation(1) assms by (simp add: advances_def settled_def)
  moreover have "appends q q'" by (rule appends_same [where ts = "[]"]) (simp_all add: assms)
  ultimately show ?thesis by (intro leaves_moves [OF D leaves_same] assms)
qed

lemma moves_handler:
  assumes D: "raw_ok D q" and h: "plain h" "call_handler no_users h v q = (x, t)"
  shows "moves D q t"
  using leaves_handler [OF raw_okD(2) [OF D] _ h(1), of D v] queue_handler [OF raw_okD(2,3) [OF D], of no_users h v]
    appends_handler [of q no_users h v] advances_handler [OF raw_okD(2) [OF D], of no_users h v] h(2) raw_okD(4,5) [OF D]
  by (intro leaves_moves [OF D]) simp_all

lemma moves_exceptions: "raw_ok D q \<Longrightarrow> moves D q (q\<lparr>exceptions := l\<rparr>)"
  by (rule moves_log) simp_all

lemma moves_calls: "raw_ok D q \<Longrightarrow> moves D q (q\<lparr>user_calls := l\<rparr>)"
  by (rule moves_log) simp_all

lemma moves_rejected:
  assumes D: "raw_ok D q" and d: "d \<notin> D"
  shows "moves D q ((q_reject d x q)\<lparr>exceptions := l\<rparr>)"
  by (rule moves_trans [OF D moves_settle(2) [OF D d] moves_exceptions]) (rule moves_ok [OF moves_settle(2) [OF D d]])

lemma moves_process_entry:
  assumes D: "raw_ok D q" and e: "fst e \<notin> D" "plain_entry e"
  shows "moves D q (process_entry no_users p e q)"
proof -
  obtain d f g h where ed: "e = (d, f, g, h)" by (cases e)
  let ?h = "if status (promises q ! p) = 1 then f else g" and ?v = "settled_value (promises q ! p)"
  have d: "d \<notin> D" "plain ?h" using e ed by auto
  show ?thesis
  proof (cases "is_function ?h")
    case True
    obtain x t where c: "call_handler no_users ?h ?v q = (x, t)" by fastforce
    note t = moves_handler [OF D d(2) c]
    have "moves D q (q_resolve d w t)" "moves D q ((q_reject d w t)\<lparr>exceptions := exceptions t @ [w]\<rparr>)" for w
      by (rule moves_trans [OF D t], rule moves_settle moves_rejected, rule moves_ok [OF t], rule d)+
    with True c show ?thesis by (auto simp: process_entry_def ed Let_def split: outcome.split)
  next
    case False
    with moves_settle [OF D d(1)] show ?thesis by (auto simp: process_entry_def ed Let_def)
  qed
qed

lemma moves_notify_entry:
  assumes D: "raw_ok D q" and e: "plain_entry e"
  shows "moves D q (notify_entry no_users v e q)"
proof -
  obtain d f g h where ed: "e = (d, f, g, h)" by (cases e)
  have noted: "moves D q' (q_notify d w q')" if "raw_ok D q'" for q' w
    by (rule leaves_moves [OF that leaves_notify queue_notify appends_deferred(3) advances_notify])
      (rule raw_okD(3) [OF that], rule raw_okD(2) [OF that])
  show ?thesis
  proof (cases "is_function h")
    case True
    obtain x t where c: "call_handler no_users h v q = (x, t)" by fastforce
    have "plain h" using e ed by simp
    note t = moves_handler [OF D this c]
    have "moves D q (q_notify d w t)" "moves D q (t\<lparr>exceptions := exceptions t @ [w]\<rparr>)" for w
      by (rule moves_trans [OF D t], rule noted moves_exceptions, rule moves_ok [OF t])+
    with True c show ?thesis by (auto simp: notify_entry_def ed split: outcome.split)
  qed (use noted [OF D] ed in \<open>simp add: notify_entry_def\<close>)
qed

lemma moves_fold:
  assumes step: "\<And>x q. x \<in> set xs \<Longrightarrow> raw_ok D q \<Longrightarrow> moves D q (f x q)" and D: "raw_ok D q"
  shows "moves D q (fold f xs q)"
  using step D
proof (induction xs arbitrary: q)
  case (Cons x xs)
  have x: "moves D q (f x q)" by (rule Cons.prems) (simp_all add: Cons.prems)
  have "moves D (f x q) (fold f xs (f x q))"
    by (rule Cons.IH) (simp_all add: Cons.prems moves_ok [OF x])
  with moves_trans [OF Cons.prems(2) x] show ?case by simp
qed (simp add: moves_refl)

section \<open>The invariant of the service\<close>

text \<open>
  While a queue is processed, the callbacks \<open>es\<close> of the promise \<open>p\<close> are still to be called.
  \<open>live\<close>: a callback waits at a promise, or is one of these.
\<close>

definition live :: "nat \<Rightarrow> (http_val, http_fn) NgQ.entry list \<Rightarrow> (http_val, http_fn) qstate \<Rightarrow> nat \<Rightarrow>
    (http_val, http_fn) NgQ.entry \<Rightarrow> bool" where
  "live p es q d e \<longleftrightarrow> (\<exists>a. waits_in a d q \<and> e \<in> set (arrays q ! a)) \<or> d = p \<and> e \<in> set es"

definition on_both :: "http_fn \<Rightarrow> (http_val, http_fn) NgQ.entry \<Rightarrow> bool" where
  "on_both f e \<longleftrightarrow> fst (snd e) = User f \<and> fst (snd (snd e)) = User f"

definition deferreds :: "http_state \<Rightarrow> nat set" where
  "deferreds s = set (map rr_deferred (h_requests s))"

abbreviation deferred_of :: "http_state \<Rightarrow> nat \<Rightarrow> nat" where
  "deferred_of s k \<equiv> rr_deferred (h_requests s ! k)"

text \<open>Request \<open>k\<close> will be answered: by the server, in the next digest, or with an earlier request.\<close>

definition answer_comes :: "nat \<Rightarrow> (http_val, http_fn) NgQ.entry list \<Rightarrow> http_state \<Rightarrow> nat \<Rightarrow> bool" where
  "answer_comes p es s k \<longleftrightarrow> k \<in> set (h_open s) \<or> k \<in> set (map la_request (h_later s)) \<or>
     (\<exists>j < k. \<exists>e. live p es (h_q s) (deferred_of s j) e \<and> on_both (ResolveWithResult k) e)"

text \<open>The requests with configuration \<open>c\<close> whose callback still has to take them off the list.\<close>

definition unremoved :: "nat \<Rightarrow> (http_val, http_fn) NgQ.entry list \<Rightarrow> http_state \<Rightarrow> nat \<Rightarrow> nat set" where
  "unremoved p es s c = {k. k < length (h_requests s) \<and> rr_config (h_requests s ! k) = c \<and>
     (\<exists>e. live p es (h_q s) (deferred_of s k) e \<and> on_both (RemovePending k) e)}"

text \<open>A cache of the service forgets nothing by itself, is not destroyed, and promises in it are those of requests.\<close>

definition cache_fine :: "nat set \<Rightarrow> cached cache \<Rightarrow> bool" where
  "cache_fine D c \<longleftrightarrow> c_capacity c = None \<and>
     (\<exists>d. c_data c = Some d \<and> (\<forall>k p. map_of d k = Some (Placeholder p) \<longrightarrow> p \<in> D))"

definition cache_exists :: "http_state \<Rightarrow> cache_option \<Rightarrow> bool" where
  "cache_exists s x \<longleftrightarrow> (case x of CObject a \<Rightarrow> a < length (h_caches s) | _ \<Rightarrow> True)"

definition requests_ok :: "nat set \<Rightarrow> nat \<Rightarrow> (http_val, http_fn) NgQ.entry list \<Rightarrow> http_state \<Rightarrow> bool" where
  "requests_ok X p es s \<longleftrightarrow>
     (\<forall>k < length (h_requests s). status (promises (h_q s) ! deferred_of s k) > 0 \<longrightarrow>
        (\<exists>r. settled_value (promises (h_q s) ! deferred_of s k) = Val (Response r))) \<and>
     (\<forall>k < length (h_requests s). k \<notin> X \<longrightarrow> status (promises (h_q s) ! deferred_of s k) = 0 \<longrightarrow> answer_comes p es s k) \<and>
     (\<forall>c. count_list (pendingRequests s) c \<le> card (unremoved p es s c))"

definition http_ok :: "http_env \<Rightarrow> nat set \<Rightarrow> nat \<Rightarrow> (http_val, http_fn) NgQ.entry list \<Rightarrow> http_state \<Rightarrow> bool" where
  "http_ok env X p es s \<longleftrightarrow>
     raw_ok (deferreds s) (h_q s) \<and> requests_ok X p es s \<and>
     (es = [] \<or> p < length (promises (h_q s)) \<and> status (promises (h_q s) ! p) > 0) \<and>
     (\<forall>e \<in> set es. fst e < length (promises (h_q s)) \<and> fst e \<notin> deferreds s \<and> plain_entry e) \<and>
     (\<forall>k \<in> set (h_open s) \<union> set (map la_request (h_later s)). k < length (h_requests s)) \<and>
     h_caches s \<noteq> [] \<and> (\<forall>c \<in> set (h_caches s). cache_fine (deferreds s) c) \<and>
     cache_exists s (df_cache (he_defaults env)) \<and> (\<forall>cfg \<in> set (h_configs s). cache_exists s (cf_cache cfg)) \<and>
     (\<forall>r \<in> set (h_requests s). \<forall>a. rr_cache r = Some a \<longrightarrow> a < length (h_caches s))"

lemma http_okD:
  assumes "http_ok env X p es s"
  shows "raw_ok (deferreds s) (h_q s)" "requests_ok X p es s"
    and "es = [] \<or> p < length (promises (h_q s)) \<and> status (promises (h_q s) ! p) > 0"
    and "e \<in> set es \<Longrightarrow> fst e < length (promises (h_q s)) \<and> fst e \<notin> deferreds s \<and> plain_entry e"
    and "k \<in> set (h_open s) \<Longrightarrow> k < length (h_requests s)" "l \<in> set (h_later s) \<Longrightarrow> la_request l < length (h_requests s)"
    and "h_caches s \<noteq> []" "c \<in> set (h_caches s) \<Longrightarrow> cache_fine (deferreds s) c"
    and "cache_exists s (df_cache (he_defaults env))" "cfg \<in> set (h_configs s) \<Longrightarrow> cache_exists s (cf_cache cfg)"
    and "r \<in> set (h_requests s) \<Longrightarrow> rr_cache r = Some a \<Longrightarrow> a < length (h_caches s)"
  using assms by (auto simp: http_ok_def)

lemma requests_okD:
  assumes "requests_ok X p es s"
  shows "k < length (h_requests s) \<Longrightarrow> status (promises (h_q s) ! deferred_of s k) > 0 \<Longrightarrow>
      \<exists>r. settled_value (promises (h_q s) ! deferred_of s k) = Val (Response r)"
    and "k < length (h_requests s) \<Longrightarrow> k \<notin> X \<Longrightarrow> status (promises (h_q s) ! deferred_of s k) = 0 \<Longrightarrow> answer_comes p es s k"
    and "count_list (pendingRequests s) c \<le> card (unremoved p es s c)"
  using assms by (auto simp: requests_ok_def)

lemma deferred_in: "k < length (h_requests s) \<Longrightarrow> deferred_of s k \<in> deferreds s"
  by (simp add: deferreds_def)

lemma live_moves: "appends q q' \<Longrightarrow> live p es q d e \<Longrightarrow> live p es q' d e"
  unfolding live_def using appends_kept by blast

lemma finite_unremoved [simp]: "finite (unremoved p es s c)"
  by (simp add: unremoved_def)

text \<open>A move of the queue of promises.\<close>

lemma set_q_simps [simp]:
  "h_q (set_q q s) = q" "h_configs (set_q q s) = h_configs s" "h_requests (set_q q s) = h_requests s"
  "pendingRequests (set_q q s) = pendingRequests s" "h_caches (set_q q s) = h_caches s" "h_sent (set_q q s) = h_sent s"
  "h_open (set_q q s) = h_open s" "h_later (set_q q s) = h_later s" "deferreds (set_q q s) = deferreds s"
  "cache_exists (set_q q s) = cache_exists s" "set_q q' (set_q q s) = set_q q' s"
  by (simp_all add: set_q_def deferreds_def cache_exists_def fun_eq_iff split: cache_option.split)

lemma ok_moves:
  assumes ok: "http_ok env X p es s" and m: "moves (deferreds s) (h_q s) q'"
  shows "http_ok env X p es (set_q q' s)"
proof -
  note parts = http_okD [OF ok] and adv = m [unfolded moves_def]
  have was_open: "status (promises (h_q s) ! deferred_of s k) = 0"
    if "k < length (h_requests s)" "status (promises q' ! deferred_of s k) = 0" for k
    using that adv advances_status [of "h_q s" q' "deferred_of s k"] raw_okD(4,5) [OF parts(1) deferred_in [OF that(1)]] by fastforce
  have more: "unremoved p es s c \<subseteq> unremoved p es (set_q q' s) c" for c
    using adv live_moves [of "h_q s" q'] unfolding unremoved_def by (simp add: Collect_mono) blast
  have "requests_ok X p es (set_q q' s)"
    unfolding requests_ok_def
  proof (intro conjI allI impI)
    fix k assume k: "k < length (h_requests (set_q q' s))" "status (promises (h_q (set_q q' s)) ! deferred_of (set_q q' s) k) > 0"
    show "\<exists>r. settled_value (promises (h_q (set_q q' s)) ! deferred_of (set_q q' s) k) = Val (Response r)"
    proof (cases "status (promises (h_q s) ! deferred_of s k) > 0")
      case True
      with requests_okD(1) [OF parts(2)] k adv advances_status [of "h_q s" q' "deferred_of s k"]
        raw_okD(4) [OF parts(1) deferred_in] show ?thesis by auto
    next
      case False
      with raw_okD(5) [OF parts(1) deferred_in] k have "status (promises (h_q s) ! deferred_of s k) = 0" by fastforce
      with adv k show ?thesis by (auto intro: deferred_in)
    qed
  next
    fix k assume "k < length (h_requests (set_q q' s))" "k \<notin> X" "status (promises (h_q (set_q q' s)) ! deferred_of (set_q q' s) k) = 0"
    with was_open requests_okD(2) [OF parts(2)] have "answer_comes p es s k" by simp
    with adv live_moves [of "h_q s" q'] show "answer_comes p es (set_q q' s) k" by (simp add: answer_comes_def) blast
  next
    fix c
    from requests_okD(3) [OF parts(2), of c] card_mono [OF finite_unremoved more, of c]
    show "count_list (pendingRequests (set_q q' s)) c \<le> card (unremoved p es (set_q q' s) c)" by simp
  qed
  moreover have "length (promises (h_q s)) \<le> length (promises q')" using adv by (simp add: appends_def)
  moreover have "es = [] \<or> p < length (promises q') \<and> status (promises q' ! p) > 0"
    using parts(3) adv advances_status [of "h_q s" q' p] calculation(2) by auto
  ultimately show ?thesis
    using ok adv unfolding http_ok_def by (auto intro: less_le_trans)
qed

lemma ok_weaken: "http_ok env X p es s \<Longrightarrow> X \<subseteq> Y \<Longrightarrow> http_ok env Y p es s"
  by (auto simp: http_ok_def requests_ok_def)

lemma settled_not_zero:
  "moves D q q' \<Longrightarrow> p < length (promises q) \<Longrightarrow> status (promises q ! p) > 0 \<Longrightarrow> status (promises q' ! p) > 0"
  using advances_status [of q q' p] by (simp add: moves_def)

text \<open>Settling request \<open>k\<close> answers it.\<close>

lemma either: "(if b then f else g) d v q = f d v q \<or> (if b then f else g) d v q = g d v q"
  by simp

lemma resolvePromise_form:
  "\<exists>r q'. resolvePromise k data st headers tx s = set_q q' s \<and>
    (q' = q_resolve (deferred_of s k) (Val (Response r)) (h_q s) \<or> q' = q_reject (deferred_of s k) (Val (Response r)) (h_q s))"
  unfolding resolvePromise_def Let_def by (intro exI conjI, rule refl) (rule either)

lemma ok_resolvePromise:
  assumes ok: "http_ok env X p es s"
  shows "http_ok env (if k < length (h_requests s) then X - {k} else X) p es (resolvePromise k data st headers tx s)"
proof -
  note D = http_okD(1) [OF ok]
  let ?d = "deferred_of s k"
  obtain r q' where t: "resolvePromise k data st headers tx s = set_q q' s"
    and q': "q' = q_resolve ?d (Val (Response r)) (h_q s) \<or> q' = q_reject ?d (Val (Response r)) (h_q s)"
    using resolvePromise_form [of k data st headers tx s] by blast
  from q' have m: "moves (deferreds s) (h_q s) q'" using moves_value [OF D] by auto
  have ok': "http_ok env X p es (set_q q' s)" by (rule ok_moves [OF ok m])
  show ?thesis
  proof (cases "k < length (h_requests s)")
    case True
    have "status (promises q' ! ?d) \<noteq> 0"
      using q' settle_value(3,4) [of q' ?d "Response r" "h_q s"] raw_okD(4) [OF D deferred_in [OF True]] by fastforce
    with ok' have "http_ok env (X - {k}) p es (set_q q' s)" unfolding http_ok_def requests_ok_def by auto
    with True t show ?thesis by simp
  qed (use ok' t in simp)
qed

lemma resolvePromise_simps [simp]:
  "h_requests (resolvePromise k data st headers tx s) = h_requests s"
  "h_caches (resolvePromise k data st headers tx s) = h_caches s"
  "h_configs (resolvePromise k data st headers tx s) = h_configs s"
  by (simp_all add: resolvePromise_def Let_def)

text \<open>A callback has been taken: what waited for it is excused, or is no longer pending.\<close>

lemma live_Cons: "live p (e # es) q d e' \<longleftrightarrow> live p es q d e' \<or> d = p \<and> e' = e"
  by (auto simp: live_def)

lemma ok_consume_entry:
  assumes ok: "http_ok env X p (e # es) s"
    and pending: "\<And>c. count_list cs c \<le> card (unremoved p es s c)"
  shows "http_ok env (X \<union> {k. on_both (ResolveWithResult k) e}) p es (s\<lparr>pendingRequests := cs\<rparr>)"
proof -
  let ?t = "s\<lparr>pendingRequests := cs\<rparr>"
  have same: "unremoved p es ?t = unremoved p es s" "\<And>k. answer_comes p es ?t k = answer_comes p es s k" "deferreds ?t = deferreds s"
    "cache_exists ?t = cache_exists s"
    by (simp_all add: unremoved_def answer_comes_def deferreds_def cache_exists_def fun_eq_iff split: cache_option.split)
  have "answer_comes p es s k" if "answer_comes p (e # es) s k" "\<not> on_both (ResolveWithResult k) e" for k
    using that unfolding answer_comes_def live_Cons by blast
  with ok pending have "requests_ok (X \<union> {k. on_both (ResolveWithResult k) e}) p es ?t"
    unfolding http_ok_def requests_ok_def same by auto
  with ok same show ?thesis unfolding http_ok_def by auto
qed

lemma ok_consume_other:
  assumes ok: "http_ok env X p (e # es) s" and e: "\<And>k. \<not> on_both (RemovePending k) e"
  shows "http_ok env (X \<union> {k. on_both (ResolveWithResult k) e}) p es s"
proof -
  have "unremoved p es s c = unremoved p (e # es) s c" for c
    using e by (auto simp: unremoved_def live_Cons)
  then have "http_ok env (X \<union> {k. on_both (ResolveWithResult k) e}) p es (s\<lparr>pendingRequests := pendingRequests s\<rparr>)"
    using requests_okD(3) [OF http_okD(2) [OF ok]] by (intro ok_consume_entry [OF ok]) simp
  then show ?thesis by simp
qed

lemma count_list_remove1: "count_list (remove1 x xs) y = (if x = y then count_list xs y - 1 else count_list xs y)"
  by (induction xs) (auto simp: count_list_0_iff)

lemma ok_remove:
  assumes ok: "http_ok env X p (e # es) s" and e: "fst (snd e) = User (RemovePending k) \<or> fst (snd (snd e)) = User (RemovePending k)"
  shows "http_ok env X p es (removePendingReq k s)"
proof -
  let ?c = "rr_config (h_requests s ! k)"
  note pend = requests_okD(3) [OF http_okD(2) [OF ok]]
  have "count_list (remove1 ?c (pendingRequests s)) c \<le> card (unremoved p es s c)" for c
  proof (cases "c = ?c \<and> on_both (RemovePending k) e")
    case True
    have "unremoved p (e # es) s c \<subseteq> insert k (unremoved p es s c)"
      using True by (auto simp: unremoved_def live_Cons on_both_def)
    then have "card (unremoved p (e # es) s c) \<le> card (insert k (unremoved p es s c))" by (intro card_mono) auto
    also have "\<dots> \<le> Suc (card (unremoved p es s c))" by (simp add: card_insert_if)
    finally have "card (unremoved p (e # es) s c) \<le> Suc (card (unremoved p es s c))" .
    with pend [of c] True show ?thesis by (simp add: count_list_remove1)
  next
    case False
    have "unremoved p (e # es) s c = unremoved p es s c"
      using False e by (auto simp: unremoved_def live_Cons on_both_def)
    with pend [of c] show ?thesis by (simp add: count_list_remove1)
  qed
  then have "http_ok env (X \<union> {j. on_both (ResolveWithResult j) e}) p es (removePendingReq k s)"
    unfolding removePendingReq_def by (rule ok_consume_entry [OF ok])
  moreover have "{j. on_both (ResolveWithResult j) e} = {}" using e by (auto simp: on_both_def)
  ultimately show ?thesis by simp
qed

section \<open>Caches\<close>

lemma fine_mono: "cache_fine D c \<Longrightarrow> D \<subseteq> D' \<Longrightarrow> cache_fine D' c"
  unfolding cache_fine_def by blast

lemma fine_new: "cache_fine D (new_cache i None)"
  by (simp add: cache_fine_def new_cache_def)

lemma fine_get: "cache_fine D c \<Longrightarrow> \<exists>d. c_data c = Some d \<and> cache_get k c = (Inr (map_of d k), c)"
  by (auto simp: cache_fine_def cache_get_def Let_def)

lemma fine_put:
  assumes "cache_fine D c" and "\<And>p. x = Placeholder p \<Longrightarrow> p \<in> D"
  shows "\<exists>c'. cache_put k (Some x) c = (Inr (Some x), c') \<and> cache_fine D c'"
  using assms
  by (auto simp: cache_fine_def cache_put_def touch_def store_def evict_def seqM_def bindM_def ret_def)

lemma fine_remove: "cache_fine D c \<Longrightarrow> \<exists>c'. cache_remove k c = (Inr (), c') \<and> cache_fine D c'"
  by (auto simp: cache_fine_def cache_remove_def remove_data_def)

lemma fine_removeAll: "cache_fine D c \<Longrightarrow> \<exists>c'. cache_removeAll c = (Inr (), c') \<and> cache_fine D c'"
  by (simp add: cache_fine_def cache_removeAll_def)

text \<open>An operation on a cache that keeps it fine.\<close>

lemma ok_cache:
  assumes ok: "http_ok env X p es s" and a: "a < length (h_caches s)"
    and m: "\<And>c. cache_fine (deferreds s) c \<Longrightarrow> \<exists>r c'. m c = (Inr r, c') \<and> cache_fine (deferreds s) c'"
  shows "\<exists>r c'. on_cache a m s = (Inr r, s\<lparr>h_caches := (h_caches s)[a := c']\<rparr>) \<and> http_ok env X p es (s\<lparr>h_caches := (h_caches s)[a := c']\<rparr>)"
proof -
  from http_okD(8) [OF ok] a have "cache_fine (deferreds s) (h_caches s ! a)" by simp
  from m [OF this] obtain r c' where c': "m (h_caches s ! a) = (Inr r, c')" "cache_fine (deferreds s) c'" by blast
  let ?t = "s\<lparr>h_caches := (h_caches s)[a := c']\<rparr>"
  have "requests_ok X p es ?t = requests_ok X p es s"
    by (simp add: requests_ok_def unremoved_def answer_comes_def)
  moreover have "deferreds ?t = deferreds s" "cache_exists ?t = cache_exists s"
    by (simp_all add: deferreds_def cache_exists_def fun_eq_iff split: cache_option.split)
  moreover have "\<forall>c \<in> set (h_caches ?t). cache_fine (deferreds s) c"
    using http_okD(8) [OF ok] c'(2) set_update_subset_insert [of "h_caches s" a c'] by auto
  ultimately have "http_ok env X p es ?t" using ok unfolding http_ok_def by auto
  with a c' show ?thesis by (auto simp: on_cache_def)
qed

section \<open>A new request\<close>

lemma cache_for_exists:
  assumes "http_ok env X p es s" and "cfg \<in> set (h_configs s)" and "cache_for (cf_cache cfg) (df_cache (he_defaults env)) m = Some a"
  shows "a < length (h_caches s)"
  using assms(3) http_okD(7,9) [OF assms(1)] http_okD(10) [OF assms(1,2)]
  by (auto simp: cache_for_def cache_exists_def split: if_splits cache_option.splits)

lemma new_request_queue:
  fixes q :: "(http_val, http_fn) qstate"
  assumes D: "raw_ok D q" and n: "new_deferred q = (d, q1)" and f: "plain f" "plain g" and t: "q2 = snd (q_then d f g NoHandler q1)"
    and some: "f \<noteq> NoHandler"
  shows "raw_ok (insert d D) q2" "appends q q2" "advances q q2" "d = length (promises q)" "status (promises q2 ! d) = 0"
    "\<exists>a r. waits_in a d q2 \<and> (r, f, g, NoHandler) \<in> set (arrays q2 ! a)" "\<And>p. p < length (promises q) \<Longrightarrow> status (promises q2 ! p) = status (promises q ! p)"
proof -
  have d: "d = length (promises q)" "promises q1 = promises q @ [\<lparr>status = 0, settled_value = Undef, pending = None, processScheduled = False\<rparr>]"
    "arrays q1 = arrays q" using n by (auto simp: new_deferred_def)
  note m1 = moves_new [OF D, unfolded n snd_conv]
  have fresh: "d \<notin> D" using raw_okD(4) [OF D] d(1) by blast
  have "fst e \<noteq> d" if "e \<in> entries q1" for e
    using raw_okD(6) [OF D, of e] that d by (auto simp: entries_def)
  then have D1: "raw_ok (insert d D) q1"
    using moves_ok [OF m1] d unfolding raw_ok_def by auto
  have m2: "moves (insert d D) q1 q2" unfolding t by (rule moves_then [OF D1 f]) simp
  show "raw_ok (insert d D) q2" by (rule moves_ok [OF m2])
  show "appends q q2" "advances q q2" using m1 m2 by (auto simp: moves_def intro: appends_trans advances_trans)
  show "d = length (promises q)" by (rule d(1))
  have "\<forall>d \<in> {..d}. d < length (promises q1)" using d by auto
  then have l: "leaves {..d} q1 q2" unfolding t by (rule leaves_then) (simp_all add: f)
  then show "status (promises q2 ! p) = status (promises q ! p)" if "p < length (promises q)" for p
    using that d by (auto simp: leaves_def nth_append)
  from l show "status (promises q2 ! d) = 0" using d by (simp add: leaves_def)
  show "\<exists>a r. waits_in a d q2 \<and> (r, f, g, NoHandler) \<in> set (arrays q2 ! a)"
    using some by (auto simp: t q_then_def exists_in_def d new_deferred_def push_pending_def update_promise_def waits_in_def nth_append
        scheduleProcessQueue_def Let_def)
qed

lemma ok_new_request:
  assumes ok: "http_ok env X p es s" and c: "c < length (h_configs s)" and new: "new_request env c s = (d, t)"
  shows "http_ok env (insert (length (h_requests s)) X) p es t" "h_configs t = h_configs s" "h_caches t = h_caches s"
    "\<exists>r. h_requests t = h_requests s @ [r] \<and> rr_deferred r = d \<and> rr_config r = c \<and>
      (\<forall>a. rr_cache r = Some a \<longrightarrow> a < length (h_caches s))"
proof -
  let ?k = "length (h_requests s)" and ?cfg = "h_configs s ! c"
  obtain q where n: "new_deferred (h_q s) = (d, q)" using new by (auto simp: new_request_def Let_def split: prod.splits)
  let ?h = "User (RemovePending ?k) :: (http_val, http_fn) handler"
  let ?q = "snd (q_then d ?h ?h NoHandler q)"
  let ?r = "\<lparr>rr_config = c, rr_deferred = d, rr_url = buildUrl (cf_url ?cfg) (cf_params ?cfg),
    rr_cache = cache_for (cf_cache ?cfg) (df_cache (he_defaults env)) (cf_method ?cfg)\<rparr>"
  have t: "t = s\<lparr>h_q := ?q, pendingRequests := pendingRequests s @ [c], h_requests := h_requests s @ [?r]\<rparr>"
    using new n by (simp add: new_request_def Let_def)
  have cache: "\<forall>a. rr_cache ?r = Some a \<longrightarrow> a < length (h_caches s)" using cache_for_exists [OF ok, of ?cfg] c by auto
  then show "h_configs t = h_configs s" "h_caches t = h_caches s"
    "\<exists>r. h_requests t = h_requests s @ [r] \<and> rr_deferred r = d \<and> rr_config r = c \<and> (\<forall>a. rr_cache r = Some a \<longrightarrow> a < length (h_caches s))"
    by (auto simp: t)
  note D = http_okD(1) [OF ok]
  note queue = new_request_queue [OF D n, of ?h ?h ?q, simplified]
  have old: "deferred_of t j = deferred_of s j" "rr_config (h_requests t ! j) = rr_config (h_requests s ! j)" if "j < ?k" for j
    using that by (simp_all add: t nth_append)
  have D': "deferreds t = insert d (deferreds s)" by (auto simp: deferreds_def t)
  have ex: "cache_exists t = cache_exists s" by (simp add: cache_exists_def t fun_eq_iff split: cache_option.split)
  have len: "length (promises (h_q s)) \<le> length (promises ?q)" using queue(2) by (simp add: appends_def)
  have lives: "live p es ?q x e" if "live p es (h_q s) x e" for x e using live_moves [OF queue(2) that] .
  have val: "settled_value (promises ?q ! deferred_of s j) = settled_value (promises (h_q s) ! deferred_of s j)"
    if "j < ?k" "status (promises (h_q s) ! deferred_of s j) > 0" for j
    using advances_status [OF queue(3) raw_okD(4) [OF D deferred_in [OF that(1)]] that(2)] by simp
  have st: "status (promises ?q ! deferred_of s j) = status (promises (h_q s) ! deferred_of s j)" if "j < ?k" for j
    using queue(7) raw_okD(4) [OF D deferred_in [OF that]] by simp
  have th: "h_q t = ?q" "length (h_requests t) = Suc ?k" "deferred_of t ?k = d" "rr_config (h_requests t ! ?k) = c"
    "h_open t = h_open s" "h_later t = h_later s" "pendingRequests t = pendingRequests s @ [c]"
    by (simp_all add: t)
  have "requests_ok (insert ?k X) p es t"
    unfolding requests_ok_def
  proof (intro conjI allI impI)
    fix k assume "k < length (h_requests t)" "status (promises (h_q t) ! deferred_of t k) > 0"
    then show "\<exists>r. settled_value (promises (h_q t) ! deferred_of t k) = Val (Response r)"
      using requests_okD(1) [OF http_okD(2) [OF ok], of k] queue(5) val [of k] st [of k]
      by (cases "k < ?k") (auto simp: old th less_Suc_eq)
  next
    fix k assume k: "k < length (h_requests t)" "k \<notin> insert ?k X" "status (promises (h_q t) ! deferred_of t k) = 0"
    then have "k < ?k" by (simp add: th less_Suc_eq)
    with k st have "answer_comes p es s k" using requests_okD(2) [OF http_okD(2) [OF ok], of k] by (simp add: th old)
    with lives \<open>k < ?k\<close> show "answer_comes p es t k" unfolding answer_comes_def th
      by (metis old(1) order.strict_trans)
  next
    fix x
    have sub: "(if x = c then insert ?k (unremoved p es s x) else unremoved p es s x) \<subseteq> unremoved p es t x"
    proof -
      have "unremoved p es s x \<subseteq> unremoved p es t x"
        using lives unfolding unremoved_def th by (clarsimp simp: old less_Suc_eq) blast
      moreover have "?k \<in> unremoved p es t c"
        using queue(6) by (auto simp: unremoved_def th live_def on_both_def)
      ultimately show ?thesis by (cases "x = c") simp_all
    qed
    have "card (if x = c then insert ?k (unremoved p es s x) else unremoved p es s x) \<le> card (unremoved p es t x)"
      by (rule card_mono [OF finite_unremoved sub])
    moreover have "?k \<notin> unremoved p es s x" by (simp add: unremoved_def)
    ultimately show "count_list (pendingRequests t) x \<le> card (unremoved p es t x)"
      using requests_okD(3) [OF http_okD(2) [OF ok], of x] by (auto simp: th split: if_splits)
  qed
  moreover have "es = [] \<or> p < length (promises ?q) \<and> status (promises ?q ! p) > 0"
    using http_okD(3) [OF ok] len queue(7) [of p] by auto
  moreover have "fst e < length (promises ?q) \<and> fst e \<notin> insert d (deferreds s) \<and> plain_entry e" if "e \<in> set es" for e
    using http_okD(4) [OF ok that] len queue(4) by auto
  moreover have "\<forall>c \<in> set (h_caches s). cache_fine (insert d (deferreds s)) c"
    using http_okD(8) [OF ok] fine_mono by blast
  moreover have "\<forall>k \<in> set (h_open s) \<union> set (map la_request (h_later s)). k < Suc ?k"
    using http_okD(5,6) [OF ok] by (auto intro: less_SucI)
  moreover have "\<forall>r \<in> set (h_requests t). \<forall>a. rr_cache r = Some a \<longrightarrow> a < length (h_caches s)"
    using http_okD(11) [OF ok] cache by (auto simp: t)
  moreover have "h_configs t = h_configs s" "h_caches t = h_caches s" by (simp_all add: t)
  ultimately show "http_ok env (insert ?k X) p es t"
    using http_okD(7,9,10) [OF ok] queue(1) unfolding http_ok_def D' ex by (simp add: th)
qed

text \<open>Three ways to an answer: the server, an earlier request, the cache.\<close>

lemma ok_excuse:
  assumes "http_ok env X p es s" and "answer_comes p es s k"
  shows "http_ok env (X - {k}) p es s"
  using assms unfolding http_ok_def requests_ok_def by blast

lemma ok_send_backend:
  assumes ok: "http_ok env X p es s" and k: "k < length (h_requests s)"
  shows "http_ok env (X - {k}) p es (send_backend env k reqData s)"
proof -
  let ?c = "rr_config (h_requests s ! k)" and ?t = "send_backend env k reqData s"
  let ?cfg = "(h_configs s ! ?c)\<lparr>cf_headers := xsrf_header env (h_configs s ! ?c)\<rparr>"
  have t: "h_q ?t = h_q s" "h_requests ?t = h_requests s" "pendingRequests ?t = pendingRequests s" "h_caches ?t = h_caches s"
    "h_open ?t = h_open s @ [k]" "h_later ?t = h_later s" "h_configs ?t = (h_configs s)[?c := ?cfg]"
    by (simp_all add: send_backend_def Let_def)
  have same: "deferreds ?t = deferreds s" "cache_exists ?t = cache_exists s" "unremoved p es ?t = unremoved p es s"
    by (simp_all add: deferreds_def cache_exists_def unremoved_def t fun_eq_iff split: cache_option.split)
  have "answer_comes p es s j \<Longrightarrow> answer_comes p es ?t j" "answer_comes p es ?t k" for j
    by (auto simp: answer_comes_def t)
  then have "requests_ok (X - {k}) p es ?t"
    using http_okD(2) [OF ok] unfolding requests_ok_def same t by auto
  moreover have "\<forall>cfg \<in> set (h_configs ?t). cache_exists s (cf_cache cfg)"
  proof (cases "?c < length (h_configs s)")
    case True
    then have "h_configs s ! ?c \<in> set (h_configs s)" by simp
    then have "cache_exists s (cf_cache ?cfg)" using http_okD(10) [OF ok] by simp
    with http_okD(10) [OF ok] set_update_subset_insert [of "h_configs s" ?c ?cfg] show ?thesis by (auto simp: t)
  qed (use http_okD(10) [OF ok] in \<open>simp add: t list_update_beyond\<close>)
  ultimately show ?thesis using ok k unfolding http_ok_def same by (auto simp: t)
qed

lemma then_waits:
  assumes q: "queue_ok q" and d: "d < length (promises q)" and f: "f \<noteq> NoHandler"
  shows "\<exists>a r. waits_in a d (snd (q_then d f g h q)) \<and> (r, f, g, h) \<in> set (arrays (snd (q_then d f g h q)) ! a)"
proof -
  obtain r q1 where n: "new_deferred q = (r, q1)" by fastforce
  have q1: "d < length (promises q1)" "pending (promises q1 ! d) = pending (promises q ! d)" "arrays q1 = arrays q"
    using n d by (auto simp: new_deferred_def nth_append)
  have "\<exists>a. waits_in a d (push_pending d (r, f, g, h) q1) \<and> (r, f, g, h) \<in> set (arrays (push_pending d (r, f, g, h) q1) ! a)"
  proof (cases "pending (promises q ! d)")
    case (Some a)
    moreover have "a < length (arrays q)" using q d Some by (auto simp: queue_ok_def queue_but_def)
    ultimately show ?thesis using q1 by (auto simp: push_pending_def waits_in_def intro!: exI [of _ a])
  next
    case None
    with q1 show ?thesis by (auto simp: push_pending_def update_promise_def waits_in_def intro!: exI [of _ "length (arrays q)"])
  qed
  then obtain a where a: "waits_in a d (push_pending d (r, f, g, h) q1)"
    "(r, f, g, h) \<in> set (arrays (push_pending d (r, f, g, h) q1) ! a)" by blast
  let ?t = "snd (q_then d f g h q)"
  have "appends (push_pending d (r, f, g, h) q1) ?t"
    using d f n by (auto simp: q_then_def exists_in_def Let_def intro: appends_schedule)
  with a have "waits_in a d ?t" "(r, f, g, h) \<in> set (arrays ?t ! a)"
    using appends_kept by blast+
  then show ?thesis by blast
qed

lemma ok_serve_cached:
  assumes ok: "http_ok env X p es s" and k: "k < length (h_requests s)"
    and x: "\<And>d. x = Placeholder d \<Longrightarrow> \<exists>j < k. deferred_of s j = d"
  shows "http_ok env (X - {k}) p es (serve_cached k x s)"
proof (cases x)
  case (Placeholder d)
  with x obtain j where j: "j < k" "deferred_of s j = d" by blast
  let ?h = "User (ResolveWithResult k) :: (http_val, http_fn) handler"
  let ?q = "snd (q_then d ?h ?h NoHandler (h_q s))"
  note D = http_okD(1) [OF ok]
  have "http_ok env X p es (set_q ?q s)" by (rule ok_moves [OF ok moves_then [OF D]]) simp_all
  moreover have "d < length (promises (h_q s))" using raw_okD(4) [OF D, of d] deferred_in [of j s] j k by simp
  from then_waits [OF raw_okD(1) [OF D] this, of ?h ?h NoHandler] j(1)
  have "answer_comes p es (set_q ?q s) k"
    unfolding answer_comes_def live_def on_both_def by (fastforce simp: j(2))
  ultimately show ?thesis using Placeholder by (auto simp: serve_cached_def intro: ok_excuse)
next
  case (Answer st data headers tx)
  with ok_resolvePromise [OF ok, of k] k show ?thesis by (simp add: serve_cached_def)
next
  case (Stored v)
  with ok_resolvePromise [OF ok, of k] k show ?thesis by (simp add: serve_cached_def)
qed

lemma serve_simps [simp]:
  "h_configs (serve_cached k x s) = h_configs s" "h_requests (serve_cached k x s) = h_requests s"
  by (auto simp: serve_cached_def split: cached.split)

text \<open>\<open>sendReq\<close> never throws, and whoever calls it gets the promise of a request that will be answered.\<close>

lemma ok_sendReq:
  assumes ok: "http_ok env X p es s" and X: "X \<subseteq> {..<length (h_requests s)}" and c: "c < length (h_configs s)"
  shows "\<exists>d t. sendReq env c reqData s = (Inr d, t) \<and> http_ok env X p es t"
proof -
  let ?k = "length (h_requests s)"
  obtain d s1 where new: "new_request env c s = (d, s1)" by fastforce
  note n = ok_new_request [OF ok c new]
  from n(4) obtain r where r: "h_requests s1 = h_requests s @ [r]" "rr_deferred r = d" "\<And>a. rr_cache r = Some a \<Longrightarrow> a < length (h_caches s)"
    by blast
  have k: "?k < length (h_requests s1)" "h_requests s1 ! ?k = r" by (simp_all add: r(1))
  have drop: "insert ?k X - {?k} = X" using X by auto
  have send: "http_ok env X p es (send_backend env ?k reqData s2)"
    if "http_ok env (insert ?k X) p es s2" "h_requests s2 = h_requests s1" for s2
    using ok_send_backend [OF that(1), of ?k] that(2) k by (simp add: drop)
  show ?thesis
  proof (cases "rr_cache r")
    case None
    with send [OF n(1)] new k show ?thesis by (simp add: sendReq_def Let_def seqM_def bindM_def ret_def modS_def)
  next
    case (Some a)
    with r(3) n(3) have a: "a < length (h_caches s1)" by simp
    then have fine: "cache_fine (deferreds s) (h_caches s1 ! a)" using http_okD(8) [OF ok] n(3) by simp
    then obtain m where m: "c_data (h_caches s1 ! a) = Some m" "cache_get (rr_url r) (h_caches s1 ! a) = (Inr (map_of m (rr_url r)), h_caches s1 ! a)"
      using fine_get by blast
    have get: "on_cache a (cache_get (rr_url r)) s1 = (Inr (map_of m (rr_url r)), s1)"
      using a m(2) by (simp add: on_cache_def)
    show ?thesis
    proof (cases "map_of m (rr_url r)")
      case (Some x)
      have "\<exists>j < ?k. deferred_of s1 j = d'" if "x = Placeholder d'" for d'
      proof -
        have "d' \<in> deferreds s" using fine m(1) Some that by (simp add: cache_fine_def)
        then show ?thesis by (fastforce simp: deferreds_def in_set_conv_nth r(1) nth_append)
      qed
      from ok_serve_cached [OF n(1) k(1) this] have "http_ok env X p es (serve_cached ?k x s1)" by (simp add: drop)
      with \<open>rr_cache r = Some a\<close> Some get new k show ?thesis by (simp add: sendReq_def Let_def seqM_def bindM_def ret_def modS_def)
    next
      case None
      have "\<exists>y c'. cache_put (rr_url r) (Some (Placeholder d)) c = (Inr y, c') \<and> cache_fine (deferreds s1) c'"
        if "cache_fine (deferreds s1) c" for c
        using fine_put [OF that, of "Placeholder d" "rr_url r"] deferred_in [OF k(1)] k(2) r(2) by auto
      from ok_cache [where m = "cache_put (rr_url r) (Some (Placeholder d))", OF n(1) a this] obtain y c' where
        "on_cache a (cache_put (rr_url r) (Some (Placeholder d))) s1 = (Inr y, s1\<lparr>h_caches := (h_caches s1)[a := c']\<rparr>)"
        "http_ok env (insert ?k X) p es (s1\<lparr>h_caches := (h_caches s1)[a := c']\<rparr>)" by blast
      with send [of "s1\<lparr>h_caches := (h_caches s1)[a := c']\<rparr>"] \<open>rr_cache r = Some a\<close> None get new k show ?thesis
        by (simp add: sendReq_def Let_def seqM_def bindM_def ret_def modS_def)
    qed
  qed
qed

text \<open>\<open>serverRequest\<close>: the configuration is completed, and the answer transformed.\<close>

lemma ok_config:
  assumes ok: "http_ok env X p es s" and cfg: "cache_exists s (cf_cache cfg)"
  shows "http_ok env X p es (s\<lparr>h_configs := (h_configs s)[c := cfg]\<rparr>)"
proof -
  let ?t = "s\<lparr>h_configs := (h_configs s)[c := cfg]\<rparr>"
  have "requests_ok X p es ?t = requests_ok X p es s"
    by (simp add: requests_ok_def unremoved_def answer_comes_def)
  moreover have "deferreds ?t = deferreds s" "cache_exists ?t = cache_exists s"
    by (simp_all add: deferreds_def cache_exists_def fun_eq_iff split: cache_option.split)
  moreover have "\<forall>x \<in> set (h_configs ?t). cache_exists s (cf_cache x)"
    using http_okD(10) [OF ok] cfg set_update_subset_insert [of "h_configs s" c cfg] by auto
  ultimately show ?thesis using ok unfolding http_ok_def by auto
qed

lemma ok_then:
  assumes ok: "http_ok env X p es s" and f: "plain f" "plain g" "plain h" and t: "q_then d f g h (h_q s) = (r, q)"
  shows "http_ok env X p es (set_q q s)"
  using ok_moves [OF ok moves_then [OF http_okD(1) [OF ok] f, of d]] t by simp

lemma ok_serverRequest:
  assumes ok: "http_ok env X p es s" and X: "X \<subseteq> {..<length (h_requests s)}" and c: "c < length (h_configs s)"
  shows "http_ok env X p es (snd (serverRequest env i c s))"
proof (cases "transformData (cf_transformRequest (h_configs s ! c)) (headersGetter (parseHeaders (RawObject (cf_headers (h_configs s ! c)))))
    None (cf_data (h_configs s ! c))")
  case (Inl e)
  with ok show ?thesis by (simp add: serverRequest_def Let_def)
next
  case (Inr reqData)
  let ?cfg = "h_configs s ! c"
  let ?cfg' = "?cfg\<lparr>cf_headers := (if reqData = JUndef then strip_content_type (cf_headers ?cfg) else cf_headers ?cfg),
    cf_withCredentials := (if cf_withCredentials ?cfg = JUndef then df_withCredentials (he_defaults env) else cf_withCredentials ?cfg)\<rparr>"
  let ?s = "s\<lparr>h_configs := (h_configs s)[c := ?cfg']\<rparr>"
  have "cache_exists s (cf_cache ?cfg')" using http_okD(10) [OF ok, of ?cfg] c by simp
  note ok' = ok_config [OF ok this, of c]
  from ok_sendReq [OF ok', of c reqData] X c obtain d t where t: "sendReq env c reqData ?s = (Inr d, t)" "http_ok env X p es t"
    by auto
  obtain r q where q: "q_then d (User (TransformResponse i)) (User (TransformResponse i)) NoHandler (h_q t) = (r, q)" by fastforce
  have "serverRequest env i c s = (Inr r, set_q q t)"
    using Inr t(1) q by (simp add: serverRequest_def Let_def bindM_def)
  with ok_then [OF t(2) _ _ _ q] show ?thesis by simp
qed

section \<open>The queue\<close>

lemma ok_log: "http_ok env X p es s \<Longrightarrow> http_ok env X p es (set_q ((h_q s)\<lparr>user_calls := l\<rparr>) s)"
  by (rule ok_moves [OF _ moves_calls [OF http_okD(1)]])

lemma ok_transformResponse:
  assumes ok: "http_ok env X p es s"
  shows "http_ok env X p es (snd (transformResponse i r s))"
proof -
  have "http_ok env X p es (set_q q s)" if "makePromise v b (h_q s) = (d, q)" for v b d q
    by (rule ok_moves [OF ok moves_made [OF http_okD(1) [OF ok] that]])
  with ok show ?thesis by (auto simp: transformResponse_def Let_def split: sum.split prod.split)
qed

lemma ok_call_other:
  assumes ok: "http_ok env X p es s" and X: "X \<subseteq> {..<length (h_requests s)}"
    and f: "\<And>k. f \<noteq> RemovePending k" "\<And>k. f \<noteq> ResolveWithResult k"
  shows "http_ok env X p es (snd (http_call env f v s))"
proof -
  note ok' = ok_log [OF ok]
  show ?thesis
  proof (cases f)
    case (ServerRequest i)
    then show ?thesis
      using ok' ok_serverRequest [OF ok', of _ _ i] X
      by (auto simp: http_call_def Let_def split: qval.split http_val.split prod.split sum.split) (metis snd_conv)+
  next
    case (TransformResponse i)
    then show ?thesis
      using ok' ok_transformResponse [OF ok'] by (auto simp: http_call_def Let_def split: qval.split http_val.split)
  next
    case (UserFn n)
    with ok' show ?thesis by (simp add: http_call_def)
  qed (use f in auto)
qed

text \<open>After the call the promise of the callback is settled with what it answers.\<close>

lemma ok_settle:
  assumes ok: "http_ok env X p es s" and d: "d \<notin> deferreds s"
  shows "http_ok env X p es (set_q (q_resolve d w (h_q s)) s)"
    "http_ok env X p es (set_q ((q_reject d w (h_q s))\<lparr>exceptions := l\<rparr>) s)"
  by (rule ok_moves [OF ok moves_settle(1) [OF http_okD(1) [OF ok] d]], rule ok_moves [OF ok moves_rejected [OF http_okD(1) [OF ok] d]])

text \<open>One callback: it is called, and then it is no longer to be called.\<close>

lemma ok_out_of_range:
  assumes "http_ok env X p es s" and "\<And>k. k \<in> X \<Longrightarrow> length (h_requests s) \<le> k"
  shows "http_ok env {} p es s"
  using assms unfolding http_ok_def requests_ok_def by (auto dest: leD)

lemma ok_consume_nothing:
  assumes ok: "http_ok env {} p (e # es) s" and e: "\<And>f. \<not> on_both f e"
  shows "http_ok env {} p es s"
proof -
  have "{k. on_both (ResolveWithResult k) e} = {}" using e by simp
  with ok_consume_other [OF ok] e show ?thesis by simp
qed

lemma ok_result:
  assumes ok: "http_ok env {} p (e # es) s" and k: "fst (snd e) = User (ResolveWithResult k) \<or> fst (snd (snd e)) = User (ResolveWithResult k)"
  shows "v = settled_value (promises (h_q s) ! p) \<Longrightarrow>
    http_ok env {} p es (case v of Val (Response r) \<Rightarrow> resolvePromiseWithResult k r s | _ \<Rightarrow> s)"
proof -
  assume v: "v = settled_value (promises (h_q s) ! p)"
  have X: "{j. on_both (ResolveWithResult j) e} \<subseteq> {k}" and no: "\<And>j. \<not> on_both (RemovePending j) e"
    using k by (auto simp: on_both_def)
  have one: "http_ok env {k} p es s" using ok_consume_other [OF ok no] X by (auto intro: ok_weaken)
  show ?thesis
  proof (cases "\<exists>r. v = Val (Response r)")
    case True
    then obtain r where r: "v = Val (Response r)" by blast
    have "http_ok env {} p es (resolvePromiseWithResult k r s)"
    proof (cases "k < length (h_requests s)")
      case True
      with ok_resolvePromise [OF one, of k] show ?thesis by (simp add: resolvePromiseWithResult_def)
    next
      case False
      with ok_resolvePromise [OF one, of k] ok_out_of_range [of env "{k}" p es] show ?thesis
        by (simp add: resolvePromiseWithResult_def)
    qed
    with r show ?thesis by simp
  next
    case False
    then have p: "deferred_of s j \<noteq> p" if "j < length (h_requests s)" for j
      using requests_okD(1) [OF http_okD(2) [OF ok] that] http_okD(3) [OF ok] v by auto
    have "answer_comes p es s j" if "answer_comes p (e # es) s j" "j < length (h_requests s)" for j
      using that(1) p [OF order.strict_trans [OF _ that(2)]] unfolding answer_comes_def live_Cons by blast
    with one ok have "http_ok env {} p es s" unfolding http_ok_def requests_ok_def by auto
    with False show ?thesis by (auto split: qval.split http_val.split)
  qed
qed

lemma resolve_simps [simp]:
  "h_requests (resolvePromiseWithResult k r s) = h_requests s" "h_requests (removePendingReq k s) = h_requests s"
  "deferreds (resolvePromiseWithResult k r s) = deferreds s" "deferreds (removePendingReq k s) = deferreds s"
  by (simp_all add: resolvePromiseWithResult_def removePendingReq_def deferreds_def)

lemma ok_process_entry:
  assumes ok: "http_ok env {} p (e # es) s"
  shows "http_ok env {} p es (http_process_entry env p e s)"
proof -
  obtain d f g h where e: "e = (d, f, g, h)" by (cases e)
  let ?fn = "if status (promises (h_q s) ! p) = 1 then f else g" and ?v = "settled_value (promises (h_q s) ! p)"
  have d: "d \<notin> deferreds s" "plain_entry e" using http_okD(4) [OF ok, of e] e by simp_all
  show ?thesis
  proof (cases "\<exists>u. ?fn = User u")
    case False
    then have "\<not> on_both u e" for u by (auto simp: on_both_def e split: if_splits)
    from ok_consume_nothing [OF ok this] moves_process_entry [OF http_okD(1) [OF ok], of e p] d
    have "http_ok env {} p es (set_q (process_entry no_users p e (h_q s)) s)" by (intro ok_moves) (simp_all add: e)
    moreover have "http_process_entry env p e s = set_q (process_entry no_users p e (h_q s)) s"
      using False by (cases ?fn) (auto simp: http_process_entry_def e Let_def)
    ultimately show ?thesis by simp
  next
    case True
    then obtain u where u: "?fn = User u" by blast
    let ?s = "set_q ((h_q s)\<lparr>user_calls := user_calls (h_q s) @ [(u, ?v)]\<rparr>) s"
    have logged: "http_ok env {} p (e # es) ?s" by (rule ok_log [OF ok])
    obtain x t where t: "http_call env u ?v s = (x, t)" by fastforce
    have entry: "http_process_entry env p e s = (case x of Returns w \<Rightarrow> set_q (q_resolve d w (h_q t)) t
        | Throws w \<Rightarrow> set_q ((q_reject d w (h_q t))\<lparr>exceptions := exceptions (h_q t) @ [w]\<rparr>) t)"
      using u t by (simp add: http_process_entry_def e Let_def)
    have "http_ok env {} p es t \<and> d \<notin> deferreds t"
    proof (cases "\<exists>k. u = RemovePending k \<or> u = ResolveWithResult k")
      case True
      then obtain k where k: "u = RemovePending k \<or> u = ResolveWithResult k" by blast
      then show ?thesis
      proof
        assume r: "u = RemovePending k"
        with u have "fst (snd e) = User (RemovePending k) \<or> fst (snd (snd e)) = User (RemovePending k)" by (auto simp: e split: if_splits)
        from ok_remove [OF logged this] t r d(1) show ?thesis by (auto simp: http_call_def)
      next
        assume r: "u = ResolveWithResult k"
        with u have "fst (snd e) = User (ResolveWithResult k) \<or> fst (snd (snd e)) = User (ResolveWithResult k)" by (auto simp: e split: if_splits)
        from ok_result [OF logged this, of ?v] t r d(1) show ?thesis
          by (auto simp: http_call_def Let_def split: qval.splits http_val.splits)
      qed
    next
      case False
      then have "http_ok env {} p (e # es) t" using ok_call_other [OF ok, of u ?v] t by auto
      moreover from this have "d \<notin> deferreds t" using http_okD(4) [of env "{}" p "e # es" t e] by (simp add: e)
      moreover have "\<not> on_both (RemovePending k) e" "\<not> on_both (ResolveWithResult k) e" for k
        using False u by (auto simp: on_both_def e split: if_splits)
      ultimately show ?thesis using ok_consume_other [of env "{}" p e es t] by simp
    qed
    with ok_settle [of env "{}" p es t d] entry show ?thesis by (simp split: outcome.split)
  qed
qed

lemma ok_process_entries: "http_ok env {} p es s \<Longrightarrow> http_ok env {} p [] (fold (http_process_entry env p) es s)"
  by (induction es arbitrary: s) (auto intro: ok_process_entry)

lemma ok_other_promise: "http_ok env X p [] s \<Longrightarrow> http_ok env X p' [] s"
  by (simp add: http_ok_def requests_ok_def answer_comes_def unremoved_def live_def)

lemma entries_nth: "a < length (arrays q) \<Longrightarrow> e \<in> set (arrays q ! a) \<Longrightarrow> e \<in> entries q"
  by (auto simp: entries_def)

text \<open>Taking a promise from the queue: what waited at it is now to be called.\<close>

lemma ok_taken:
  assumes ok: "http_ok env {} 0 [] s" and t: "ticks (h_q s) = ProcessQueue p # ts" and a: "pending (promises (h_q s) ! p) = Some a"
  shows "http_ok env {} p (arrays (h_q s) ! a)
    (set_q (update_promise p (\<lambda>q. q\<lparr>processScheduled := False, pending := None\<rparr>) ((h_q s)\<lparr>ticks := ts\<rparr>)) s)"
proof -
  let ?q = "h_q s" and ?es = "arrays (h_q s) ! a"
  let ?u = "update_promise p (\<lambda>q. q\<lparr>processScheduled := False, pending := None\<rparr>) ((h_q s)\<lparr>ticks := ts\<rparr>)"
  note D = http_okD(1) [OF ok]
  obtain a' where "p < length (promises ?q)" "status (promises ?q ! p) > 0" "pending (promises ?q ! p) = Some a'" "a' < length (arrays ?q)"
    using scheduled_head [OF raw_okD(1) [OF D] t] by metis
  with a have p: "p < length (promises ?q)" "status (promises ?q ! p) > 0" "a < length (arrays ?q)" by simp_all
  have same: "length (promises ?u) = length (promises ?q)" "arrays ?u = arrays ?q"
    "status (promises ?u ! d) = status (promises ?q ! d)" "settled_value (promises ?u ! d) = settled_value (promises ?q ! d)" for d
    by (auto simp: update_promise_def nth_update)
  have "raw_ok (deferreds s) ?u"
    using D queue_ok_taken [OF raw_okD(1) [OF D] t] same unfolding raw_ok_def by (simp add: entries_def)
  moreover have lives: "live p ?es ?u d e" if "live 0 [] ?q d e" for d e
    using that a p by (cases "d = p") (auto simp: live_def waits_in_def update_promise_def nth_update)
  have "requests_ok {} p ?es (set_q ?u s)"
    unfolding requests_ok_def
  proof (intro conjI allI impI)
    fix k assume "k < length (h_requests (set_q ?u s))" "status (promises (h_q (set_q ?u s)) ! deferred_of (set_q ?u s) k) > 0"
    then show "\<exists>r. settled_value (promises (h_q (set_q ?u s)) ! deferred_of (set_q ?u s) k) = Val (Response r)"
      using requests_okD(1) [OF http_okD(2) [OF ok]] same by simp
  next
    fix k assume "k < length (h_requests (set_q ?u s))" "k \<notin> {}" "status (promises (h_q (set_q ?u s)) ! deferred_of (set_q ?u s) k) = 0"
    then have "answer_comes 0 [] s k" using requests_okD(2) [OF http_okD(2) [OF ok]] same by simp
    with lives show "answer_comes p ?es (set_q ?u s) k" by (simp add: answer_comes_def) blast
  next
    fix c
    have "unremoved 0 [] s c \<subseteq> unremoved p ?es (set_q ?u s) c" using lives by (simp add: unremoved_def) blast
    from card_mono [OF finite_unremoved this] requests_okD(3) [OF http_okD(2) [OF ok], of c]
    show "count_list (pendingRequests (set_q ?u s)) c \<le> card (unremoved p ?es (set_q ?u s) c)" by simp
  qed
  moreover have "fst e < length (promises ?q) \<and> fst e \<notin> deferreds s \<and> plain_entry e" if "e \<in> set ?es" for e
    using raw_okD(6) [OF D entries_nth [OF p(3) that]] .
  ultimately show ?thesis using ok p unfolding http_ok_def by (simp add: same)
qed

lemma ok_tick:
  assumes ok: "http_ok env {} 0 [] s"
  shows "http_ok env {} 0 [] (http_tick env s)"
proof (cases "ticks (h_q s)")
  case (Cons t ts)
  show ?thesis
  proof (cases t)
    case (ProcessQueue p)
    with Cons have t: "ticks (h_q s) = ProcessQueue p # ts" by simp
    obtain a where a: "pending (promises (h_q s) ! p) = Some a"
      using scheduled_head [OF raw_okD(1) [OF http_okD(1) [OF ok]] t] by metis
    from ok_other_promise [OF ok_process_entries [OF ok_taken [OF ok t a]]] show ?thesis
      using t a by (simp add: http_tick_def Let_def http_processQueue_def)
  next
    case (NotifyAll a v)
    with Cons have t: "ticks (h_q s) = NotifyAll a v # ts" by simp
    let ?q = "(h_q s)\<lparr>ticks := ts\<rparr>"
    note D = http_okD(1) [OF ok] and tick = queue_ok_notified [OF raw_okD(1) [OF http_okD(1) [OF ok]] t]
    have D': "raw_ok (deferreds s) ?q" using D tick(1) unfolding raw_ok_def by (simp add: entries_def)
    have "requests_ok {} 0 [] (set_q ?q s) = requests_ok {} 0 [] s"
      by (simp add: requests_ok_def answer_comes_def unremoved_def live_def waits_in_def)
    with ok D' have q: "http_ok env {} 0 [] (set_q ?q s)" unfolding http_ok_def by simp
    have plain: "plain_entry e" if "e \<in> set (arrays (h_q s) ! a)" for e
      using raw_okD(6) [OF D entries_nth [OF tick(2) that]] by simp
    have "moves (deferreds s) ?q (fold (notify_entry no_users v) (arrays (h_q s) ! a) ?q)"
      by (rule moves_fold [OF moves_notify_entry D']) (use plain in auto)
    from ok_moves [OF q, of "fold (notify_entry no_users v) (arrays (h_q s) ! a) ?q"] this show ?thesis
      using t by (simp add: http_tick_def Let_def)
  qed
qed (use ok in \<open>simp add: http_tick_def\<close>)

section \<open>Everything that can happen\<close>

definition user_handler :: "(http_val, http_fn) handler \<Rightarrow> bool" where
  "user_handler h \<longleftrightarrow> h = NoHandler \<or> h = NotAFunction \<or> (\<exists>n. h = User (UserFn n))"

definition user_interceptor :: "interceptor \<Rightarrow> bool" where
  "user_interceptor ic \<longleftrightarrow> user_handler (ic_request ic) \<and> user_handler (ic_requestError ic) \<and>
     user_handler (ic_response ic) \<and> user_handler (ic_responseError ic)"

text \<open>
  The application calls the service, adds callbacks and changes caches; the server answers in any
  order; the queue runs.
\<close>

inductive http_step :: "http_env \<Rightarrow> http_state \<Rightarrow> http_state \<Rightarrow> bool" for env where
  step_call: "list_all user_interceptor ics \<Longrightarrow> cache_exists s (rc_cache rc) \<Longrightarrow> http_step env s (snd (http env ics rc s))"
| step_answer: "k \<in> set (h_open s) \<Longrightarrow>
    http_step env s ((snd (http_done env k st data headers statusText s))\<lparr>h_open := remove1 k (h_open s)\<rparr>)"
| step_late: "h_later s = l # ls \<Longrightarrow> http_step env s (resolveHttpPromise l (s\<lparr>h_later := ls\<rparr>))"
| step_tick: "http_step env s (http_tick env s)"
| step_callback: "user_handler f \<Longrightarrow> user_handler g \<Longrightarrow> http_step env s (set_q (snd (q_then p f g NoHandler (h_q s))) s)"
| step_store: "a < length (h_caches s) \<Longrightarrow> storable v \<Longrightarrow> http_step env s (snd (on_cache a (cache_put k (Some (Stored v))) s))"
| step_forget: "a < length (h_caches s) \<Longrightarrow> http_step env s (snd (on_cache a (cache_remove k) s))"
| step_clear: "a < length (h_caches s) \<Longrightarrow> http_step env s (snd (on_cache a cache_removeAll s))"

lemma user_plain: "user_handler h \<Longrightarrow> plain h"
  by (auto simp: user_handler_def)

lemma chain_plain:
  "list_all user_interceptor ics \<Longrightarrow> \<forall>l \<in> set (fold apply_interceptor ics c). l \<in> set c \<or> plain (fst l) \<and> plain (snd l)"
proof (induction ics arbitrary: c)
  case (Cons ic ics)
  from Cons.prems have "\<forall>l \<in> set (apply_interceptor ic c). l \<in> set c \<or> plain (fst l) \<and> plain (snd l)"
    by (auto simp: apply_interceptor_def Let_def user_interceptor_def intro: user_plain split: if_splits)
  with Cons.IH [of "apply_interceptor ic c"] Cons.prems show ?case by auto
qed simp

lemma moves_chain:
  assumes "raw_ok D q" and "\<forall>l \<in> set chain. plain (fst l) \<and> plain (snd l)"
  shows "moves D q (snd (then_chain chain p q))"
  using assms
proof (induction chain arbitrary: p q)
  case (Cons l chain)
  obtain f g where l: "l = (f, g)" by (cases l)
  obtain r q1 where q1: "q_then p f g NoHandler q = (r, q1)" by fastforce
  have one: "moves D q q1" using moves_then [OF Cons.prems(1), of f g NoHandler p] Cons.prems(2) l q1 by simp
  with Cons.IH [OF moves_ok [OF one], of r] Cons.prems(2) have "moves D q1 (snd (then_chain chain r q1))" by simp
  from moves_trans [OF Cons.prems(1) one this] show ?case by (simp add: then_chain_def l q1)
qed (simp add: then_chain_def moves_refl)

lemma moves_when:
  assumes D: "raw_ok D q"
  shows "moves D q (snd (q_when (Val v) NoHandler NoHandler NoHandler q))"
proof -
  obtain d q1 where n: "new_deferred q = (d, q1)" by fastforce
  have one: "moves D q q1" using moves_new [OF D] n by simp
  have "d \<notin> D" using n raw_okD(4) [OF D, of d] by (auto simp: new_deferred_def)
  with moves_settle(1) [OF moves_ok [OF one]] have two: "moves D q1 (q_resolve d (Val v) q1)" by simp
  from moves_then [OF moves_ok [OF two], of NoHandler NoHandler NoHandler d]
  have "moves D q1 (snd (q_then d NoHandler NoHandler NoHandler (q_resolve d (Val v) q1)))"
    by (intro moves_trans [OF moves_ok [OF one] two]) simp
  from moves_trans [OF D one this] n show ?thesis by (simp add: q_when_def)
qed

lemma ok_http:
  assumes ok: "http_ok env X p es s" and ics: "list_all user_interceptor ics" and rc: "cache_exists s (rc_cache rc)"
  shows "http_ok env X p es (snd (http env ics rc s))"
proof -
  let ?s = "s\<lparr>h_configs := h_configs s @ [new_config env rc]\<rparr>" and ?i = "length (h_configs s)"
  have "requests_ok X p es ?s = requests_ok X p es s" by (simp add: requests_ok_def unremoved_def answer_comes_def)
  moreover have "deferreds ?s = deferreds s" "cache_exists ?s = cache_exists s"
    by (simp_all add: deferreds_def cache_exists_def fun_eq_iff split: cache_option.split)
  ultimately have s: "http_ok env X p es ?s" using ok rc unfolding http_ok_def by (auto simp: new_config_def Let_def)
  note D = http_okD(1) [OF s]
  obtain d q where w: "q_when (Val (Config ?i)) NoHandler NoHandler NoHandler (h_q ?s) = (d, q)" by fastforce
  then have one: "moves (deferreds ?s) (h_q ?s) q" using moves_when [OF D, of "Config ?i"] by simp
  have "list_all user_interceptor (reversedInterceptors ics)"
    using ics by (simp add: reversedInterceptors_def fold_Cons_rev [unfolded fun_eq_iff, rule_format] list_all_iff)
  from chain_plain [OF this] have "\<forall>l \<in> set (interceptor_chain (reversedInterceptors ics) ?i). plain (fst l) \<and> plain (snd l)"
    by (fastforce simp: interceptor_chain_def)
  from moves_trans [OF D one moves_chain [OF moves_ok [OF one] this, of d]] show ?thesis
    using ok_moves [OF s] w by (auto simp: http_def Let_def split: prod.split)
qed

lemma resolvePromise_settles:
  assumes D: "raw_ok (deferreds s) (h_q s)" and k: "k < length (h_requests s)"
  shows "status (promises (h_q (resolvePromise k data st headers tx s)) ! deferred_of s k) \<noteq> 0"
proof -
  obtain r q' where "resolvePromise k data st headers tx s = set_q q' s"
    "q' = q_resolve (deferred_of s k) (Val (Response r)) (h_q s) \<or> q' = q_reject (deferred_of s k) (Val (Response r)) (h_q s)"
    using resolvePromise_form by blast
  with settle_value(3,4) [of q' "deferred_of s k" "Response r" "h_q s"] raw_okD(4) [OF D deferred_in [OF k]]
  show ?thesis by fastforce
qed

lemma ok_closed:
  assumes ok: "http_ok env {} p es s"
    and k: "status (promises (h_q s) ! deferred_of s k) \<noteq> 0 \<or> k \<in> set (map la_request (h_later s))"
  shows "http_ok env {} p es (s\<lparr>h_open := remove1 k (h_open s)\<rparr>)"
proof -
  let ?t = "s\<lparr>h_open := remove1 k (h_open s)\<rparr>"
  have "answer_comes p es ?t j" if "answer_comes p es s j" "status (promises (h_q s) ! deferred_of s j) = 0" for j
    using that k by (cases "j = k") (auto simp: answer_comes_def)
  then have "requests_ok {} p es ?t"
    using http_okD(2) [OF ok] unfolding requests_ok_def by (simp add: unremoved_def)
  moreover have "deferreds ?t = deferreds s" "cache_exists ?t = cache_exists s"
    by (simp_all add: deferreds_def cache_exists_def fun_eq_iff split: cache_option.split)
  moreover have "set (remove1 k (h_open s)) \<subseteq> set (h_open s)" by (rule set_remove1_subset)
  ultimately show ?thesis using ok unfolding http_ok_def by auto
qed

lemma ok_later:
  assumes ok: "http_ok env {} p es s" and l: "la_request l < length (h_requests s)"
  shows "http_ok env {} p es (s\<lparr>h_later := h_later s @ [l]\<rparr>)"
proof -
  let ?t = "s\<lparr>h_later := h_later s @ [l]\<rparr>"
  have "answer_comes p es ?t j" if "answer_comes p es s j" for j using that by (auto simp: answer_comes_def)
  then have "requests_ok {} p es ?t"
    using http_okD(2) [OF ok] unfolding requests_ok_def by (simp add: unremoved_def)
  moreover have "deferreds ?t = deferreds s" "cache_exists ?t = cache_exists s"
    by (simp_all add: deferreds_def cache_exists_def fun_eq_iff split: cache_option.split)
  ultimately show ?thesis using ok l unfolding http_ok_def by auto
qed

lemma ok_answer:
  assumes ok: "http_ok env {} p es s" and k: "k \<in> set (h_open s)"
  shows "http_ok env {} p es ((snd (http_done env k st data headers tx s))\<lparr>h_open := remove1 k (h_open s)\<rparr>)"
proof -
  let ?r = "h_requests s ! k"
  let ?m = "case rr_cache ?r of None \<Rightarrow> ret ()
     | Some a \<Rightarrow> if isSuccess st
         then seqM (on_cache a (cache_put (rr_url ?r) (Some (Answer st data (parseHeaders headers) tx)))) (ret ())
         else on_cache a (cache_remove (rr_url ?r))"
  have n: "k < length (h_requests s)" by (rule http_okD(5) [OF ok k])
  have "\<exists>cs. ?m s = (Inr (), s\<lparr>h_caches := cs\<rparr>) \<and> http_ok env {} p es (s\<lparr>h_caches := cs\<rparr>)"
  proof (cases "rr_cache ?r")
    case None
    with ok show ?thesis by (auto simp: ret_def intro: exI [of _ "h_caches s"])
  next
    case (Some a)
    have a: "a < length (h_caches s)" using http_okD(11) [OF ok _ Some] n by simp
    have "\<exists>y c'. cache_put (rr_url ?r) (Some (Answer st data (parseHeaders headers) tx)) c = (Inr y, c') \<and> cache_fine (deferreds s) c'"
      if "cache_fine (deferreds s) c" for c using fine_put [OF that, of "Answer st data (parseHeaders headers) tx"] by blast
    note put = ok_cache [where m = "cache_put (rr_url ?r) (Some (Answer st data (parseHeaders headers) tx))", OF ok a this]
    have "\<exists>y c'. cache_remove (rr_url ?r) c = (Inr y, c') \<and> cache_fine (deferreds s) c'"
      if "cache_fine (deferreds s) c" for c using fine_remove [OF that] by blast
    note remove = ok_cache [where m = "cache_remove (rr_url ?r)", OF ok a this]
    from put remove Some show ?thesis by (cases "isSuccess st") (auto simp: seqM_def bindM_def ret_def)
  qed
  then obtain cs where m: "?m s = (Inr (), s\<lparr>h_caches := cs\<rparr>)" and t: "http_ok env {} p es (s\<lparr>h_caches := cs\<rparr>)" by blast
  let ?t = "s\<lparr>h_caches := cs\<rparr>"
  show ?thesis
  proof (cases "he_applyAsync env")
    case True
    let ?l = "\<lparr>la_request = k, la_data = data, la_status = st, la_headers = headers, la_statusText = tx\<rparr>"
    have "snd (http_done env k st data headers tx s) = ?t\<lparr>h_later := h_later s @ [?l]\<rparr>"
      using m True by (simp add: http_done_def Let_def seqM_def bindM_def modS_def)
    with ok_closed [OF ok_later [OF t, of ?l], of k] n show ?thesis by simp
  next
    case False
    then have d: "snd (http_done env k st data headers tx s) = resolvePromise k data st headers tx ?t"
      using m by (simp add: http_done_def Let_def seqM_def bindM_def modS_def)
    have "http_ok env {} p es (resolvePromise k data st headers tx ?t)" using ok_resolvePromise [OF t, of k] n by simp
    from ok_closed [OF this, of k] resolvePromise_settles [OF http_okD(1) [OF t], of k] n d show ?thesis
      by (simp add: resolvePromise_def Let_def set_q_def)
  qed
qed

lemma ok_late:
  assumes ok: "http_ok env {} p es s" and l: "h_later s = l # ls"
  shows "http_ok env {} p es (resolveHttpPromise l (s\<lparr>h_later := ls\<rparr>))"
proof -
  let ?t = "s\<lparr>h_later := ls\<rparr>" and ?k = "la_request l"
  have n: "?k < length (h_requests s)" using http_okD(6) [OF ok, of l] l by simp
  have "answer_comes p es ?t j" if "answer_comes p es s j" "j \<noteq> ?k" for j using that l by (auto simp: answer_comes_def)
  then have "requests_ok {?k} p es ?t"
    using http_okD(2) [OF ok] unfolding requests_ok_def by (simp add: unremoved_def)
  moreover have "deferreds ?t = deferreds s" "cache_exists ?t = cache_exists s"
    by (simp_all add: deferreds_def cache_exists_def fun_eq_iff split: cache_option.split)
  ultimately have "http_ok env {?k} p es ?t" using ok l unfolding http_ok_def by auto
  from ok_resolvePromise [OF this, of ?k] n show ?thesis by (simp add: resolveHttpPromise_def)
qed

lemma ok_step: "http_step env s t \<Longrightarrow> http_ok env {} 0 [] s \<Longrightarrow> http_ok env {} 0 [] t"
proof (induction rule: http_step.induct)
  case (step_call ics s rc)
  then show ?case by (intro ok_http)
next
  case (step_answer k s st data headers statusText)
  then show ?case by (intro ok_answer)
next
  case (step_late s l ls)
  then show ?case by (intro ok_late)
next
  case (step_tick s)
  then show ?case by (rule ok_tick)
next
  case (step_callback f g p s)
  then show ?case by (intro ok_then [OF _ _ _ _ prod.collapse [symmetric]]) (simp_all add: user_plain)
next
  case (step_store a s v k)
  from ok_cache [where m = "cache_put k (Some (Stored v))", OF step_store.prems step_store.hyps(1)] fine_put [of _ _ "Stored v"]
  show ?case by fastforce
next
  case (step_forget a s k)
  from ok_cache [where m = "cache_remove k", OF step_forget.prems step_forget.hyps] fine_remove show ?case by fastforce
next
  case (step_clear a s)
  from ok_cache [where m = cache_removeAll, OF step_clear.prems step_clear.hyps] fine_removeAll show ?case by fastforce
qed

definition http_start :: "http_env \<Rightarrow> http_state \<Rightarrow> bool" where
  "http_start env s \<longleftrightarrow> (\<exists>names. s = fresh_http names) \<and> cache_exists s (df_cache (he_defaults env))"

lemma ok_start: "http_start env s \<Longrightarrow> http_ok env {} 0 [] s"
  using queue_ok_empty
  by (auto simp: http_start_def http_ok_def fresh_http_def requests_ok_def raw_ok_def entries_def deferreds_def fine_new
      intro: queue_ok_empty) (auto simp: empty_q_def)

interpretation http_service: invariant_system "http_start env" "http_step env" "http_ok env {} 0 []" for env
  by unfold_locales (auto intro: ok_start ok_step)

text \<open>
  C40. No request is lost: whatever the application, the server and the queue have done, when
  the server owes no answer, no answer waits for a digest and the queue has run, the promise of
  every request is settled with a response, also of those that got no request to the server of
  their own but shared another's, and the list of pending requests is empty.
\<close>

theorem no_request_lost:
  assumes "reachable (http_start env) (http_step env) s"
    and "h_open s = []" and "h_later s = []" and "ticks (h_q s) = []"
  shows "pendingRequests s = [] \<and> (\<forall>r \<in> set (h_requests s). \<exists>x. settled (h_q s) (rr_deferred r) \<and>
    settled_value (promises (h_q s) ! rr_deferred r) = Val (Response x))"
proof -
  have ok: "http_ok env {} 0 [] s" using http_service.reachable_inv [OF assms(1)] .
  note D = http_okD(1) [OF ok] and reqs = requests_okD [OF http_okD(2) [OF ok]]
  have silent: "\<not> live 0 [] (h_q s) d e" if "status (promises (h_q s) ! d) > 0" for d e
    using raw_okD(3) [OF D] assms(4) that by (auto simp: live_def waits_in_def queue_but_def scheduled_ok_def)
  have pos: "status (promises (h_q s) ! deferred_of s k) > 0" if "k < length (h_requests s)" for k
    using that
  proof (induction k rule: less_induct)
    case (less k)
    from less have "\<not> answer_comes 0 [] s k" using silent assms(2,3) by (auto simp: answer_comes_def)
    with reqs(2) [OF less.prems] raw_okD(5) [OF D deferred_in [OF less.prems]] show ?case by fastforce
  qed
  then have "unremoved 0 [] s c = {}" for c using silent by (auto simp: unremoved_def)
  with reqs(3) have "count_list (pendingRequests s) c = 0" for c by simp
  then have "pendingRequests s = []" by (metis count_list_0_iff list.set_intros(1) neq_Nil_conv)
  moreover have "\<exists>x. settled (h_q s) (rr_deferred r) \<and> settled_value (promises (h_q s) ! rr_deferred r) = Val (Response x)"
    if "r \<in> set (h_requests s)" for r
  proof -
    from that obtain k where k: "k < length (h_requests s)" "r = h_requests s ! k" by (auto simp: in_set_conv_nth)
    with reqs(1) [OF k(1) pos [OF k(1)]] pos [OF k(1)] raw_okD(4) [OF D deferred_in [OF k(1)]] show ?thesis
      by (auto simp: settled_def)
  qed
  ultimately show ?thesis by blast
qed

text \<open>What evaluates an example of calls.\<close>

lemmas queue_eval = new_deferred_def q_then_def push_pending_def update_promise_def scheduleProcessQueue_def exists_in_def
  q_resolve_def q_reject_def settle_resolved_def settle_rejected_def q_when_def empty_q_def process_entry_def makePromise_def

lemmas service_eval = http_def fresh_http_def new_config_def reversedInterceptors_def interceptor_chain_def then_chain_def set_q_def
  http_tick_def http_processQueue_def http_process_entry_def http_call_def serverRequest_def sendReq_def new_request_def on_cache_def
  send_backend_def serve_cached_def cache_for_def resolvePromise_def http_done_def removePendingReq_def resolvePromiseWithResult_def
  transformResponse_def xsrf_header_def buildUrl_def mergeHeaders_def strip_content_type_def shallowCopy_def isSuccess_def

lemmas example_eval = get_request_def new_cache_def quiet_env_def http_defaults_def bindM_def seqM_def modS_def ret_def
  cache_get_def cache_put_def touch_def store_def evict_def Let_def eval_nat_numeral

lemma get_method: "uppercase ''get'' = ''GET''" and no_headers: "parseHeaders (RawText []) = []"
  by code_simp+

lemmas calls_eval = two_calls_def sent_calls_def answered_calls_def quiet_calls_def queue_eval service_eval example_eval get_method no_headers

lemma calls_open: "h_open sent_calls = [0]" and calls_sent: "map bc_url (h_sent sent_calls) = [''/a'']"
  by (simp_all add: calls_eval)

lemma quiet_rest: "h_open quiet_calls = []" "h_later quiet_calls = []" "ticks (h_q quiet_calls) = []"
  by (simp_all add: calls_eval)

lemma quiet_requests: "map rr_deferred (h_requests quiet_calls) = [4, 8]"
  by (simp add: calls_eval)

lemma reachable_ticks: "reachable I (http_step env) s \<Longrightarrow> reachable I (http_step env) ((http_tick env ^^ n) s)"
  by (induction n) (auto intro: reachable_step step_tick)

theorem no_request_lost_witness:
  "map bc_url (h_sent sent_calls) = [''/a''] \<and> pendingRequests quiet_calls = [] \<and>
    map rr_deferred (h_requests quiet_calls) = [4, 8] \<and>
    settled (h_q quiet_calls) 4 \<and> (\<exists>x. settled_value (promises (h_q quiet_calls) ! 4) = Val (Response x)) \<and>
    settled (h_q quiet_calls) 8 \<and> (\<exists>x. settled_value (promises (h_q quiet_calls) ! 8) = Val (Response x))"
proof -
  have start: "http_start quiet_env (fresh_http [])" by (auto simp: http_start_def cache_exists_def fresh_http_def quiet_env_def http_defaults_def)
  have "cache_exists s (rc_cache (get_request ''/a'' CTrue))" for s by (simp add: cache_exists_def get_request_def)
  then have call: "http_step quiet_env s (snd (http quiet_env [] (get_request ''/a'' CTrue) s))" for s by (intro step_call) simp_all
  have "reachable (http_start quiet_env) (http_step quiet_env) two_calls"
    unfolding two_calls_def by (rule reachable_step, rule reachable_step, rule reachable_init, rule start, rule call, rule call)
  from reachable_ticks [OF this] have "reachable (http_start quiet_env) (http_step quiet_env) sent_calls" unfolding sent_calls_def .
  from reachable_step [OF this step_answer] have "reachable (http_start quiet_env) (http_step quiet_env) answered_calls"
    unfolding answered_calls_def using calls_open by simp
  from reachable_ticks [OF this] have "reachable (http_start quiet_env) (http_step quiet_env) quiet_calls" unfolding quiet_calls_def .
  from no_request_lost [OF this quiet_rest] quiet_requests show ?thesis
    by (cases "h_requests quiet_calls") (auto simp: calls_sent map_eq_Cons_conv)
qed

end
