(* ===== verification/Spec2Isabelle.thy ===== *)
theory Spec2Isabelle
  imports Demos Console ScrollGlue SiebogApp NgQ NgDigestProps NgEventProps NgCollection NgRoundtrip NgSandbox NgCacheProps NgParseProps NgInterpolate NgHttpProps
begin

text \<open>
  A model of the browser side of Siebog, a multi-agent platform whose agents also run in web
  pages, and of the parts of AngularJS 1.4.8 (\<open>war/js/angular.js\<close>, the copy in the repository)
  that it is built on. All paths below are under \<open>src/siebog/war\<close>.

  The program. A page starts agents: each is a web worker that runs a script of \<open>js/agents\<close>.
  The platform (\<open>app/shared/radigost\<close>) keeps the table of running agents, routes messages
  between workers, the page's observers and the server, and takes messages from the server's
  socket. Requests to the server go through \<open>xjaf.service.js\<close>. The controllers under
  \<open>app/components\<close> and the side bar (\<open>app/shared/console\<close>) use these services; Angular wires
  them up (modules, injector), runs their callbacks (promises, events, digests) and evaluates the
  expressions of the templates.

  The theories, with the code they model and what their lemmas show:

    \<^item> \<^bold>\<open>Prelude\<close>, \<^bold>\<open>Interfaces\<close>: computations over a state that may throw (\<open>comp\<close>: the result is a
      sum, the state keeps what happened before a throw), objects as ordered association lists; the
      contracts between components as locales (keyed and removable stores, codecs, transition
      systems with an invariant), each interpreted on the model.
    \<^item> \<^bold>\<open>JsValue\<close>, \<^bold>\<open>Json\<close>: the values the application passes around, \<open>JSON.stringify\<close> and
      \<open>JSON.parse\<close>; parsing reads back every rendered value.
    \<^item> \<^bold>\<open>Messages\<close>, \<^bold>\<open>Xjaf\<close>: identifiers, ACL messages, observers and the constant tables; each
      operation on the server as the request it makes.
    \<^item> \<^bold>\<open>Radigost\<close>, \<^bold>\<open>RadigostProps\<close>: \<open>radigost.service.js\<close>. One state record holds the table, the
      queues to the workers, requests, socket texts, callbacks made and console lines. Every worker's
      first message is its INIT; where \<open>post\<close> sends each receiver; what each op-code does.
    \<^item> \<^bold>\<open>AgentWorker\<close>: \<open>js/agents\<close>: the worker's handler, interceptors with pre- and
      postconditions, migration of the state as text, the three bundled agents.
    \<^item> \<^bold>\<open>Browser\<close>, \<^bold>\<open>PageProps\<close>, \<^bold>\<open>Demos\<close>: platform and workers together as a step relation over all
      interleavings of their queues; workers know who they are, the page never throws; the two
      demonstrations of the client examples played to the end in every order.
    \<^item> \<^bold>\<open>Controllers\<close>, \<^bold>\<open>Console\<close>, \<^bold>\<open>ScrollGlue\<close>: the controllers of the examples and the runner, the
      side bar (refined to a multiset of running agents), \<open>js/scrollglue.js\<close>.
    \<^item> \<^bold>\<open>SiebogApp\<close>: what the scripts of \<open>index.html\<close> declare, in page order, and the routes; loading
      the application is run in the modelled Angular.
    \<^item> \<^bold>\<open>NgUtil\<close>, \<^bold>\<open>NgModules\<close>, \<^bold>\<open>NgLoader\<close>, \<^bold>\<open>NgInjector\<close>: error texts, the module registry,
      \<open>loadModules\<close> and \<open>createInjector\<close>: what is loaded, termination, circular dependencies.
    \<^item> \<^bold>\<open>NgQ\<close>, \<^bold>\<open>NgQLive\<close>: \<open>qFactory\<close>, all of it: settled promises stay settled, callbacks run in
      order, and none that waits for a settled promise is lost.
    \<^item> \<^bold>\<open>NgScope\<close>, \<^bold>\<open>NgEvents\<close>, \<^bold>\<open>NgDigest\<close>, \<^bold>\<open>NgCollection\<close>: \<open>$RootScopeProvider\<close>: scopes as nodes
      with sibling pointers in one store, watches, listeners, events, digests, timers and
      \<open>$watchCollection\<close>. \<^bold>\<open>NgScopeTree\<close>, \<^bold>\<open>NgScopeLife\<close> and \<^bold>\<open>NgScopeSteps\<close> show that pointers and
      counts stay exact under every operation, \<^bold>\<open>NgWalk\<close> that the walk along the pointers is the
      preorder of the tree, \<^bold>\<open>NgDigestProps\<close> and \<^bold>\<open>NgEventProps\<close> what digests and events achieve.
    \<^item> \<^bold>\<open>NgLexer\<close>, \<^bold>\<open>NgAst\<close>: \<open>Lexer\<close> and \<open>AST\<close>; \<^bold>\<open>NgAstProps\<close>: parsing always ends; \<^bold>\<open>NgPrint\<close> and
      \<^bold>\<open>NgRoundtrip\<close>: printed trees are read back, which fixes precedence and associativity.
    \<^item> \<^bold>\<open>NgValues\<close>, \<^bold>\<open>NgInterp\<close>: a heap of objects with prototypes, the operators of the language,
      \<open>findConstantAndWatchExpressions\<close>, the sandbox checks and \<open>ASTInterpreter\<close>.
      \<^bold>\<open>NgInterpProps\<close>: a locale for properties that every kind of compiled node hands on, and
      constant expressions; \<^bold>\<open>NgSandbox\<close>: what no expression can change.
    \<^item> \<^bold>\<open>NgParse\<close>, \<^bold>\<open>NgParseProps\<close>: the service \<open>$parse\<close>: cache, watch delegates, interceptors;
      watching the inputs of an expression shows what evaluating it would. \<^bold>\<open>NgInterpolate\<close>:
      \<open>$interpolate\<close>: how a text with expressions is cut, and what every rendering of it gives.
    \<^item> \<^bold>\<open>NgCache\<close>, \<^bold>\<open>NgCacheProps\<close>: \<open>$cacheFactory\<close>: the linked list of the entries refines a list in
      the order of the last use; what the capacity guarantees.
    \<^item> \<^bold>\<open>NgHttp\<close>, \<^bold>\<open>NgHttpProps\<close>: \<open>$http\<close> on the modelled promises and caches: configurations, headers,
      transformations, interceptors, \<open>sendReq\<close>. Calls, answers, ticks and changes of caches are the
      steps of a relation; its invariant says who will settle the promise of each request, from
      which follows that no request is lost and none stays among the pending ones.

  Bounds. Loops that follow pointers or recursive descent take a bound that makes the definition
  total: a walk over a scope tree the number of scopes, a prototype chain the number of objects,
  the injector the number of services not yet created, module loading the number of modules, the
  expression parser the number of tokens, a digest its TTL. Each is shown to be enough
  (\<open>parsing_ends\<close>, \<open>creation_ends\<close>, \<open>loading_ends\<close>, the walk lemmas of \<open>NgWalk\<close>).

  Parameters. What the code does not contain is an argument of the definitions: answers of the
  server, cookies, the functions the application hands to Angular, the arithmetic of IEEE doubles, the
  \<open>valueOf\<close> and \<open>toString\<close> of objects, timers and the order in which queues are served.

  Not modelled: the server (Java) and \<open>dnars\<close> (Scala), which the client reaches only by HTTP and
  web sockets; third-party minified scripts; markup and styles; of Angular the generator of
  JavaScript text (\<open>ASTCompiler\<close>), which builds source text for the Function constructor,
  \<open>isAllDefined\<close> of the one-time watch of a literal, and the parts that are input and output to the
  DOM and the network: jqLite, \<open>$compile\<close> and the directives, forms, animation, \<open>$location\<close>,
  \<open>$browser\<close>, \<open>$httpBackend\<close>, the serializers of parameters and the filters.
\<close>

end
